(* ===== verification/Prelude.thy ===== *)
theory Prelude
  imports Main "HOL-Library.Word"
begin

text \<open>
  Shared material of the development: the machine types of the sources, the bytes of a native
  64-bit integer, decimal printing, the counting loop over 64-bit identifiers that the queue uses
  for chunk ranges, and the codec interfaces of the on-disk formats.
\<close>

section \<open>Collections of facts\<close>

named_theorems codec_simps \<open>round trips of the byte formats\<close>
named_theorems journal_simps \<open>what a key holds after a journal operation\<close>
named_theorems frame_simps \<open>fields an operation leaves alone\<close>

section \<open>Machine types\<close>

text \<open>\<^verbatim>\<open>boost::uint64_t\<close> and \<^verbatim>\<open>size_t\<close> of the 64-bit targets; arithmetic wraps around.\<close>

type_synonym u64 = "64 word"
type_synonym u32 = "32 word"
type_synonym byte = "8 word"

text \<open>
  What a call can end with besides a value. \<open>Io_error\<close>, \<open>Already_open\<close> and \<open>Eof\<close> are the
  \<^verbatim>\<open>system_error\<close> codes the sources throw, \<open>Fs_error\<close> the \<^verbatim>\<open>filesystem_error\<close> of Boost, which is a
  \<^verbatim>\<open>system_error\<close> too, \<open>Cannot_open\<close> the \<^verbatim>\<open>runtime_error\<close> with the journal's path, \<open>Undefined\<close> an execution the
  C++ standard leaves undefined (an index outside a string, the key of an invalid iterator, a use of a
  destroyed object) and \<open>Diverges\<close> a loop that never ends.
\<close>

datatype error = Io_error | Already_open | Eof | Fs_error | Cannot_open string | Undefined | Diverges

text \<open>A call that may throw: the outcome, and the state it leaves behind in either case.\<close>

type_synonym ('s, 'a) outcome = "(error + 'a) \<times> 's"

section \<open>Native integers as bytes\<close>

fun le_bytes :: "nat \<Rightarrow> nat \<Rightarrow> string" where
  "le_bytes 0 n = []"
| "le_bytes (Suc k) n = char_of (n mod 256) # le_bytes k (n div 256)"

fun le_value :: "string \<Rightarrow> nat" where
  "le_value [] = 0"
| "le_value (c # cs) = of_char c + 256 * le_value cs"

lemma length_le_bytes [simp]: "length (le_bytes k n) = k"
  by (induction k arbitrary: n) auto

lemma le_value_le_bytes: "le_value (le_bytes k n) = n mod 256 ^ k"
proof (induction k arbitrary: n)
  case 0
  then show ?case by simp
next
  case (Suc k)
  then show ?case by (simp add: mod_mult2_eq)
qed

lemma le_bytes_le_value: "le_bytes (length cs) (le_value cs) = cs"
proof (induction cs)
  case Nil
  then show ?case by simp
next
  case (Cons c cs)
  have "(of_char c :: nat) < 256" by simp
  with Cons show ?case by simp
qed

lemma le_value_bound: "le_value cs < 256 ^ length cs"
proof (induction cs)
  case Nil
  then show ?case by simp
next
  case (Cons c cs)
  have "le_value (c # cs) < 256 * (le_value cs + 1)" by simp
  also have "\<dots> \<le> 256 ^ length (c # cs)" using Cons by simp
  finally show ?case .
qed

text \<open>The eight bytes of an \<^verbatim>\<open>id_type\<close>, little-endian as on the x86-64 targets.\<close>

definition u64_bytes :: "u64 \<Rightarrow> string" where
  "u64_bytes w = le_bytes 8 (unat w)"

definition u64_of_bytes :: "string \<Rightarrow> u64" where
  "u64_of_bytes cs = word_of_nat (le_value cs)"

lemma length_u64_bytes [simp]: "length (u64_bytes w) = 8"
  by (simp add: u64_bytes_def)

lemma u64_of_bytes_u64_bytes [simp]: "u64_of_bytes (u64_bytes w) = w"
proof -
  have "unat w < 256 ^ 8"
    using unsigned_less [of w, where ?'a = nat] by simp
  then show ?thesis
    by (simp add: u64_of_bytes_def u64_bytes_def le_value_le_bytes)
qed

lemma u64_bytes_u64_of_bytes [simp]: "length cs = 8 \<Longrightarrow> u64_bytes (u64_of_bytes cs) = cs"
  using le_value_bound [of cs] le_bytes_le_value [of cs]
  by (simp add: u64_bytes_def u64_of_bytes_def unsigned_of_nat take_bit_nat_eq_self)


section \<open>Decimal output\<close>

text \<open>What \<^verbatim>\<open>operator<<\<close>, \<^verbatim>\<open>lexical_cast<string>\<close> and \<^verbatim>\<open>%lu\<close> print for an unsigned number.\<close>

fun decimal :: "nat \<Rightarrow> string" where
  "decimal n = (if n < 10 then [char_of (48 + n)] else decimal (n div 10) @ [char_of (48 + n mod 10)])"

declare decimal.simps [simp del]

definition is_digit :: "char \<Rightarrow> bool" where
  "is_digit c \<longleftrightarrow> 48 \<le> (of_char c :: nat) \<and> (of_char c :: nat) \<le> 57"

lemma is_digit_char_of [simp]: "d < 10 \<Longrightarrow> is_digit (char_of (48 + d))" for d :: nat
  by (simp add: is_digit_def)

lemma decimal_digits: "\<forall>c \<in> set (decimal n). is_digit c"
proof (induction n rule: decimal.induct)
  case (1 n)
  show ?case
  proof (cases "n < 10")
    case True
    then show ?thesis by (subst decimal.simps) simp
  next
    case False
    with 1 have "\<forall>c \<in> set (decimal (n div 10)). is_digit c" by simp
    with False show ?thesis by (subst decimal.simps) auto
  qed
qed

lemma decimal_nonempty [simp]: "decimal n \<noteq> []"
  by (subst decimal.simps) simp

lemma decimal_length_le: "n < 10 ^ k \<Longrightarrow> 0 < k \<Longrightarrow> length (decimal n) \<le> k"
proof (induction k arbitrary: n)
  case 0
  then show ?case by simp
next
  case (Suc k)
  show ?case
  proof (cases "n < 10")
    case True
    then show ?thesis by (subst decimal.simps) simp
  next
    case False
    with Suc.prems have "0 < k" by (cases k) auto
    moreover have "n div 10 < 10 ^ k"
      using Suc.prems by (simp add: less_mult_imp_div_less mult.commute)
    ultimately have "length (decimal (n div 10)) \<le> k" using Suc.IH by blast
    with False show ?thesis by (subst decimal.simps) simp
  qed
qed

lemma decimal_length_ge: "10 ^ k \<le> n \<Longrightarrow> k < length (decimal n)"
proof (induction k arbitrary: n)
  case 0
  then show ?case by (simp add: length_greater_0_conv)
next
  case (Suc k)
  then have "10 ^ k \<le> n div 10"
    by (simp add: less_eq_div_iff_mult_less_eq mult.commute)
  then have "k < length (decimal (n div 10))" by (rule Suc.IH)
  moreover have "1 \<le> n div 10"
    using \<open>10 ^ k \<le> n div 10\<close> one_le_power [of "10 :: nat" k] by linarith
  then have "\<not> n < 10" by simp
  ultimately show ?case by (subst decimal.simps) simp
qed

text \<open>The number a string of decimal digits stands for.\<close>

definition digits_value :: "string \<Rightarrow> nat" where
  "digits_value cs = foldl (\<lambda>n c. 10 * n + (of_char c - 48)) 0 cs"

lemma digits_value_snoc: "digits_value (cs @ [c]) = 10 * digits_value cs + (of_char c - 48)"
  by (simp add: digits_value_def)

lemma digits_value_decimal [simp]: "digits_value (decimal n) = n"
proof (induction n rule: decimal.induct)
  case (1 n)
  show ?case
  proof (cases "n < 10")
    case True
    then show ?thesis by (subst decimal.simps) (simp add: digits_value_def)
  next
    case False
    then show ?thesis using 1 by (subst decimal.simps) (simp add: digits_value_snoc)
  qed
qed

section \<open>The counting loop over identifiers\<close>

text \<open>
  \<^verbatim>\<open>for (k(beg); k.id != end; ++k.id)\<close>: the identifiers the loop visits, in order. The counter is a
  64-bit word, so the loop stops after \<open>end - beg\<close> rounds modulo $2^{64}$ whatever its bounds.
\<close>

lemma unat_diff_step: "k \<noteq> e \<Longrightarrow> unat (e - (k + 1)) < unat (e - k)" for k e :: u64
proof -
  assume "k \<noteq> e"
  then have "e - k \<noteq> 0" by simp
  then have "unat (e - k - 1) = unat (e - k) - 1" and "unat (e - k) \<noteq> 0"
    by (simp_all add: unat_minus_one unat_eq_zero)
  then show ?thesis by (simp add: diff_diff_eq)
qed

function id_range :: "u64 \<Rightarrow> u64 \<Rightarrow> u64 list" where
  "id_range k e = (if k = e then [] else k # id_range (k + 1) e)"
  by pat_completeness auto
termination
  by (relation "measure (\<lambda>(k, e). unat (e - k))") (auto simp: unat_diff_step)

declare id_range.simps [simp del]

lemma id_range_same [simp]: "id_range k k = []"
  by (simp add: id_range.simps)

lemma id_range_eq: "id_range k e = map (\<lambda>i. k + of_nat i) [0..<unat (e - k)]"
proof (induction k e rule: id_range.induct)
  case (1 k e)
  show ?case
  proof (cases "k = e")
    case True
    then show ?thesis by simp
  next
    case False
    have n: "unat (e - k) = Suc (unat (e - (k + 1)))"
      using unat_diff_step [OF False] False
      by (simp add: diff_diff_eq [symmetric] unat_minus_one)
    have "id_range k e = k # map (\<lambda>i. k + 1 + of_nat i) [0..<unat (e - (k + 1))]"
      using False 1 by (simp add: id_range.simps [of k e])
    also have "\<dots> = map (\<lambda>i. k + of_nat i) [0..<Suc (unat (e - (k + 1)))]"
      by (simp add: upt_conv_Cons map_Suc_upt [symmetric] del: upt_Suc)
    finally show ?thesis by (simp only: n)
  qed
qed

lemma length_id_range [simp]: "length (id_range k e) = unat (e - k)"
  by (simp add: id_range_eq)

lemma id_range_Cons: "k \<noteq> e \<Longrightarrow> id_range k e = k # id_range (k + 1) e"
  by (simp add: id_range.simps [of k e])

lemma unat_plus_one: "e + 1 \<noteq> 0 \<Longrightarrow> unat (e + 1) = Suc (unat e)" for e :: u64
  using unatSuc [of e] by (simp add: add.commute)

lemma less_plus_one: "k < e \<Longrightarrow> k + 1 \<noteq> 0 \<and> k < k + 1 \<and> k + 1 \<le> e" for k e :: u64
proof -
  assume "k < e"
  have "k + 1 \<noteq> 0"
  proof
    assume "k + 1 = 0"
    then have "k = - 1" by (simp add: add_eq_0_iff2)
    with \<open>k < e\<close> show False by (simp add: word_order.not_eq_extremum [symmetric])
  qed
  then show ?thesis
    using \<open>k < e\<close> by (simp add: word_less_nat_alt word_le_nat_alt unat_plus_one)
qed

lemma unat_word_offset: "unat k + i < 2 ^ 64 \<Longrightarrow> unat (k + of_nat i) = unat k + i" for k :: u64
  by (simp add: unat_word_ariths unsigned_of_nat take_bit_nat_eq_self)

lemma set_id_range: "k \<le> e \<Longrightarrow> set (id_range k e) = {k..<e}"
proof -
  assume le: "k \<le> e"
  have diff: "unat (e - k) = unat e - unat k" using le by (simp add: unat_sub)
  have e_bound: "unat e < 2 ^ 64" using unsigned_less [of e, where ?'a = nat] by simp
  have "x \<in> set (id_range k e) \<longleftrightarrow> x \<in> {k..<e}" for x
  proof
    assume "x \<in> set (id_range k e)"
    then obtain i where "i < unat (e - k)" and x: "x = k + of_nat i" by (auto simp: id_range_eq)
    with diff e_bound have "unat x = unat k + i" and "unat k + i < unat e"
      by (auto simp: unat_word_offset)
    then show "x \<in> {k..<e}" by (auto simp: word_le_nat_alt word_less_nat_alt)
  next
    assume "x \<in> {k..<e}"
    then have "k \<le> x" and "x < e" by auto
    then have "unat (x - k) < unat (e - k)"
      using diff by (simp add: unat_sub word_le_nat_alt word_less_nat_alt)
    moreover have "x = k + of_nat (unat (x - k))" by simp
    ultimately show "x \<in> set (id_range k e)"
      unfolding id_range_eq set_map set_upt by (intro image_eqI [of _ _ "unat (x - k)"]) simp_all
  qed
  then show ?thesis by blast
qed

lemma sorted_id_range: "k \<le> e \<Longrightarrow> sorted_wrt (<) (id_range k e)"
proof (induction k e rule: id_range.induct)
  case (1 k e)
  show ?case
  proof (cases "k = e")
    case True
    then show ?thesis by simp
  next
    case False
    with "1.prems" have "k < e" by simp
    then have "k + 1 \<le> e" and lt: "k < k + 1" using less_plus_one by blast+
    with 1 False have "sorted_wrt (<) (id_range (k + 1) e)" by blast
    moreover have "\<forall>x \<in> set (id_range (k + 1) e). k < x"
      using \<open>k + 1 \<le> e\<close> lt by (auto simp: set_id_range)
    ultimately show ?thesis using False by (simp add: id_range_Cons)
  qed
qed

lemma id_range_snoc: "k \<le> e \<Longrightarrow> e + 1 \<noteq> 0 \<Longrightarrow> id_range k (e + 1) = id_range k e @ [e]"
proof -
  assume "k \<le> e" and "e + 1 \<noteq> 0"
  then have "unat (e + 1) = Suc (unat e)" by (simp add: unat_plus_one)
  moreover have "k \<le> e + 1"
    using \<open>k \<le> e\<close> \<open>e + 1 \<noteq> 0\<close> by (simp add: word_le_nat_alt unat_plus_one)
  ultimately have "unat (e + 1 - k) = Suc (unat (e - k))"
    using \<open>k \<le> e\<close> by (simp add: unat_sub Suc_diff_le word_le_nat_alt)
  then show ?thesis by (simp add: id_range_eq)
qed

section \<open>Codecs\<close>

text \<open>
  The interface every on-disk format offers its users: \<open>dec\<close> gives back what \<open>enc\<close> wrote for the
  values in \<open>dom\<close>.
\<close>

locale codec =
  fixes enc :: "'a \<Rightarrow> string"
    and dec :: "string \<Rightarrow> 'a option"
    and dom :: "'a \<Rightarrow> bool"
  assumes dec_enc: "dom x \<Longrightarrow> dec (enc x) = Some x"
begin

lemma enc_inj: "dom x \<Longrightarrow> dom y \<Longrightarrow> enc x = enc y \<longleftrightarrow> x = y"
  by (metis dec_enc option.inject)

end

text \<open>
  A struct read back through a pointer cast: every value takes \<open>width\<close> bytes, and reading looks at
  those bytes only, whatever follows them.
\<close>

locale prefix_codec =
  fixes enc :: "'a \<Rightarrow> string"
    and dec :: "string \<Rightarrow> 'a option"
    and width :: nat
  assumes dec_prefix: "dec (enc x @ r) = Some x"
    and length_enc: "length (enc x) = width"
begin

lemma enc_append_inj: "enc x @ r = enc y @ r' \<longleftrightarrow> x = y \<and> r = r'"
proof
  assume eq: "enc x @ r = enc y @ r'"
  then have "x = y" using dec_prefix [of x r] dec_prefix [of y r'] by simp
  with eq show "x = y \<and> r = r'" by simp
qed simp

end

sublocale prefix_codec \<subseteq> codec enc dec "\<lambda>_. True"
  using dec_prefix [of _ "[]"] by unfold_locales simp

text \<open>Two formats that share one key space: no value of the one reads as a value of the other.\<close>

locale tagged_codecs = left: codec enc1 dec1 dom1 + right: codec enc2 dec2 dom2
  for enc1 :: "'a \<Rightarrow> string" and dec1 dom1 and enc2 :: "'b \<Rightarrow> string" and dec2 dom2 +
  fixes is_right :: "string \<Rightarrow> bool"
  assumes tag_left: "dom1 x \<Longrightarrow> \<not> is_right (enc1 x)"
    and tag_right: "dom2 y \<Longrightarrow> is_right (enc2 y)"
begin

lemma enc_disjoint: "dom1 x \<Longrightarrow> dom2 y \<Longrightarrow> enc1 x \<noteq> enc2 y"
  using tag_left tag_right by metis

end

end
