(* ===== verification/Leveldb.thy ===== *)
theory Leveldb
  imports Prelude
begin

text \<open>
  The interface of \<^verbatim>\<open>leveldb::DB\<close> as the queue uses it. LevelDB is a library outside the repository,
  so its operations are the fields of a record that every definition of the queue takes as an
  argument; the predicates below state what LevelDB documents about them. The last section is a
  small in-memory store with scripted write faults that satisfies all of them: the witnesses run on
  it.
\<close>

section \<open>The operations\<close>

text \<open>
  Keys and values are byte strings. \<open>ldb_Put\<close> and \<open>ldb_Write\<close> return whether the status was ok and the
  database afterwards; a \<^verbatim>\<open>WriteBatch\<close> is the list of keys it deletes, the only update the sources
  put in one. \<open>ldb_Get\<close> is \<open>None\<close> when the status is not ok. An iterator is the key it stands on,
  \<open>None\<close> when it is not \<^verbatim>\<open>Valid()\<close>.
\<close>

type_synonym slice = string

record 'db leveldb =
  ldb_Put :: "bool \<Rightarrow> slice \<Rightarrow> string \<Rightarrow> 'db \<Rightarrow> bool \<times> 'db"
  ldb_Get :: "slice \<Rightarrow> 'db \<Rightarrow> string option"
  ldb_Write :: "slice list \<Rightarrow> 'db \<Rightarrow> bool \<times> 'db"
  ldb_Seek :: "slice \<Rightarrow> 'db \<Rightarrow> slice option"
  ldb_SeekToLast :: "'db \<Rightarrow> slice option"
  ldb_Prev :: "slice \<Rightarrow> 'db \<Rightarrow> slice option"
  ldb_CompactRange :: "slice \<Rightarrow> slice \<Rightarrow> 'db \<Rightarrow> 'db"

definition stored :: "'db leveldb \<Rightarrow> 'db \<Rightarrow> slice set" where
  "stored L db = {k. ldb_Get L k db \<noteq> None}"

section \<open>What LevelDB documents\<close>

text \<open>A \<^verbatim>\<open>Put\<close> with an ok status is read back; it touches no other key.\<close>

definition put_reads_back :: "'db leveldb \<Rightarrow> bool" where
  "put_reads_back L \<longleftrightarrow> (\<forall>sync k v db db'. ldb_Put L sync k v db = (True, db') \<longrightarrow>
     (\<forall>k'. ldb_Get L k' db' = (if k' = k then Some v else ldb_Get L k' db)))"

text \<open>A batch with an ok status is applied as a whole.\<close>

definition batch_deletes :: "'db leveldb \<Rightarrow> bool" where
  "batch_deletes L \<longleftrightarrow> (\<forall>ks db db'. ldb_Write L ks db = (True, db') \<longrightarrow>
     (\<forall>k'. ldb_Get L k' db' = (if k' \<in> set ks then None else ldb_Get L k' db)))"

text \<open>Compaction drops overwritten and deleted data only.\<close>

definition compact_keeps :: "'db leveldb \<Rightarrow> bool" where
  "compact_keeps L \<longleftrightarrow> (\<forall>a b db k. ldb_Get L k (ldb_CompactRange L a b db) = ldb_Get L k db)"

text \<open>
  Iterators run in the order \<open>le\<close> of the comparator the database was opened with, which is a total
  order on the keys \<open>S\<close> that the database holds.
\<close>

definition seek_at :: "(slice \<Rightarrow> slice \<Rightarrow> bool) \<Rightarrow> slice set \<Rightarrow> slice \<Rightarrow> slice option \<Rightarrow> bool" where
  "seek_at le ks k r \<longleftrightarrow> (case r of
     None \<Rightarrow> \<forall>k' \<in> ks. \<not> le k k'
   | Some k' \<Rightarrow> k' \<in> ks \<and> le k k' \<and> (\<forall>k'' \<in> ks. le k k'' \<longrightarrow> le k' k''))"

definition prev_at :: "(slice \<Rightarrow> slice \<Rightarrow> bool) \<Rightarrow> slice set \<Rightarrow> slice \<Rightarrow> slice option \<Rightarrow> bool" where
  "prev_at le ks k r \<longleftrightarrow> (case r of
     None \<Rightarrow> \<forall>k' \<in> ks. le k k'
   | Some k' \<Rightarrow> k' \<in> ks \<and> \<not> le k k' \<and> (\<forall>k'' \<in> ks. \<not> le k k'' \<longrightarrow> le k'' k'))"

definition last_at :: "(slice \<Rightarrow> slice \<Rightarrow> bool) \<Rightarrow> slice set \<Rightarrow> slice option \<Rightarrow> bool" where
  "last_at le ks r \<longleftrightarrow> (case r of
     None \<Rightarrow> ks = {}
   | Some k' \<Rightarrow> k' \<in> ks \<and> (\<forall>k'' \<in> ks. le k'' k'))"

definition iterates_in :: "(slice \<Rightarrow> bool) \<Rightarrow> (slice \<Rightarrow> slice \<Rightarrow> bool) \<Rightarrow> 'db leveldb \<Rightarrow> bool" where
  "iterates_in S le L \<longleftrightarrow> (\<forall>db. stored L db \<subseteq> Collect S \<longrightarrow>
     (\<forall>k. S k \<longrightarrow> seek_at le (stored L db) k (ldb_Seek L k db) \<and>
                 prev_at le (stored L db) k (ldb_Prev L k db)) \<and>
     last_at le (stored L db) (ldb_SeekToLast L db))"

definition leveldb_contract :: "(slice \<Rightarrow> bool) \<Rightarrow> (slice \<Rightarrow> slice \<Rightarrow> bool) \<Rightarrow> 'db leveldb \<Rightarrow> bool" where
  "leveldb_contract S le L \<longleftrightarrow>
     put_reads_back L \<and> batch_deletes L \<and> compact_keeps L \<and> iterates_in S le L"

text \<open>
  A further hypothesis, named where a property needs it: a write whose status is not ok is not
  visible to later reads.
\<close>

definition failed_write_invisible :: "'db leveldb \<Rightarrow> bool" where
  "failed_write_invisible L \<longleftrightarrow>
     (\<forall>sync k v db db' k'. ldb_Put L sync k v db = (False, db') \<longrightarrow> ldb_Get L k' db' = ldb_Get L k' db) \<and>
     (\<forall>ks db db' k'. ldb_Write L ks db = (False, db') \<longrightarrow> ldb_Get L k' db' = ldb_Get L k' db)"

lemma put_reads_backD:
  "put_reads_back L \<Longrightarrow> ldb_Put L sync k v db = (True, db') \<Longrightarrow>
     ldb_Get L k' db' = (if k' = k then Some v else ldb_Get L k' db)"
  unfolding put_reads_back_def by blast

lemma batch_deletesD:
  "batch_deletes L \<Longrightarrow> ldb_Write L ks db = (True, db') \<Longrightarrow>
     ldb_Get L k' db' = (if k' \<in> set ks then None else ldb_Get L k' db)"
  unfolding batch_deletes_def by blast

lemma compact_keepsD [journal_simps]:
  "compact_keeps L \<Longrightarrow> ldb_Get L k (ldb_CompactRange L a b db) = ldb_Get L k db"
  unfolding compact_keeps_def by blast

lemma leveldb_contractD:
  "leveldb_contract S le L \<Longrightarrow> put_reads_back L \<and> batch_deletes L \<and> compact_keeps L \<and> iterates_in S le L"
  by (simp add: leveldb_contract_def)

section \<open>The obligation on the comparator\<close>

text \<open>What LevelDB asks of a comparator: a total order on the keys it is given.\<close>

locale key_order =
  fixes S :: "slice \<Rightarrow> bool"
    and le :: "slice \<Rightarrow> slice \<Rightarrow> bool"
  assumes le_refl: "S a \<Longrightarrow> le a a"
    and le_antisym: "S a \<Longrightarrow> S b \<Longrightarrow> le a b \<Longrightarrow> le b a \<Longrightarrow> a = b"
    and le_trans: "S a \<Longrightarrow> S b \<Longrightarrow> S c \<Longrightarrow> le a b \<Longrightarrow> le b c \<Longrightarrow> le a c"
    and le_total: "S a \<Longrightarrow> S b \<Longrightarrow> le a b \<or> le b a"
begin

lemma seek_at_unique:
  assumes "ks \<subseteq> Collect S" "seek_at le ks k r"
    and "k' \<in> ks" "le k k'" "\<And>k''. k'' \<in> ks \<Longrightarrow> le k k'' \<Longrightarrow> le k' k''"
  shows "r = Some k'"
  using assms by (auto simp: seek_at_def subset_iff split: option.splits intro!: le_antisym)

lemma prev_at_unique:
  assumes "ks \<subseteq> Collect S" "prev_at le ks k r"
    and "k' \<in> ks" "\<not> le k k'" "\<And>k''. k'' \<in> ks \<Longrightarrow> \<not> le k k'' \<Longrightarrow> le k'' k'"
  shows "r = Some k'"
  using assms by (auto simp: prev_at_def subset_iff split: option.splits intro!: le_antisym)

lemma last_at_unique:
  assumes "ks \<subseteq> Collect S" "last_at le ks r"
    and "k' \<in> ks" "\<And>k''. k'' \<in> ks \<Longrightarrow> le k'' k'"
  shows "r = Some k'"
  using assms by (auto simp: last_at_def subset_iff split: option.splits intro!: le_antisym)

end

section \<open>A store in memory\<close>

text \<open>
  An association list with one entry per key and a script of write faults: each \<^verbatim>\<open>Put\<close> or \<^verbatim>\<open>Write\<close> takes
  the next entry of the script and fails, leaving the entries alone, if it is true.
\<close>

record mem_db =
  mdb_entries :: "(slice \<times> string) list"
  mdb_faults :: "bool list"

definition mem_empty :: "bool list \<Rightarrow> mem_db" where
  "mem_empty faults = \<lparr>mdb_entries = [], mdb_faults = faults\<rparr>"

fun least_key :: "(slice \<Rightarrow> slice \<Rightarrow> bool) \<Rightarrow> slice list \<Rightarrow> slice option" where
  "least_key le [] = None"
| "least_key le (k # ks) = (case least_key le ks of
     None \<Rightarrow> Some k
   | Some m \<Rightarrow> Some (if le k m then k else m))"

definition mem_update :: "((slice \<times> string) list \<Rightarrow> (slice \<times> string) list) \<Rightarrow> mem_db \<Rightarrow> bool \<times> mem_db" where
  "mem_update f db = (case mdb_faults db of
     [] \<Rightarrow> (True, db\<lparr>mdb_entries := f (mdb_entries db)\<rparr>)
   | True # fs \<Rightarrow> (False, db\<lparr>mdb_faults := fs\<rparr>)
   | False # fs \<Rightarrow> (True, db\<lparr>mdb_entries := f (mdb_entries db), mdb_faults := fs\<rparr>))"

definition mem_leveldb :: "(slice \<Rightarrow> slice \<Rightarrow> bool) \<Rightarrow> mem_db leveldb" where
  "mem_leveldb le = \<lparr>
     ldb_Put = (\<lambda>sync k v. mem_update (\<lambda>es. (k, v) # filter (\<lambda>e. fst e \<noteq> k) es)),
     ldb_Get = (\<lambda>k db. map_of (mdb_entries db) k),
     ldb_Write = (\<lambda>ks. mem_update (filter (\<lambda>e. fst e \<notin> set ks))),
     ldb_Seek = (\<lambda>k db. least_key le (filter (le k) (map fst (mdb_entries db)))),
     ldb_SeekToLast = (\<lambda>db. least_key (\<lambda>a b. le b a) (map fst (mdb_entries db))),
     ldb_Prev = (\<lambda>k db. least_key (\<lambda>a b. le b a) (filter (\<lambda>k'. \<not> le k k') (map fst (mdb_entries db)))),
     ldb_CompactRange = (\<lambda>a b db. db)\<rparr>"

lemma least_key_None [simp]: "least_key le ks = None \<longleftrightarrow> ks = []"
  by (cases ks) (auto split: option.splits)

lemma least_key_in: "least_key le ks = Some m \<Longrightarrow> m \<in> set ks"
  by (induction ks arbitrary: m) (auto split: option.splits if_splits)

lemma least_key_least:
  assumes total: "\<And>a b. A a \<Longrightarrow> A b \<Longrightarrow> le a b \<or> le b a"
    and trans: "\<And>a b c. A a \<Longrightarrow> A b \<Longrightarrow> A c \<Longrightarrow> le a b \<Longrightarrow> le b c \<Longrightarrow> le a c"
  shows "list_all A ks \<Longrightarrow> least_key le ks = Some m \<Longrightarrow> k \<in> set ks \<Longrightarrow> le m k"
proof (induction ks arbitrary: m)
  case Nil
  then show ?case by simp
next
  case (Cons x xs)
  have A: "A x" "list_all A xs" using Cons.prems(1) by simp_all
  show ?case
  proof (cases "least_key le xs")
    case None
    with Cons.prems total [OF A(1) A(1)] show ?thesis by auto
  next
    case (Some m')
    have "m' \<in> set xs" using Some by (rule least_key_in)
    then have Am: "A m'" using A(2) by (simp add: list_all_iff)
    have below: "k = x \<or> le m' k \<and> A k"
      using Cons.IH [OF A(2) Some] Cons.prems(3) A(2) by (auto simp: list_all_iff)
    have m: "m = (if le x m' then x else m')" using Some Cons.prems(2) by simp
    show ?thesis
    proof (cases "le x m'")
      case True
      with below m show ?thesis
        using total [OF A(1) A(1)] trans [OF A(1) Am _ True] by auto
    next
      case False
      with below m show ?thesis using total [OF A(1) Am] by auto
    qed
  qed
qed

lemma mem_get [simp]: "ldb_Get (mem_leveldb le) k db = map_of (mdb_entries db) k"
  by (simp add: mem_leveldb_def)

lemma stored_mem: "stored (mem_leveldb le) db = fst ` set (mdb_entries db)"
  by (simp add: stored_def map_of_eq_None_iff)

lemma stored_mem_empty [simp]: "stored (mem_leveldb le) (mem_empty faults) = {}"
  by (simp add: stored_mem mem_empty_def)

lemma map_of_filter_key: "map_of (filter (\<lambda>e. P (fst e)) es) = (\<lambda>k. if P k then map_of es k else None)"
  by (rule ext, induction es) auto

lemmas map_of_filter_keys = map_of_filter_key [of "\<lambda>k'. k' \<noteq> k" for k] map_of_filter_key [of "\<lambda>k'. k' \<notin> A" for A]

lemma mem_writes_contract:
  "put_reads_back (mem_leveldb le)" "batch_deletes (mem_leveldb le)" "compact_keeps (mem_leveldb le)"
  by (auto simp: put_reads_back_def batch_deletes_def compact_keeps_def mem_leveldb_def mem_update_def
      map_of_filter_keys split: list.splits bool.splits)

lemma mem_failed_write_invisible: "failed_write_invisible (mem_leveldb le)"
  by (auto simp: failed_write_invisible_def mem_leveldb_def mem_update_def split: list.splits bool.splits)

context key_order
begin

lemma least_key_filter:
  assumes "set ks \<subseteq> Collect S" "least_key le (filter P ks) = Some m"
  shows "m \<in> set ks \<and> P m \<and> (\<forall>k \<in> set ks. P k \<longrightarrow> le m k)"
proof -
  have "list_all S (filter P ks)" using assms(1) by (auto simp: list_all_iff)
  then have "le m k" if "k \<in> set (filter P ks)" for k
    using that assms(2) by (rule_tac least_key_least [of S le]) (auto dest: le_total intro: le_trans)
  with least_key_in [OF assms(2)] show ?thesis by simp
qed

lemma greatest_key_filter:
  assumes "set ks \<subseteq> Collect S" "least_key (\<lambda>a b. le b a) (filter P ks) = Some m"
  shows "m \<in> set ks \<and> P m \<and> (\<forall>k \<in> set ks. P k \<longrightarrow> le k m)"
proof -
  have "list_all S (filter P ks)" using assms(1) by (auto simp: list_all_iff)
  then have "le k m" if "k \<in> set (filter P ks)" for k
    using that assms(2)
    by (rule_tac least_key_least [of S "\<lambda>a b. le b a"]) (auto dest: le_total intro: le_trans)
  with least_key_in [OF assms(2)] show ?thesis by simp
qed

lemma mem_iterates_in: "iterates_in S le (mem_leveldb le)"
proof -
  have "seek_at le (stored (mem_leveldb le) db) k (ldb_Seek (mem_leveldb le) k db)"
    and "prev_at le (stored (mem_leveldb le) db) k (ldb_Prev (mem_leveldb le) k db)"
    and "last_at le (stored (mem_leveldb le) db) (ldb_SeekToLast (mem_leveldb le) db)"
    if "stored (mem_leveldb le) db \<subseteq> Collect S" for db k
  proof -
    let ?ks = "map fst (mdb_entries db)"
    have S: "set ?ks \<subseteq> Collect S" using that by (simp add: stored_mem)
    have seek: "ldb_Seek (mem_leveldb le) k db = least_key le (filter (le k) ?ks)"
      and prev: "ldb_Prev (mem_leveldb le) k db = least_key (\<lambda>a b. le b a) (filter (\<lambda>k'. \<not> le k k') ?ks)"
      and last: "ldb_SeekToLast (mem_leveldb le) db = least_key (\<lambda>a b. le b a) (filter (\<lambda>_. True) ?ks)"
      by (simp_all add: mem_leveldb_def)
    show "seek_at le (stored (mem_leveldb le) db) k (ldb_Seek (mem_leveldb le) k db)"
    proof (cases "least_key le (filter (le k) ?ks)")
      case None
      then show ?thesis by (simp add: seek seek_at_def stored_mem filter_empty_conv)
    next
      case (Some m)
      with least_key_filter [OF S Some] show ?thesis by (simp add: seek seek_at_def stored_mem)
    qed
    show "prev_at le (stored (mem_leveldb le) db) k (ldb_Prev (mem_leveldb le) k db)"
    proof (cases "least_key (\<lambda>a b. le b a) (filter (\<lambda>k'. \<not> le k k') ?ks)")
      case None
      then show ?thesis by (simp add: prev prev_at_def stored_mem filter_empty_conv)
    next
      case (Some m)
      with greatest_key_filter [OF S Some] show ?thesis by (simp add: prev prev_at_def stored_mem)
    qed
    show "last_at le (stored (mem_leveldb le) db) (ldb_SeekToLast (mem_leveldb le) db)"
    proof (cases "least_key (\<lambda>a b. le b a) (filter (\<lambda>_. True) ?ks)")
      case None
      then show ?thesis by (simp add: last last_at_def stored_mem)
    next
      case (Some m)
      with greatest_key_filter [OF S Some] show ?thesis by (simp add: last last_at_def stored_mem)
    qed
  qed
  then show ?thesis by (simp add: iterates_in_def)
qed

lemma mem_leveldb_contract: "leveldb_contract S le (mem_leveldb le)"
  by (simp add: leveldb_contract_def mem_writes_contract mem_iterates_in)

end

end
