(* ===== verification/Keys.thy ===== *)
theory Keys
  imports Leveldb
begin

text \<open>
  The byte formats of the journal (\<^verbatim>\<open>queue::key_type\<close>, \<^verbatim>\<open>queue::comparator\<close> and \<^verbatim>\<open>queue::header_type\<close> in
  \<^verbatim>\<open>queue.h\<close>, their \<^verbatim>\<open>slice\<close> and \<^verbatim>\<open>str\<close> in \<^verbatim>\<open>queue.cpp\<close>): keys order by kind and then by number, and the
  keys and headers that are written read back.
\<close>

section \<open>Keys\<close>

text \<open>\<^verbatim>\<open>enum { KT_QUEUE = 1, KT_CHUNK = 2 }\<close>\<close>

definition KT_QUEUE :: byte where
  "KT_QUEUE = 1"

definition KT_CHUNK :: byte where
  "KT_CHUNK = 2"

lemma KT_distinct [simp]: "KT_QUEUE \<noteq> KT_CHUNK" "KT_CHUNK \<noteq> KT_QUEUE" "KT_QUEUE < KT_CHUNK"
  by (simp_all add: KT_QUEUE_def KT_CHUNK_def)

text \<open>The class \<^verbatim>\<open>key_type\<close>: an \<^verbatim>\<open>unsigned char type\<close> and an \<^verbatim>\<open>id_type id\<close>.\<close>

datatype key_type = Key (key_kind: byte) (key_id: u64)

fun key_compare :: "key_type \<Rightarrow> key_type \<Rightarrow> int" where
  "key_compare (Key t i) (Key t' i') =
     (if t < t' then - 1 else if t > t' then 1 else if i < i' then - 1 else if i > i' then 1 else 0)"

text \<open>\<^verbatim>\<open>slice()\<close> writes the number in native byte order and the kind after it.\<close>

definition key_slice :: "key_type \<Rightarrow> slice" where
  "key_slice k = u64_bytes (key_id k) @ [char_of (unat (key_kind k))]"

text \<open>\<^verbatim>\<open>key_type(const Slice&)\<close> reads nine bytes without looking at the slice's size.\<close>

definition key_of_slice :: "slice \<Rightarrow> key_type option" where
  "key_of_slice s = (if length s < 9 then None else Some (Key (of_char (s ! 8)) (u64_of_bytes (take 8 s))))"

lemma of_char_char_of_byte: "of_char (char_of (unat t)) = t" for t :: byte
proof -
  have "unat t < 256" using unsigned_less [of t, where ?'a = nat] by simp
  then have "of_char (char_of (unat t)) = (of_nat (unat t) :: byte)"
    by (metis of_char_of of_nat_of_char mod_less)
  then show ?thesis by simp
qed

lemma char_of_of_char_byte: "char_of (unat (of_char c :: byte)) = c"
proof -
  have "(of_char c :: nat) < 2 ^ LENGTH(8)" by simp
  then have "unat (word_of_nat (of_char c) :: byte) = of_char c"
    by (simp only: unat_of_nat mod_less)
  then have "unat (of_char c :: byte) = of_char c" by (metis of_nat_of_char)
  then show ?thesis by (simp add: char_of_nat)
qed

lemma length_key_slice [simp]: "length (key_slice k) = 9"
  by (simp add: key_slice_def)

lemma key_of_slice_prefix: "key_of_slice (key_slice k @ r) = Some k"
  by (cases k) (simp add: key_of_slice_def key_slice_def nth_append of_char_char_of_byte)

interpretation key: prefix_codec key_slice key_of_slice 9
  by unfold_locales (simp_all add: key_of_slice_prefix)

lemma key_of_slice_key_slice [simp, codec_simps]: "key_of_slice (key_slice k) = Some k"
  using key.dec_enc by simp

lemma key_slice_eq [simp]: "key_slice k = key_slice k' \<longleftrightarrow> k = k'"
  using key.enc_inj by simp

text \<open>The slices of the journal: nine bytes. Each is the slice of exactly one key.\<close>

definition is_key_slice :: "slice \<Rightarrow> bool" where
  "is_key_slice s \<longleftrightarrow> length s = 9"

lemma is_key_slice_key_slice [simp]: "is_key_slice (key_slice k)"
  by (simp add: is_key_slice_def)

lemma is_key_sliceE:
  assumes "is_key_slice s"
  obtains k where "s = key_slice k"
proof
  have "length s = 9" using assms by (simp add: is_key_slice_def)
  then have "key_slice (Key (of_char (s ! 8)) (u64_of_bytes (take 8 s))) = take 8 s @ [s ! 8]"
    by (simp add: key_slice_def char_of_of_char_byte)
  also have "\<dots> = s"
    using \<open>length s = 9\<close> take_Suc_conv_app_nth [of 8 s] by simp
  finally show "s = key_slice (Key (of_char (s ! 8)) (u64_of_bytes (take 8 s)))" by simp
qed

section \<open>The comparator\<close>

instantiation key_type :: linorder
begin

definition less_eq_key_type :: "key_type \<Rightarrow> key_type \<Rightarrow> bool" where
  "less_eq_key_type a b \<longleftrightarrow> key_compare a b \<le> 0"

definition less_key_type :: "key_type \<Rightarrow> key_type \<Rightarrow> bool" where
  "less_key_type a b \<longleftrightarrow> key_compare a b < 0"

instance
proof
  fix a b c :: key_type
  show "a < b \<longleftrightarrow> a \<le> b \<and> \<not> b \<le> a"
    by (cases a; cases b) (auto simp: less_eq_key_type_def less_key_type_def)
  show "a \<le> a"
    by (cases a) (auto simp: less_eq_key_type_def)
  show "a \<le> b \<Longrightarrow> b \<le> c \<Longrightarrow> a \<le> c"
    by (cases a; cases b; cases c) (auto simp: less_eq_key_type_def split: if_splits)
  show "a \<le> b \<Longrightarrow> b \<le> a \<Longrightarrow> a = b"
    by (cases a; cases b) (auto simp: less_eq_key_type_def split: if_splits)
  show "a \<le> b \<or> b \<le> a"
    by (cases a; cases b) (auto simp: less_eq_key_type_def split: if_splits)
qed

end

lemma Key_le [simp]: "Key t i \<le> Key t' i' \<longleftrightarrow> t < t' \<or> t = t' \<and> i \<le> i'"
  by (auto simp: less_eq_key_type_def)

lemma Key_less [simp]: "Key t i < Key t' i' \<longleftrightarrow> t < t' \<or> t = t' \<and> i < i'"
  by (auto simp: less_key_type_def)

text \<open>\<^verbatim>\<open>comparator::Compare\<close>; \<open>None\<close> where \<^verbatim>\<open>key_type(a)\<close> or \<^verbatim>\<open>key_type(b)\<close> reads past its slice.\<close>

definition comparator_Compare :: "slice \<Rightarrow> slice \<Rightarrow> int option" where
  "comparator_Compare a b = (case (key_of_slice a, key_of_slice b) of
     (Some x, Some y) \<Rightarrow> Some (key_compare x y)
   | _ \<Rightarrow> None)"

definition slice_le :: "slice \<Rightarrow> slice \<Rightarrow> bool" where
  "slice_le a b \<longleftrightarrow> (case comparator_Compare a b of Some c \<Rightarrow> c \<le> 0 | None \<Rightarrow> False)"

lemma slice_le_key_slice [simp]: "slice_le (key_slice x) (key_slice y) \<longleftrightarrow> x \<le> y"
  by (simp add: slice_le_def comparator_Compare_def less_eq_key_type_def)

text \<open>The comparator meets LevelDB's obligation on the slices the queue writes.\<close>

interpretation cmp: key_order is_key_slice slice_le
  by unfold_locales (auto elim!: is_key_sliceE)

abbreviation journal_contract :: "'db leveldb \<Rightarrow> bool" where
  "journal_contract L \<equiv> leveldb_contract is_key_slice slice_le L"

abbreviation mem_journal :: "mem_db leveldb" where
  "mem_journal \<equiv> mem_leveldb slice_le"

lemma mem_journal_contract [simp]: "journal_contract mem_journal"
  by (rule cmp.mem_leveldb_contract)

section \<open>Headers\<close>

text \<open>\<^verbatim>\<open>header_type\<close>: the chunks \<open>[beg, end)\<close> of an item and its size in bytes.\<close>

record header_type =
  h_beg :: u64
  h_end :: u64
  h_size :: u64

definition header_default :: header_type where
  "header_default = \<lparr>h_beg = 0, h_end = 1, h_size = 0\<rparr>"

lemma header_default_simps [simp]:
  "h_beg header_default = 0" "h_end header_default = 1" "h_size header_default = 0"
  by (simp_all add: header_default_def)

text \<open>\<^verbatim>\<open>str\<close>: the 24 bytes of the struct, then \<^verbatim>\<open>'\1'\<close> and \<^verbatim>\<open>'\0'\<close>.\<close>

definition header_raw :: "header_type \<Rightarrow> string" where
  "header_raw h = u64_bytes (h_beg h) @ u64_bytes (h_end h) @ u64_bytes (h_size h)"

definition header_str :: "header_type \<Rightarrow> string" where
  "header_str h = header_raw h @ [CHR 0x01] @ [CHR 0x00]"

text \<open>
  \<^verbatim>\<open>header_type(const string& buf)\<close> reads 24 bytes at \<^verbatim>\<open>buf.c_str()\<close>, an array of the string's bytes and
  a terminating zero.
\<close>

definition header_of_string :: "string \<Rightarrow> header_type option" where
  "header_of_string buf = (let s = buf @ [CHR 0x00] in
     if length s < 24 then None
     else Some \<lparr>h_beg = u64_of_bytes (take 8 s), h_end = u64_of_bytes (take 8 (drop 8 s)),
                h_size = u64_of_bytes (take 8 (drop 16 s))\<rparr>)"

lemma length_header_raw [simp]: "length (header_raw h) = 24"
  by (simp add: header_raw_def)

lemma header_of_string_prefix: "header_of_string (header_raw h @ r) = Some h"
  by (simp add: header_of_string_def header_raw_def Let_def)

interpretation header: prefix_codec header_raw header_of_string 24
  by unfold_locales (simp_all add: header_of_string_prefix)

lemma header_of_string_str [simp, codec_simps]: "header_of_string (header_str h) = Some h"
  using header.dec_prefix by (simp add: header_str_def)

lemma length_header_str [simp]: "length (header_str h) = 26"
  by (simp add: header_str_def)

end
