(* ===== verification/Queue.thy ===== *)
theory Queue
  imports Keys
begin

text \<open>
  The class \<^verbatim>\<open>queue\<close> (\<^verbatim>\<open>queue.h\<close>, \<^verbatim>\<open>queue.cpp\<close>): a first-in first-out queue over a LevelDB journal with
  two-phase pops, multi-chunk items and a list of waiters. One definition per method; the first
  argument \<open>L\<close> of the methods that reach the journal is LevelDB. Output parameters and thrown errors
  are part of the result. Progress messages are not modelled.
\<close>

section \<open>State\<close>

text \<open>
  A \<^verbatim>\<open>waiter\<close> is a node of \<^verbatim>\<open>waiters_\<close>, a linked list whose iterators stay valid while other nodes come
  and go: \<open>w_node\<close> identifies the node and an iterator is a node, \<open>None\<close> for \<^verbatim>\<open>end()\<close>. The deadline timer is its
  delay and whether \<^verbatim>\<open>cancel()\<close> was called on it. The callback is a value of type \<open>'cb\<close>.
\<close>

record 'cb waiter =
  w_node :: nat
  w_ms :: u64
  w_cb :: 'cb
  w_cancelled :: bool

record ('db, 'cb) queue =
  journal :: 'db
  queue_head :: key_type
  queue_tail :: key_type
  chunks_head :: key_type
  items_open :: u64
  bytes_evicted :: u64
  returned :: "u64 list"
  destroy_flag :: bool
  waiters :: "'cb waiter list"
  wake_up_it :: "nat option"
  next_node :: nat
  path :: string

text \<open>\<^verbatim>\<open>++k.id\<close> and friends.\<close>

definition with_id :: "key_type \<Rightarrow> u64 \<Rightarrow> key_type" where
  "with_id k i = Key (key_kind k) i"

lemma with_id_sel [simp]: "key_kind (with_id k i) = key_kind k" "key_id (with_id k i) = i"
  by (simp_all add: with_id_def)

section \<open>LevelDB sugar\<close>

definition queue_put :: "'db leveldb \<Rightarrow> key_type \<Rightarrow> string \<Rightarrow> bool \<Rightarrow> ('db, 'cb) queue \<Rightarrow> (('db, 'cb) queue, unit) outcome" where
  "queue_put L k v sync q = (case ldb_Put L sync (key_slice k) v (journal q) of
     (ok, db) \<Rightarrow> (if ok then Inr () else Inl Io_error, q\<lparr>journal := db\<rparr>))"

definition queue_get :: "'db leveldb \<Rightarrow> key_type \<Rightarrow> ('db, 'cb) queue \<Rightarrow> error + string" where
  "queue_get L k q = (case ldb_Get L (key_slice k) (journal q) of
     None \<Rightarrow> Inl Io_error
   | Some v \<Rightarrow> Inr v)"

definition queue_write :: "'db leveldb \<Rightarrow> slice list \<Rightarrow> ('db, 'cb) queue \<Rightarrow> (('db, 'cb) queue, unit) outcome" where
  "queue_write L batch q = (case ldb_Write L batch (journal q) of
     (ok, db) \<Rightarrow> (if ok then Inr () else Inl Io_error, q\<lparr>journal := db\<rparr>))"

section \<open>Waiters\<close>

text \<open>\<^verbatim>\<open>++it\<close> on an iterator of the list.\<close>

fun node_after :: "nat \<Rightarrow> 'cb waiter list \<Rightarrow> nat option" where
  "node_after n [] = None"
| "node_after n (w # ws) = (if w_node w = n then (case ws of [] \<Rightarrow> None | w' # _ \<Rightarrow> Some (w_node w')) else node_after n ws)"

definition cancel_timer :: "nat \<Rightarrow> 'cb waiter list \<Rightarrow> 'cb waiter list" where
  "cancel_timer n ws = map (\<lambda>w. if w_node w = n then w\<lparr>w_cancelled := True\<rparr> else w) ws"

definition wait :: "u64 \<Rightarrow> 'cb \<Rightarrow> ('db, 'cb) queue \<Rightarrow> ('db, 'cb) queue" where
  "wait wait_ms cb q = (let it = next_node q in
     q\<lparr>waiters := waiters q @ [\<lparr>w_node = it, w_ms = wait_ms, w_cb = cb, w_cancelled = False\<rparr>],
       wake_up_it := (case wake_up_it q of None \<Rightarrow> Some it | Some n \<Rightarrow> Some n),
       next_node := Suc it\<rparr>)"

definition wake_up :: "('db, 'cb) queue \<Rightarrow> ('db, 'cb) queue" where
  "wake_up q = (case wake_up_it q of
     None \<Rightarrow> q
   | Some n \<Rightarrow> q\<lparr>waiters := cancel_timer n (waiters q), wake_up_it := node_after n (waiters q)\<rparr>)"

text \<open>
  The completion of a waiter's timer, run by the event loop once per waiter; the code ignores
  whether the timer ran out or was cancelled. The result is the callback and what it is called with.
\<close>

datatype wait_result = Wait_ok | Wait_timed_out

definition waiter_wakeup :: "nat \<Rightarrow> ('db, 'cb) queue \<Rightarrow> (('db, 'cb) queue, 'cb \<times> wait_result) outcome" where
  "waiter_wakeup it q = (case find (\<lambda>w. w_node w = it) (waiters q) of
     None \<Rightarrow> (Inl Undefined, q)
   | Some w \<Rightarrow>
       let q1 = (if wake_up_it q = Some it then q\<lparr>wake_up_it := node_after it (waiters q)\<rparr> else q);
           q2 = q1\<lparr>waiters := filter (\<lambda>w'. w_node w' \<noteq> it) (waiters q1)\<rparr>
       in (Inr (w_cb w, if returned q2 \<noteq> [] \<or> key_id (queue_tail q2) < key_id (queue_head q2)
                        then Wait_ok else Wait_timed_out), q2))"

section \<open>Counting and statistics\<close>

definition queue_count :: "('db, 'cb) queue \<Rightarrow> u64" where
  "queue_count q = (key_id (queue_head q) - key_id (queue_tail q)) + word_of_nat (length (returned q))"

definition crlf :: string where
  "crlf = [CHR 0x0D, CHR 0x0A]"

definition queue_write_stats :: "string \<Rightarrow> ('db, 'cb) queue \<Rightarrow> string" where
  "queue_write_stats name q =
     ''STAT queue_'' @ name @ ''_items '' @ decimal (unat (queue_count q)) @ crlf @
     ''STAT queue_'' @ name @ ''_waiters '' @ decimal (length (waiters q)) @ crlf @
     ''STAT queue_'' @ name @ ''_open_transactions '' @ decimal (unat (items_open q)) @ crlf"

section \<open>Pushing\<close>

text \<open>
  \<^verbatim>\<open>push(id, item, sync)\<close>: an item that ends in a zero byte is written with one more. The last character of
  an empty item is read before its first one.
\<close>

definition push_item :: "'db leveldb \<Rightarrow> string \<Rightarrow> bool \<Rightarrow> ('db, 'cb) queue \<Rightarrow> (('db, 'cb) queue, u64) outcome" where
  "push_item L item sync q =
     (if item = [] then (Inl Undefined, q)
      else case (if last item = CHR 0x00 then queue_put L (queue_head q) (item @ [CHR 0x00]) sync q
                 else queue_put L (queue_head q) item sync q) of
        (Inl e, q1) \<Rightarrow> (Inl e, q1)
      | (Inr _, q1) \<Rightarrow>
          (Inr (key_id (queue_head q1)),
           wake_up (q1\<lparr>queue_head := with_id (queue_head q1) (key_id (queue_head q1) + 1)\<rparr>)))"

text \<open>\<^verbatim>\<open>push(id, header, sync)\<close>: the key goes through its slice and back.\<close>

definition push_header :: "'db leveldb \<Rightarrow> header_type \<Rightarrow> bool \<Rightarrow> ('db, 'cb) queue \<Rightarrow> (('db, 'cb) queue, u64) outcome" where
  "push_header L h sync q = (case key_of_slice (key_slice (queue_head q)) of
     None \<Rightarrow> (Inl Undefined, q)
   | Some k \<Rightarrow> (case queue_put L k (header_str h) sync q of
        (Inl e, q1) \<Rightarrow> (Inl e, q1)
      | (Inr _, q1) \<Rightarrow>
          (Inr (key_id (queue_head q1)),
           wake_up (q1\<lparr>queue_head := with_id (queue_head q1) (key_id (queue_head q1) + 1)\<rparr>))))"

section \<open>Popping\<close>

definition pop_begin :: "('db, 'cb) queue \<Rightarrow> u64 option \<times> ('db, 'cb) queue" where
  "pop_begin q = (case returned q of
     r # rs \<Rightarrow> (Some r, q\<lparr>returned := rs, items_open := items_open q + 1\<rparr>)
   | [] \<Rightarrow>
       if key_id (queue_tail q) \<noteq> key_id (queue_head q)
       then (Some (key_id (queue_tail q)),
             q\<lparr>queue_tail := with_id (queue_tail q) (key_id (queue_tail q) + 1), items_open := items_open q + 1\<rparr>)
       else (None, q))"

text \<open>
  \<^verbatim>\<open>pop_read(result_item, result_header, id)\<close>: the state of the outcome is the two output parameters,
  \<open>out\<close> what they hold before the call.
\<close>

definition pop_read :: "'db leveldb \<Rightarrow> u64 \<Rightarrow> ('db, 'cb) queue \<Rightarrow> string \<times> header_type \<Rightarrow> (string \<times> header_type, unit) outcome" where
  "pop_read L i q out = (case queue_get L (Key KT_QUEUE i) q of
     Inl e \<Rightarrow> (Inl e, out)
   | Inr v \<Rightarrow>
       if length v > 2 \<and> v ! (length v - 1) = CHR 0x00 then
         if v ! (length v - 2) = CHR 0x01 then
           (case header_of_string v of
              None \<Rightarrow> (Inl Undefined, (v, header_default))
            | Some h \<Rightarrow> (Inr (), (v, h)))
         else if v ! (length v - 2) = CHR 0x00 then (Inr (), (take (length v - 1) v, header_default))
         else (Inl Io_error, (v, header_default))
       else (Inr (), (v, header_default)))"

text \<open>\<^verbatim>\<open>compact\<close>: the iterator is a snapshot of the journal before the first range is compacted.\<close>

definition compact :: "'db leveldb \<Rightarrow> ('db, 'cb) queue \<Rightarrow> (('db, 'cb) queue, unit) outcome" where
  "compact L q =
     (let snapshot = journal q; kq_beg = Key KT_QUEUE 0; kc_beg = Key KT_CHUNK 0 in
      case ldb_Seek L (key_slice kq_beg) snapshot of
        None \<Rightarrow> (Inr (), q)
      | Some sq \<Rightarrow> (case key_of_slice sq of
          None \<Rightarrow> (Inl Undefined, q)
        | Some kq \<Rightarrow>
            let kq_end = with_id kq (key_id kq - 1);
                q1 = q\<lparr>journal := ldb_CompactRange L (key_slice kq_beg) (key_slice kq_end) (journal q)\<rparr>
            in case ldb_Seek L (key_slice kc_beg) snapshot of
                 None \<Rightarrow> (Inr (), q1)
               | Some sc \<Rightarrow> (case key_of_slice sc of
                   None \<Rightarrow> (Inl Undefined, q1)
                 | Some kc \<Rightarrow>
                     let kc_end = with_id kc (key_id kc - 1)
                     in (Inr (), q1\<lparr>journal := ldb_CompactRange L (key_slice kc_beg) (key_slice kc_end) (journal q1)\<rparr>))))"

definition chunk_slice :: "u64 \<Rightarrow> slice" where
  "chunk_slice c = key_slice (Key KT_CHUNK c)"

definition chunk_slices :: "header_type \<Rightarrow> slice list" where
  "chunk_slices h = map chunk_slice (id_range (h_beg h) (h_end h))"

lemma chunk_slices_eq: "chunk_slices h = map key_slice (map (Key KT_CHUNK) (id_range (h_beg h) (h_end h)))"
  by (simp add: chunk_slices_def chunk_slice_def)

definition pop_end :: "'db leveldb \<Rightarrow> bool \<Rightarrow> u64 \<Rightarrow> header_type \<Rightarrow> ('db, 'cb) queue \<Rightarrow> (('db, 'cb) queue, unit) outcome" where
  "pop_end L erase i h q =
     (if erase then
        (case queue_write L (key_slice (Key KT_QUEUE i) # (if h_end h > 1 then chunk_slices h else [])) q of
           (Inl e, q1) \<Rightarrow> (Inl e, q1)
         | (Inr _, q1) \<Rightarrow>
             let q2 = q1\<lparr>bytes_evicted := bytes_evicted q1 + h_size h\<rparr>
             in if bytes_evicted q2 > 33554432 then
                  (case compact L q2 of
                     (Inl e, q3) \<Rightarrow> (Inl e, q3)
                   | (Inr _, q3) \<Rightarrow> (Inr (), q3\<lparr>bytes_evicted := 0, items_open := items_open q3 - 1\<rparr>))
                else (Inr (), q2\<lparr>items_open := items_open q2 - 1\<rparr>))
      else
        let q1 = wake_up (q\<lparr>returned := insort_insert i (returned q)\<rparr>)
        in (Inr (), q1\<lparr>items_open := items_open q1 - 1\<rparr>))"

section \<open>Chunks\<close>

definition reserve_chunks :: "u64 \<Rightarrow> ('db, 'cb) queue \<Rightarrow> header_type \<times> ('db, 'cb) queue" where
  "reserve_chunks count q =
     (\<lparr>h_beg = key_id (chunks_head q), h_end = key_id (chunks_head q) + count, h_size = 0\<rparr>,
      q\<lparr>chunks_head := with_id (chunks_head q) (key_id (chunks_head q) + count)\<rparr>)"

definition write_chunk :: "'db leveldb \<Rightarrow> string \<Rightarrow> u64 \<Rightarrow> ('db, 'cb) queue \<Rightarrow> (('db, 'cb) queue, unit) outcome" where
  "write_chunk L chunk chunk_key q = queue_put L (Key KT_CHUNK chunk_key) chunk False q"

definition read_chunk :: "'db leveldb \<Rightarrow> u64 \<Rightarrow> ('db, 'cb) queue \<Rightarrow> error + string" where
  "read_chunk L chunk_key q = queue_get L (Key KT_CHUNK chunk_key) q"

definition erase_chunks :: "'db leveldb \<Rightarrow> header_type \<Rightarrow> ('db, 'cb) queue \<Rightarrow> (('db, 'cb) queue, unit) outcome" where
  "erase_chunks L h q = queue_write L (chunk_slices h) q"

section \<open>Opening\<close>

text \<open>
  The constructor, given what \<^verbatim>\<open>leveldb::DB::Open\<close> returned for the path: the head and the tail of the
  queue and the head of the chunks are recovered from the journal's keys. \<^verbatim>\<open>it->key()\<close> of an iterator that is not
  valid is undefined.
\<close>

definition queue_fresh :: "'db \<Rightarrow> string \<Rightarrow> ('db, 'cb) queue" where
  "queue_fresh db p = \<lparr>journal = db, queue_head = Key KT_QUEUE 0, queue_tail = Key KT_QUEUE 0,
     chunks_head = Key KT_CHUNK 0, items_open = 0, bytes_evicted = 0, returned = [], destroy_flag = False,
     waiters = [], wake_up_it = None, next_node = 0, path = p\<rparr>"

definition iterator_key :: "slice option \<Rightarrow> key_type option" where
  "iterator_key it = Option.bind it key_of_slice"

definition queue_ctor :: "'db leveldb \<Rightarrow> 'db option \<Rightarrow> string \<Rightarrow> error + ('db, 'cb) queue" where
  "queue_ctor L pdb p = (case pdb of
     None \<Rightarrow> Inl (Cannot_open p)
   | Some db \<Rightarrow>
       let q = queue_fresh db p;
           it = ldb_Seek L (key_slice (Key KT_QUEUE 0)) db
       in if it = None then Inr q
          else case iterator_key it of
            None \<Rightarrow> Inl Undefined
          | Some tail \<Rightarrow>
              let q1 = q\<lparr>queue_tail := tail\<rparr>;
                  it2 = ldb_Seek L (key_slice (Key KT_CHUNK 0)) db
              in case it2 of
                   None \<Rightarrow> (case iterator_key (ldb_SeekToLast L db) of
                       None \<Rightarrow> Inl Undefined
                     | Some lst \<Rightarrow> Inr (q1\<lparr>queue_head := with_id (queue_head q1) (key_id lst + 1)\<rparr>))
                 | Some c \<Rightarrow> (case (iterator_key (ldb_Prev L c db), iterator_key (ldb_SeekToLast L db)) of
                       (Some prv, Some lst) \<Rightarrow>
                         Inr (q1\<lparr>queue_head := with_id (queue_head q1) (key_id prv + 1),
                                 chunks_head := with_id (chunks_head q1) (key_id lst + 1)\<rparr>)
                     | _ \<Rightarrow> Inl Undefined))"

end
