(* ===== verification/Items.thy ===== *)
theory Items
  imports Queue
begin

text \<open>
  What the journal of a queue means: the value under a queue key is a whole item or the header of a
  chunked one, and the item with a number is the string a reader gets by following it. These
  definitions are the specification side; the lemmas connect them to \<^verbatim>\<open>push\<close> and \<^verbatim>\<open>pop_read\<close>.
\<close>

section \<open>Values under queue keys\<close>

datatype stored_value = Single string | Multi header_type | Corrupt

definition classify :: "string \<Rightarrow> stored_value" where
  "classify v =
     (if length v > 2 \<and> v ! (length v - 1) = CHR 0x00 then
        if v ! (length v - 2) = CHR 0x01 then
          (case header_of_string v of None \<Rightarrow> Corrupt | Some h \<Rightarrow> Multi h)
        else if v ! (length v - 2) = CHR 0x00 then Single (take (length v - 1) v)
        else Corrupt
      else Single v)"

text \<open>What \<^verbatim>\<open>push\<close> writes for an item, and the items for which that can be read back.\<close>

definition encode_item :: "string \<Rightarrow> string" where
  "encode_item x = (if last x = CHR 0x00 then x @ [CHR 0x00] else x)"

definition storable :: "string \<Rightarrow> bool" where
  "storable x \<longleftrightarrow> x \<noteq> [] \<and> x \<noteq> [CHR 0x00]"

lemma classify_encode_item: "storable x \<Longrightarrow> classify (encode_item x) = Single x"
proof (cases "last x = CHR 0x00")
  case True
  assume "storable x"
  with True have "length x > 1"
    by (cases x; cases "tl x") (auto simp: storable_def)
  moreover from this True have "x ! (length x - 1) = CHR 0x00"
    by (cases x) (simp_all add: last_conv_nth)
  ultimately show ?thesis
    using True by (simp add: classify_def encode_item_def nth_append)
next
  case False
  assume "storable x"
  then have "x \<noteq> []" by (simp add: storable_def)
  with False show ?thesis
    by (simp add: classify_def encode_item_def last_conv_nth)
qed

lemma classify_header_str [simp]: "classify (header_str h) = Multi h"
proof -
  have "header_str h ! 25 = CHR 0x00" and "header_str h ! 24 = CHR 0x01"
    by (simp_all add: header_str_def nth_append)
  then show ?thesis by (simp add: classify_def)
qed

text \<open>
  What a reader gets for an item: the item, but for the single zero byte, whose escaped form is too short for
  \<^verbatim>\<open>pop_read\<close> to look for an escape.
\<close>

definition as_read :: "string \<Rightarrow> string" where
  "as_read x = (if x = [CHR 0x00] then [CHR 0x00, CHR 0x00] else x)"

lemma as_read_storable [simp]: "storable x \<Longrightarrow> as_read x = x"
  by (simp add: as_read_def storable_def)

lemma classify_as_read: "x \<noteq> [] \<Longrightarrow> classify (encode_item x) = Single (as_read x)"
  by (cases "x = [CHR 0x00]")
    (simp_all add: as_read_def classify_encode_item storable_def, simp add: classify_def encode_item_def)

definition dec_single :: "string \<Rightarrow> string option" where
  "dec_single v = (case classify v of Single x \<Rightarrow> Some x | _ \<Rightarrow> None)"

definition dec_multi :: "string \<Rightarrow> header_type option" where
  "dec_multi v = (case classify v of Multi h \<Rightarrow> Some h | _ \<Rightarrow> None)"

interpretation sv: tagged_codecs encode_item dec_single storable header_str dec_multi "\<lambda>_. True"
    "\<lambda>v. dec_multi v \<noteq> None"
  by unfold_locales (simp_all add: dec_single_def dec_multi_def classify_encode_item)

text \<open>\<^verbatim>\<open>pop_read\<close> classifies the value.\<close>

lemma pop_read_classify:
  "pop_read L i q out = (case ldb_Get L (key_slice (Key KT_QUEUE i)) (journal q) of
     None \<Rightarrow> (Inl Io_error, out)
   | Some v \<Rightarrow> (case classify v of
       Single x \<Rightarrow> (Inr (), (x, header_default))
     | Multi h \<Rightarrow> (Inr (), (v, h))
     | Corrupt \<Rightarrow> (Inl (if v ! (length v - 2) = CHR 0x01 then Undefined else Io_error), (v, header_default))))"
  by (auto simp: pop_read_def queue_get_def classify_def split: option.splits)

section \<open>Items\<close>

definition get_item :: "'db leveldb \<Rightarrow> 'db \<Rightarrow> u64 \<Rightarrow> string option" where
  "get_item L db i = ldb_Get L (key_slice (Key KT_QUEUE i)) db"

definition get_chunk :: "'db leveldb \<Rightarrow> 'db \<Rightarrow> u64 \<Rightarrow> string option" where
  "get_chunk L db c = ldb_Get L (key_slice (Key KT_CHUNK c)) db"

definition chunk_ids :: "'db leveldb \<Rightarrow> 'db \<Rightarrow> u64 \<Rightarrow> u64 list" where
  "chunk_ids L db i = (case map_option classify (get_item L db i) of
     Some (Multi h) \<Rightarrow> id_range (h_beg h) (h_end h)
   | _ \<Rightarrow> [])"

definition chunks_of :: "'db leveldb \<Rightarrow> 'db \<Rightarrow> header_type \<Rightarrow> string list option" where
  "chunks_of L db h = those (map (get_chunk L db) (id_range (h_beg h) (h_end h)))"

definition item_of :: "'db leveldb \<Rightarrow> 'db \<Rightarrow> u64 \<Rightarrow> string option" where
  "item_of L db i = (case map_option classify (get_item L db i) of
     Some (Single x) \<Rightarrow> Some x
   | Some (Multi h) \<Rightarrow> map_option concat (chunks_of L db h)
   | _ \<Rightarrow> None)"

text \<open>
  A well-formed item below the chunk head \<open>hi\<close>: a header covers at least two chunks, all of them are there
  and they add up to its size.
\<close>

definition header_ok :: "'db leveldb \<Rightarrow> 'db \<Rightarrow> u64 \<Rightarrow> header_type \<Rightarrow> bool" where
  "header_ok L db hi h \<longleftrightarrow> 1 < h_end h \<and> h_beg h < h_end h \<and> h_end h \<le> hi \<and>
     (\<exists>cs. chunks_of L db h = Some cs \<and> length (concat cs) = unat (h_size h))"

definition item_ok :: "'db leveldb \<Rightarrow> 'db \<Rightarrow> u64 \<Rightarrow> u64 \<Rightarrow> bool" where
  "item_ok L db hi i \<longleftrightarrow> (case map_option classify (get_item L db i) of
     Some (Single x) \<Rightarrow> True
   | Some (Multi h) \<Rightarrow> header_ok L db hi h
   | _ \<Rightarrow> False)"

lemma item_okE:
  assumes "item_ok L db hi i"
  obtains x where "item_of L db i = Some x"
  using assms by (auto simp: item_ok_def item_of_def header_ok_def split: option.splits stored_value.splits)

lemma set_chunk_ids: "item_ok L db hi i \<Longrightarrow> c \<in> set (chunk_ids L db i) \<Longrightarrow> c < hi"
  by (auto simp: item_ok_def chunk_ids_def header_ok_def set_id_range
      split: option.splits stored_value.splits dest: less_imp_le)

text \<open>An item depends on its own key and on its chunks only.\<close>

definition same_item :: "'db leveldb \<Rightarrow> 'db \<Rightarrow> 'db \<Rightarrow> u64 \<Rightarrow> bool" where
  "same_item L db db' i \<longleftrightarrow> get_item L db' i = get_item L db i \<and>
     (\<forall>c \<in> set (chunk_ids L db i). get_chunk L db' c = get_chunk L db c)"

lemma chunks_of_cong:
  "(\<And>c. c \<in> set (id_range (h_beg h) (h_end h)) \<Longrightarrow> get_chunk L db' c = get_chunk L db c) \<Longrightarrow>
     chunks_of L db' h = chunks_of L db h"
  unfolding chunks_of_def by (metis (mono_tags, lifting) map_cong)

lemma same_item_simps:
  assumes "same_item L db db' i"
  shows "chunk_ids L db' i = chunk_ids L db i"
    and "item_of L db' i = item_of L db i"
    and "item_ok L db' hi i = item_ok L db hi i"
proof -
  have get: "get_item L db' i = get_item L db i" using assms by (simp add: same_item_def)
  show "chunk_ids L db' i = chunk_ids L db i"
    by (simp add: chunk_ids_def get)
  have "chunks_of L db' h = chunks_of L db h" if "map_option classify (get_item L db i) = Some (Multi h)" for h
    using assms that by (intro chunks_of_cong) (auto simp: same_item_def chunk_ids_def)
  then show "item_of L db' i = item_of L db i" and "item_ok L db' hi i = item_ok L db hi i"
    by (auto simp: item_of_def item_ok_def header_ok_def get split: option.splits stored_value.splits)
qed

lemma same_item_trans: "same_item L db db' i \<Longrightarrow> same_item L db' db'' i \<Longrightarrow> same_item L db db'' i"
  using same_item_simps(1) [of L db db' i] by (auto simp: same_item_def)

lemma item_ok_mono: "item_ok L db hi i \<Longrightarrow> hi \<le> hi' \<Longrightarrow> item_ok L db hi' i"
  by (auto simp: item_ok_def header_ok_def split: option.splits stored_value.splits)

section \<open>Reading after writing\<close>

lemma get_after_put:
  assumes "put_reads_back L" "ldb_Put L sync (key_slice k) v db = (True, db')"
  shows "get_item L db' i = (if k = Key KT_QUEUE i then Some v else get_item L db i)"
    and "get_chunk L db' c = (if k = Key KT_CHUNK c then Some v else get_chunk L db c)"
  using put_reads_backD [OF assms] by (auto simp: get_item_def get_chunk_def)

lemma get_after_write:
  assumes "batch_deletes L" "ldb_Write L (map key_slice ks) db = (True, db')"
  shows "get_item L db' i = (if Key KT_QUEUE i \<in> set ks then None else get_item L db i)"
    and "get_chunk L db' c = (if Key KT_CHUNK c \<in> set ks then None else get_chunk L db c)"
  using batch_deletesD [OF assms] by (auto simp: get_item_def get_chunk_def)

lemma stored_after_put:
  assumes "put_reads_back L" "ldb_Put L sync (key_slice k) v db = (True, db')"
    and "stored L db \<subseteq> Collect is_key_slice"
  shows "stored L db' \<subseteq> Collect is_key_slice"
  using put_reads_backD [OF assms(1,2)] assms(3) by (auto simp: stored_def split: if_splits)

lemma stored_after_write:
  assumes "batch_deletes L" "ldb_Write L ks db = (True, db')"
    and "stored L db \<subseteq> Collect is_key_slice"
  shows "stored L db' \<subseteq> Collect is_key_slice"
  using batch_deletesD [OF assms(1,2)] assms(3) by (auto simp: stored_def split: if_splits)

end
