(* ===== verification/Two_Phase.thy ===== *)
theory Two_Phase
  imports Prelude
begin

text \<open>
  What a queue promises its clients, independent of journals and iterators: tickets are ready in
  order, a pop hands out the first one, and ending the pop either forgets the item or puts it back at its
  place. The locale is the interface the streams rely on; its lemmas are the consequences a client
  sees.
\<close>

section \<open>The abstract queue\<close>

record ('i, 'a) fifo =
  f_ready :: "('i \<times> 'a) list"
  f_held :: "'i \<rightharpoonup> 'a"

definition fifo_push :: "'i \<Rightarrow> 'a \<Rightarrow> ('i, 'a) fifo \<Rightarrow> ('i, 'a) fifo" where
  "fifo_push i x s = s\<lparr>f_ready := f_ready s @ [(i, x)]\<rparr>"

definition fifo_pop :: "('i, 'a) fifo \<Rightarrow> 'i option \<times> ('i, 'a) fifo" where
  "fifo_pop s = (case f_ready s of
     [] \<Rightarrow> (None, s)
   | (i, x) # r \<Rightarrow> (Some i, s\<lparr>f_ready := r, f_held := (f_held s)(i \<mapsto> x)\<rparr>))"

definition fifo_return :: "'i::linorder \<Rightarrow> ('i, 'a) fifo \<Rightarrow> ('i, 'a) fifo" where
  "fifo_return i s = (case f_held s i of
     None \<Rightarrow> s
   | Some x \<Rightarrow> s\<lparr>f_ready := insort_key fst (i, x) (f_ready s), f_held := (f_held s)(i := None)\<rparr>)"

definition fifo_erase :: "'i \<Rightarrow> ('i, 'a) fifo \<Rightarrow> ('i, 'a) fifo" where
  "fifo_erase i s = s\<lparr>f_held := (f_held s)(i := None)\<rparr>"

text \<open>Ready tickets are in increasing order and none of them is held.\<close>

definition fifo_wf :: "('i::linorder, 'a) fifo \<Rightarrow> bool" where
  "fifo_wf s \<longleftrightarrow> sorted_wrt (<) (map fst (f_ready s)) \<and> fst ` set (f_ready s) \<inter> dom (f_held s) = {}"

lemma insort_key_front: "\<forall>y \<in> set xs. f x \<le> f y \<Longrightarrow> insort_key f x xs = x # xs"
  by (cases xs) auto

text \<open>Putting a popped ticket back undoes the pop: it is the first to be popped again.\<close>

lemma fifo_return_pop:
  assumes "fifo_wf s" "fifo_pop s = (Some i, s')"
  shows "fifo_return i s' = s"
proof -
  obtain x r where ready: "f_ready s = (i, x) # r"
    and s': "s' = s\<lparr>f_ready := r, f_held := (f_held s)(i \<mapsto> x)\<rparr>"
    using assms(2) by (auto simp: fifo_pop_def split: list.splits)
  have "insort_key fst (i, x) r = (i, x) # r"
    using assms(1) ready by (intro insort_key_front) (auto simp: fifo_wf_def less_imp_le)
  moreover have "(f_held s)(i := None) = f_held s"
    using assms(1) ready by (auto simp: fifo_wf_def dom_def fun_upd_idem)
  ultimately show ?thesis
    using ready by (simp add: fifo_return_def s')
qed

section \<open>The interface\<close>

text \<open>
  \<open>push\<close> returns the ticket, or \<open>None\<close> if it threw; \<open>confirm\<close> ends a pop with \<^verbatim>\<open>erase = true\<close> and reports whether the
  journal took it; \<open>release\<close> ends a pop with \<^verbatim>\<open>erase = false\<close>.
\<close>

locale two_phase_queue =
  fixes inv :: "'s \<Rightarrow> bool"
    and abs :: "'s \<Rightarrow> ('i::linorder, 'a) fifo"
    and accepts :: "'a \<Rightarrow> 's \<Rightarrow> bool"
    and push :: "'a \<Rightarrow> 's \<Rightarrow> 'i option \<times> 's"
    and pop :: "'s \<Rightarrow> 'i option \<times> 's"
    and release :: "'i \<Rightarrow> 's \<Rightarrow> 's"
    and confirm :: "'i \<Rightarrow> 's \<Rightarrow> bool \<times> 's"
  assumes wf: "inv s \<Longrightarrow> fifo_wf (abs s)"
    and push_refines: "inv s \<Longrightarrow> accepts x s \<Longrightarrow> push x s = (Some i, s') \<Longrightarrow>
          inv s' \<and> abs s' = fifo_push i x (abs s)"
    and pop_refines: "inv s \<Longrightarrow> pop s = (r, s') \<Longrightarrow>
          inv s' \<and> r = fst (fifo_pop (abs s)) \<and> abs s' = snd (fifo_pop (abs s))"
    and release_refines: "inv s \<Longrightarrow> i \<in> dom (f_held (abs s)) \<Longrightarrow>
          inv (release i s) \<and> abs (release i s) = fifo_return i (abs s)"
    and confirm_refines: "inv s \<Longrightarrow> i \<in> dom (f_held (abs s)) \<Longrightarrow> confirm i s = (True, s') \<Longrightarrow>
          inv s' \<and> abs s' = fifo_erase i (abs s)"
begin

text \<open>Popping \<open>n\<close> times in a row.\<close>

primrec pops :: "nat \<Rightarrow> 's \<Rightarrow> 'i option list \<times> 's" where
  "pops 0 s = ([], s)"
| "pops (Suc n) s = (let (r, s1) = pop s; (rs, s2) = pops n s1 in (r # rs, s2))"

primrec push_all :: "'a list \<Rightarrow> 's \<Rightarrow> 'i option list \<times> 's" where
  "push_all [] s = ([], s)"
| "push_all (x # xs) s = (let (r, s1) = push x s; (rs, s2) = push_all xs s1 in (r # rs, s2))"

lemma pop_first:
  assumes "inv s" "f_ready (abs s) = (i, x) # r" "pop s = (t, s')"
  shows "t = Some i \<and> inv s' \<and> f_ready (abs s') = r \<and> f_held (abs s') = (f_held (abs s))(i \<mapsto> x)"
  using pop_refines [OF assms(1,3)] assms(2) by (auto simp: fifo_pop_def)

lemma pop_nothing:
  assumes "inv s" "f_ready (abs s) = []" "pop s = (t, s')"
  shows "t = None \<and> inv s' \<and> abs s' = abs s"
  using pop_refines [OF assms(1,3)] assms(2) by (auto simp: fifo_pop_def)

text \<open>A released item is the next to be handed out.\<close>

lemma redelivered:
  assumes "inv s" "pop s = (Some i, s')"
  shows "inv (release i s') \<and> abs (release i s') = abs s"
proof -
  have s': "inv s'" "fifo_pop (abs s) = (Some i, abs s')"
    using pop_refines [OF assms] by (auto simp: prod_eq_iff)
  then have "i \<in> dom (f_held (abs s'))"
    by (auto simp: fifo_pop_def split: list.splits dest!: sym [of _ "abs s'"])
  with s' show ?thesis
    using release_refines fifo_return_pop [OF wf [OF assms(1)]] by metis
qed

text \<open>Pops come out in the order of the ready list; once it is used up they fail.\<close>

lemma ready_pops_in_order:
  assumes "inv s" "n \<le> length (f_ready (abs s))" "pops n s = (rs, s')"
  shows "rs = map (Some \<circ> fst) (take n (f_ready (abs s))) \<and> inv s' \<and> f_ready (abs s') = drop n (f_ready (abs s))"
  using assms
proof (induction n arbitrary: s rs)
  case 0
  then show ?case by simp
next
  case (Suc n)
  obtain i x r where ready: "f_ready (abs s) = (i, x) # r"
    using Suc.prems(2) by (cases "f_ready (abs s)") auto
  obtain t s1 where p: "pop s = (t, s1)" by fastforce
  obtain rs1 where ps: "pops n s1 = (rs1, s')" and rs: "rs = t # rs1"
    using Suc.prems(3) p by (auto split: prod.splits)
  from pop_first [OF Suc.prems(1) ready p]
  have s1: "t = Some i" "inv s1" "f_ready (abs s1) = r" by simp_all
  have "n \<le> length (f_ready (abs s1))" using Suc.prems(2) ready s1 by simp
  from Suc.IH [OF s1(2) this ps] show ?case using ready s1 rs by simp
qed

text \<open>First in, first out: what is pushed comes out after what was there, in the order it was pushed.\<close>

lemma push_all_appends:
  assumes "inv s" "\<And>s x. inv s \<Longrightarrow> x \<in> set xs \<Longrightarrow> accepts x s"
    and "push_all xs s = (ts, s')" "\<And>t. t \<in> set ts \<Longrightarrow> t \<noteq> None"
  shows "inv s' \<and> f_ready (abs s') = f_ready (abs s) @ zip (map the ts) xs \<and> length ts = length xs"
  using assms
proof (induction xs arbitrary: s ts)
  case Nil
  then show ?case by simp
next
  case (Cons x xs)
  obtain t s1 where p: "push x s = (t, s1)" by fastforce
  obtain ts1 where ps: "push_all xs s1 = (ts1, s')" and ts: "ts = t # ts1"
    using Cons.prems(3) p by (auto split: prod.splits)
  obtain i where t: "t = Some i" using Cons.prems(4) ts by auto
  have s1: "inv s1" "abs s1 = fifo_push i x (abs s)"
    using push_refines [OF Cons.prems(1) _ p [unfolded t]] Cons.prems(1,2) by auto
  have "inv s' \<and> f_ready (abs s') = f_ready (abs s1) @ zip (map the ts1) xs \<and> length ts1 = length xs"
    using Cons.prems(2,4) ts by (intro Cons.IH [OF s1(1) _ ps]) auto
  then show ?case using s1 ts t by (simp add: fifo_push_def)
qed

end

end
