(* ===== verification/Queue_Refine.thy ===== *)
theory Queue_Refine
  imports Items Two_Phase
begin

text \<open>
  The invariant of a queue and the refinement of the two-phase interface by its methods. The tickets
  that clients hold are not recorded in a queue, which only counts them; the set \<open>Op\<close> of them is a
  ghost argument, as is the set \<open>W\<close> of chunks reserved by pushes that are not finished.
\<close>

section \<open>The invariant\<close>

definition ready_ids :: "('db, 'cb) queue \<Rightarrow> u64 list" where
  "ready_ids q = returned q @ id_range (key_id (queue_tail q)) (key_id (queue_head q))"

definition ids_inv :: "u64 set \<Rightarrow> ('db, 'cb) queue \<Rightarrow> bool" where
  "ids_inv Op q \<longleftrightarrow>
     key_kind (queue_head q) = KT_QUEUE \<and> key_kind (queue_tail q) = KT_QUEUE \<and> key_kind (chunks_head q) = KT_CHUNK \<and>
     key_id (queue_tail q) \<le> key_id (queue_head q) \<and>
     sorted_wrt (<) (returned q) \<and> (\<forall>i \<in> set (returned q). i < key_id (queue_tail q)) \<and>
     (\<forall>i \<in> Op. i < key_id (queue_tail q) \<and> i \<notin> set (returned q)) \<and>
     items_open q = word_of_nat (card Op)"

definition journal_inv :: "'db leveldb \<Rightarrow> u64 set \<Rightarrow> u64 set \<Rightarrow> u64 \<Rightarrow> 'db \<Rightarrow> bool" where
  "journal_inv L I W hi db \<longleftrightarrow>
     stored L db \<subseteq> Collect is_key_slice \<and>
     (\<forall>i \<in> I. item_ok L db hi i) \<and>
     (\<forall>i \<in> I. \<forall>j \<in> I. i \<noteq> j \<longrightarrow> set (chunk_ids L db i) \<inter> set (chunk_ids L db j) = {}) \<and>
     (\<forall>i \<in> I. set (chunk_ids L db i) \<inter> W = {}) \<and>
     (\<forall>c \<in> W. c < hi)"

definition queue_inv :: "'db leveldb \<Rightarrow> u64 set \<Rightarrow> u64 set \<Rightarrow> ('db, 'cb) queue \<Rightarrow> bool" where
  "queue_inv L Op W q \<longleftrightarrow>
     ids_inv Op q \<and> journal_inv L (Op \<union> set (ready_ids q)) W (key_id (chunks_head q)) (journal q)"

text \<open>The abstract queue a journal stands for.\<close>

definition queue_abs :: "'db leveldb \<Rightarrow> u64 set \<Rightarrow> ('db, 'cb) queue \<Rightarrow> (u64, string) fifo" where
  "queue_abs L Op q = \<lparr>
     f_ready = map (\<lambda>i. (i, the (item_of L (journal q) i))) (ready_ids q),
     f_held = (\<lambda>i. if i \<in> Op then item_of L (journal q) i else None)\<rparr>"

section \<open>Frames\<close>

lemma wake_up_frame [simp, frame_simps]:
  "journal (wake_up q) = journal q" "queue_head (wake_up q) = queue_head q" "queue_tail (wake_up q) = queue_tail q"
  "chunks_head (wake_up q) = chunks_head q" "items_open (wake_up q) = items_open q"
  "bytes_evicted (wake_up q) = bytes_evicted q" "returned (wake_up q) = returned q"
  "destroy_flag (wake_up q) = destroy_flag q" "path (wake_up q) = path q" "next_node (wake_up q) = next_node q"
  by (simp_all add: wake_up_def split: option.splits)

lemma ids_inv_wake_up [simp]: "ids_inv Op (wake_up q) = ids_inv Op q"
  by (simp add: ids_inv_def)

lemma ready_ids_wake_up [simp]: "ready_ids (wake_up q) = ready_ids q"
  by (simp add: ready_ids_def)

lemma sorted_ready_ids: "ids_inv Op q \<Longrightarrow> sorted_wrt (<) (ready_ids q)"
  by (auto simp: ids_inv_def ready_ids_def sorted_wrt_append sorted_id_range set_id_range
      intro: less_le_trans)

lemma set_ready_ids:
  "ids_inv Op q \<Longrightarrow> set (ready_ids q) = set (returned q) \<union> {key_id (queue_tail q)..<key_id (queue_head q)}"
  by (auto simp: ids_inv_def ready_ids_def set_id_range)

lemma held_not_ready: "ids_inv Op q \<Longrightarrow> i \<in> Op \<Longrightarrow> i \<notin> set (ready_ids q)"
  by (auto simp: set_ready_ids) (auto simp: ids_inv_def)

lemma queue_abs_wf:
  assumes "ids_inv Op q" shows "fifo_wf (queue_abs L Op q)"
proof -
  have fst: "map fst (f_ready (queue_abs L Op q)) = ready_ids q"
    by (simp add: queue_abs_def comp_def)
  moreover have "fst ` set (f_ready (queue_abs L Op q)) = set (ready_ids q)"
    using fst by (metis set_map)
  moreover have "dom (f_held (queue_abs L Op q)) \<subseteq> Op"
    by (auto simp: queue_abs_def split: if_splits)
  ultimately show ?thesis
    using sorted_ready_ids [OF assms] held_not_ready [OF assms] by (auto simp: fifo_wf_def)
qed

text \<open>A journal that agrees on the items of \<open>I\<close> keeps its invariant for them.\<close>

lemma journal_inv_same:
  assumes "journal_inv L I W hi db" "I' \<subseteq> I" "W' \<subseteq> W"
    and "\<And>i. i \<in> I' \<Longrightarrow> same_item L db db' i"
    and "stored L db' \<subseteq> Collect is_key_slice"
  shows "journal_inv L I' W' hi db'"
proof -
  have ids: "chunk_ids L db' i = chunk_ids L db i" and ok: "item_ok L db' hi i = item_ok L db hi i"
    if "i \<in> I'" for i
    using same_item_simps [OF assms(4) [OF that]] by auto
  have inv: "\<forall>i \<in> I. item_ok L db hi i"
    "\<forall>i \<in> I. \<forall>j \<in> I. i \<noteq> j \<longrightarrow> set (chunk_ids L db i) \<inter> set (chunk_ids L db j) = {}"
    "\<forall>i \<in> I. set (chunk_ids L db i) \<inter> W = {}" "\<forall>c \<in> W. c < hi"
    using assms(1) by (simp_all add: journal_inv_def)
  show ?thesis
    unfolding journal_inv_def
  proof (intro conjI ballI impI)
    fix i j assume "i \<in> I'" "j \<in> I'" "i \<noteq> j"
    then show "set (chunk_ids L db' i) \<inter> set (chunk_ids L db' j) = {}"
      using inv(2) assms(2) by (simp add: ids subset_iff)
  next
    fix i assume "i \<in> I'"
    then show "set (chunk_ids L db' i) \<inter> W' = {}"
      using inv(3) assms(2,3) by (simp add: ids) blast
  qed (use assms inv ok in auto)
qed

lemma journal_inv_insert:
  assumes "journal_inv L I W hi db" "item_ok L db hi h" "set (chunk_ids L db h) \<inter> W = {}"
    and "\<And>i. i \<in> I \<Longrightarrow> set (chunk_ids L db i) \<inter> set (chunk_ids L db h) = {}"
  shows "journal_inv L (insert h I) W hi db"
proof -
  have "set (chunk_ids L db h) \<inter> set (chunk_ids L db i) = {}" if "i \<in> I" for i
    using assms(4) [OF that] by (simp add: Int_commute)
  with assms show ?thesis by (simp add: journal_inv_def)
qed

lemma same_item_refl [simp]: "same_item L db db i"
  by (simp add: same_item_def)

lemma queue_abs_same:
  assumes "\<And>i. i \<in> Op \<union> set (ready_ids q) \<Longrightarrow> same_item L db (journal q) i"
  shows "queue_abs L Op q = queue_abs L Op (q\<lparr>journal := db\<rparr>)"
proof -
  have "item_of L (journal q) i = item_of L db i" if "i \<in> Op \<union> set (ready_ids q)" for i
    using assms [OF that] by (rule same_item_simps)
  then show ?thesis by (auto simp: queue_abs_def ready_ids_def)
qed

section \<open>Pushing\<close>

text \<open>The chunks a value refers to.\<close>

definition value_chunks :: "string \<Rightarrow> u64 set" where
  "value_chunks v = (case classify v of Multi h \<Rightarrow> set (id_range (h_beg h) (h_end h)) | _ \<Rightarrow> {})"

definition value_ok :: "'db leveldb \<Rightarrow> 'db \<Rightarrow> u64 \<Rightarrow> string \<Rightarrow> bool" where
  "value_ok L db hi v \<longleftrightarrow> (case classify v of
     Single x \<Rightarrow> True | Multi h \<Rightarrow> header_ok L db hi h | Corrupt \<Rightarrow> False)"

lemma item_ok_value: "get_item L db i = Some v \<Longrightarrow> item_ok L db hi i \<longleftrightarrow> value_ok L db hi v"
  by (simp add: item_ok_def value_ok_def)

lemma chunk_ids_value: "get_item L db i = Some v \<Longrightarrow> set (chunk_ids L db i) = value_chunks v"
  by (simp add: chunk_ids_def value_chunks_def split: stored_value.splits)

lemma value_ok_same_chunks:
  "(\<And>c. get_chunk L db' c = get_chunk L db c) \<Longrightarrow> value_ok L db' hi v = value_ok L db hi v"
  by (simp add: value_ok_def header_ok_def chunks_of_def split: stored_value.splits cong: map_cong)

lemma head_fresh:
  assumes "ids_inv Op q" shows "key_id (queue_head q) \<notin> Op \<union> set (ready_ids q)"
  using assms by (auto simp: set_ready_ids) (auto simp: ids_inv_def)

text \<open>Both overloads of \<^verbatim>\<open>push\<close> write a value at the head and move the head.\<close>

definition advance :: "'db \<Rightarrow> ('db, 'cb) queue \<Rightarrow> ('db, 'cb) queue" where
  "advance db q = wake_up (q\<lparr>journal := db, queue_head := with_id (queue_head q) (key_id (queue_head q) + 1)\<rparr>)"

lemma advance_frame [simp]:
  "journal (advance db q) = db" "queue_tail (advance db q) = queue_tail q" "returned (advance db q) = returned q"
  "queue_head (advance db q) = with_id (queue_head q) (key_id (queue_head q) + 1)"
  "chunks_head (advance db q) = chunks_head q" "items_open (advance db q) = items_open q"
  by (simp_all add: advance_def)

lemma advance_ids:
  assumes "ids_inv Op q" "key_id (queue_head q) + 1 \<noteq> 0"
  shows "ids_inv Op (advance db q)" and "ready_ids (advance db q) = ready_ids q @ [key_id (queue_head q)]"
proof -
  have "key_id (queue_tail q) \<le> key_id (queue_head q)" using assms(1) by (simp add: ids_inv_def)
  moreover from this have "key_id (queue_tail q) \<le> key_id (queue_head q) + 1"
    using assms(2) by (simp add: word_le_nat_alt unat_plus_one)
  ultimately show "ids_inv Op (advance db q)"
    and "ready_ids (advance db q) = ready_ids q @ [key_id (queue_head q)]"
    using assms by (simp_all add: ids_inv_def ready_ids_def id_range_snoc)
qed

lemma put_at_head:
  assumes L: "journal_contract L" and inv: "queue_inv L Op W q"
    and put: "ldb_Put L sync (key_slice (queue_head q)) v (journal q) = (True, db')"
  shows "i \<in> Op \<union> set (ready_ids q) \<Longrightarrow> same_item L (journal q) db' i"
    and "get_item L db' (key_id (queue_head q)) = Some v"
    and "get_chunk L db' c = get_chunk L (journal q) c"
    and "stored L db' \<subseteq> Collect is_key_slice"
proof -
  have ids: "ids_inv Op q" and kind: "key_kind (queue_head q) = KT_QUEUE"
    and st: "stored L (journal q) \<subseteq> Collect is_key_slice"
    using inv by (simp_all add: queue_inv_def ids_inv_def journal_inv_def)
  have L': "put_reads_back L" using leveldb_contractD [OF L] by simp
  have head: "queue_head q = Key KT_QUEUE (key_id (queue_head q))"
    by (metis kind key_type.collapse)
  note after = get_after_put [OF L' put]
  show "get_item L db' (key_id (queue_head q)) = Some v"
    using after(1) head by simp
  have chunk: "get_chunk L db' c = get_chunk L (journal q) c" for c
    using after(2) kind by (metis KT_distinct(2) key_type.sel(1))
  then show "get_chunk L db' c = get_chunk L (journal q) c" .
  show "same_item L (journal q) db' i" if "i \<in> Op \<union> set (ready_ids q)"
  proof -
    have "key_id (queue_head q) \<noteq> i" using head_fresh [OF ids] that by blast
    then have "queue_head q \<noteq> Key KT_QUEUE i" by (metis key_type.sel(2))
    then show ?thesis using after(1) chunk by (simp add: same_item_def)
  qed
  show "stored L db' \<subseteq> Collect is_key_slice"
    by (rule stored_after_put [OF L' put st])
qed

lemma advance_refines:
  assumes L: "journal_contract L" and inv: "queue_inv L Op W q" and room: "key_id (queue_head q) + 1 \<noteq> 0"
    and put: "ldb_Put L sync (key_slice (queue_head q)) v (journal q) = (True, db')"
    and v: "value_ok L (journal q) (key_id (chunks_head q)) v" "value_chunks v \<subseteq> W"
  shows "queue_inv L Op (W - value_chunks v) (advance db' q)"
    and "queue_abs L Op (advance db' q) =
         fifo_push (key_id (queue_head q)) (the (item_of L db' (key_id (queue_head q)))) (queue_abs L Op q)"
proof -
  let ?h = "key_id (queue_head q)" and ?I = "Op \<union> set (ready_ids q)"
  have ids: "ids_inv Op q" and jinv: "journal_inv L ?I W (key_id (chunks_head q)) (journal q)"
    using inv by (simp_all add: queue_inv_def)
  note adv = advance_ids [OF ids room] and at = put_at_head [OF L inv put]
  have old: "journal_inv L ?I (W - value_chunks v) (key_id (chunks_head q)) db'"
    using at by (intro journal_inv_same [OF jinv]) auto
  have ids_same: "chunk_ids L db' i = chunk_ids L (journal q) i" if "i \<in> ?I" for i
    using same_item_simps(1) [OF at(1) [OF that]] .
  have disj: "set (chunk_ids L db' i) \<inter> value_chunks v = {}" if "i \<in> ?I" for i
    using jinv v(2) that unfolding journal_inv_def ids_same [OF that] by blast
  have new: "item_ok L db' (key_id (chunks_head q)) ?h" "set (chunk_ids L db' ?h) = value_chunks v"
    using v(1) at(2,3) by (simp_all add: item_ok_value chunk_ids_value value_ok_same_chunks [of L db'])
  have "journal_inv L (insert ?h ?I) (W - value_chunks v) (key_id (chunks_head q)) db'"
    using old new disj by (intro journal_inv_insert) auto
  then show "queue_inv L Op (W - value_chunks v) (advance db' q)"
    using adv by (simp add: queue_inv_def insert_commute Un_insert_right)
  have "item_of L db' i = item_of L (journal q) i" if "i \<in> ?I" for i
    using same_item_simps(2) [OF at(1) [OF that]] .
  then show "queue_abs L Op (advance db' q) = fifo_push ?h (the (item_of L db' ?h)) (queue_abs L Op q)"
    by (auto simp: queue_abs_def fifo_push_def adv(2))
qed

lemma push_item_cases:
  assumes "push_item L x sync q = (Inr i, q')"
  obtains db' where "x \<noteq> []" "i = key_id (queue_head q)" "q' = advance db' q"
    "ldb_Put L sync (key_slice (queue_head q)) (encode_item x) (journal q) = (True, db')"
  using assms
  by (auto simp: push_item_def queue_put_def encode_item_def advance_def split: if_splits prod.splits)

lemma push_header_cases:
  assumes "push_header L h sync q = (Inr i, q')"
  obtains db' where "i = key_id (queue_head q)" "q' = advance db' q"
    "ldb_Put L sync (key_slice (queue_head q)) (header_str h) (journal q) = (True, db')"
  using assms
  by (auto simp: push_header_def queue_put_def advance_def split: if_splits prod.splits)

lemma push_item_refines:
  assumes "journal_contract L" "queue_inv L Op W q" "key_id (queue_head q) + 1 \<noteq> 0"
    and "push_item L x sync q = (Inr i, q')"
  shows "queue_inv L Op W q'" and "queue_abs L Op q' = fifo_push i (as_read x) (queue_abs L Op q)"
proof -
  obtain db' where x: "x \<noteq> []" and i: "i = key_id (queue_head q)" and q': "q' = advance db' q"
    and put: "ldb_Put L sync (key_slice (queue_head q)) (encode_item x) (journal q) = (True, db')"
    using assms(4) by (rule push_item_cases)
  have v: "classify (encode_item x) = Single (as_read x)" by (rule classify_as_read [OF x])
  have ok: "value_ok L (journal q) (key_id (chunks_head q)) (encode_item x)" and vc: "value_chunks (encode_item x) = {}"
    by (simp_all add: value_ok_def value_chunks_def v)
  note refines = advance_refines [OF assms(1,2,3) put ok, unfolded vc, simplified]
  show "queue_inv L Op W q'" using refines(1) by (simp add: q')
  have "item_of L db' (key_id (queue_head q)) = Some (as_read x)"
    using put_at_head(2) [OF assms(1,2) put] by (simp add: item_of_def v)
  then show "queue_abs L Op q' = fifo_push i (as_read x) (queue_abs L Op q)"
    using refines(2) by (simp add: q' i)
qed

text \<open>The chunks and the items of the journal do not change.\<close>

lemma push_frame:
  assumes "journal_contract L" "queue_inv L Op W q"
    and "push_item L x sync q = (Inr i, q') \<or> push_header L h sync q = (Inr i, q')"
  shows "j \<in> Op \<union> set (ready_ids q) \<Longrightarrow> same_item L (journal q) (journal q') j"
    and "get_chunk L (journal q') c = get_chunk L (journal q) c"
    and "chunks_head q' = chunks_head q"
proof -
  obtain v db' where q': "q' = advance db' q"
    and put: "ldb_Put L sync (key_slice (queue_head q)) v (journal q) = (True, db')"
    using assms(3) by (auto elim!: push_item_cases push_header_cases)
  show "j \<in> Op \<union> set (ready_ids q) \<Longrightarrow> same_item L (journal q) (journal q') j"
    "get_chunk L (journal q') c = get_chunk L (journal q) c" "chunks_head q' = chunks_head q"
    using put_at_head(1,3) [OF assms(1,2) put] by (simp_all add: q')
qed

lemma push_header_refines:
  assumes "journal_contract L" "queue_inv L Op W q" "key_id (queue_head q) + 1 \<noteq> 0"
    and h: "1 < h_end h" "h_beg h < h_end h" "h_end h \<le> key_id (chunks_head q)" "set (id_range (h_beg h) (h_end h)) \<subseteq> W"
    and cs: "chunks_of L (journal q) h = Some cs" "length (concat cs) = unat (h_size h)"
    and "push_header L h sync q = (Inr i, q')"
  shows "queue_inv L Op (W - set (id_range (h_beg h) (h_end h))) q'"
    and "queue_abs L Op q' = fifo_push i (concat cs) (queue_abs L Op q)"
proof -
  obtain db' where i: "i = key_id (queue_head q)" and q': "q' = advance db' q"
    and put: "ldb_Put L sync (key_slice (queue_head q)) (header_str h) (journal q) = (True, db')"
    using assms(10) by (rule push_header_cases)
  have ok: "value_ok L (journal q) (key_id (chunks_head q)) (header_str h)"
    using h cs by (simp add: value_ok_def header_ok_def)
  have vc: "value_chunks (header_str h) = set (id_range (h_beg h) (h_end h))"
    by (simp add: value_chunks_def)
  note refines = advance_refines [OF assms(1,2,3) put ok, unfolded vc, OF h(4)]
  show "queue_inv L Op (W - set (id_range (h_beg h) (h_end h))) q'"
    using refines(1) by (simp add: q')
  have "item_of L db' (key_id (queue_head q)) = Some (concat cs)"
    using put_at_head(2,3) [OF assms(1,2) put] cs(1) by (simp add: item_of_def chunks_of_def cong: map_cong)
  then show "queue_abs L Op q' = fifo_push i (concat cs) (queue_abs L Op q)"
    using refines(2) by (simp add: q' i)
qed

end
