(* ===== verification/Queue_Pop.thy ===== *)
theory Queue_Pop
  imports Queue_Refine
begin

text \<open>
  The popping side of the refinement: \<^verbatim>\<open>pop_begin\<close>, \<^verbatim>\<open>pop_end\<close> with and without erasing, compaction, and
  the interpretation of the two-phase interface by the queue.
\<close>

section \<open>Beginning a pop\<close>

lemma pop_begin_cases:
  assumes "ids_inv Op q"
  obtains
    (empty) "ready_ids q = []" "pop_begin q = (None, q)"
  | (item) i r q' where "ready_ids q = i # r" "pop_begin q = (Some i, q')" "ready_ids q' = r"
      "ids_inv (insert i Op) q'" "journal q' = journal q" "chunks_head q' = chunks_head q"
proof (cases "returned q")
  case (Cons i rs)
  let ?q' = "q\<lparr>returned := rs, items_open := items_open q + 1\<rparr>"
  have "i \<notin> Op" using assms Cons by (auto simp: ids_inv_def)
  then have "ids_inv (insert i Op) ?q'"
    using assms Cons by (auto simp: ids_inv_def)
  then show thesis
    using Cons by (intro item [of i "ready_ids ?q'" ?q']) (simp_all add: pop_begin_def ready_ids_def)
next
  case Nil
  note nil = this
  let ?t = "key_id (queue_tail q)" and ?h = "key_id (queue_head q)"
  show thesis
  proof (cases "?t = ?h")
    case True
    with Nil show thesis by (intro empty) (simp_all add: pop_begin_def ready_ids_def)
  next
    case False
    let ?q' = "q\<lparr>queue_tail := with_id (queue_tail q) (?t + 1), items_open := items_open q + 1\<rparr>"
    have "?t < ?h" using assms False by (simp add: ids_inv_def order_less_le)
    from less_plus_one [OF this] have "?t < ?t + 1" "?t + 1 \<le> ?h" by simp_all
    moreover have "?t \<notin> Op" using assms by (auto simp: ids_inv_def)
    ultimately have "ids_inv (insert ?t Op) ?q'"
      using assms Nil by (auto simp: ids_inv_def)
    then show thesis
      using Nil False
      by (intro item [of ?t "ready_ids ?q'" ?q']) (simp_all add: pop_begin_def ready_ids_def id_range_Cons)
  qed
qed

definition held_after :: "u64 set \<Rightarrow> u64 option \<Rightarrow> u64 set" where
  "held_after Op r = (case r of None \<Rightarrow> Op | Some i \<Rightarrow> insert i Op)"

lemma pop_begin_refines:
  assumes "queue_inv L Op W q" "pop_begin q = (r, q')"
  shows "queue_inv L (held_after Op r) W q' \<and> r = fst (fifo_pop (queue_abs L Op q)) \<and>
    queue_abs L (held_after Op r) q' = snd (fifo_pop (queue_abs L Op q))"
proof -
  have ids: "ids_inv Op q"
    and jinv: "journal_inv L (Op \<union> set (ready_ids q)) W (key_id (chunks_head q)) (journal q)"
    using assms(1) by (simp_all add: queue_inv_def)
  from ids show ?thesis
  proof (cases rule: pop_begin_cases)
    case empty
    then show ?thesis using assms by (simp add: queue_abs_def fifo_pop_def held_after_def)
  next
    case (item i rs q1)
    then have "item_ok L (journal q) (key_id (chunks_head q)) i"
      using jinv by (simp add: journal_inv_def)
    then obtain x where "item_of L (journal q) i = Some x" by (rule item_okE)
    with item jinv show ?thesis
      using assms(2) by (auto simp: queue_inv_def queue_abs_def fifo_pop_def held_after_def)
  qed
qed

section \<open>Ending a pop without erasing\<close>

lemma insort_append_below: "\<forall>y \<in> set ys. x < y \<Longrightarrow> insort x (xs @ ys) = insort x xs @ ys"
proof (induction xs)
  case Nil
  then show ?case by (cases ys) auto
qed auto

lemma map_insort_pair: "map (\<lambda>i. (i, f i)) (insort x xs) = insort_key fst (x, f x) (map (\<lambda>i. (i, f i)) xs)"
  by (induction xs) auto

lemma strict_sorted_insort:
  "sorted_wrt (<) xs \<Longrightarrow> x \<notin> set xs \<Longrightarrow> sorted_wrt (<) (insort x xs)" for x :: "'a::linorder"
  by (simp add: strict_sorted_iff sorted_insort distinct_insort)

lemma card_remove_word: "i \<in> Op \<Longrightarrow> (word_of_nat (card (Op - {i})) :: u64) = word_of_nat (card Op) - 1" for Op :: "u64 set"
proof -
  assume "i \<in> Op"
  then have "card Op = Suc (card (Op - {i}))"
    using card.remove [of Op i] by simp
  then show ?thesis by simp
qed

lemma pop_return_ids:
  assumes "ids_inv Op q" "i \<in> Op" "pop_end L False i h q = (r, q')"
  shows "r = Inr ()" "ids_inv (Op - {i}) q'" "ready_ids q' = insort i (ready_ids q)"
    "journal q' = journal q" "chunks_head q' = chunks_head q"
proof -
  have i: "i \<notin> set (returned q)" "i < key_id (queue_tail q)"
    using assms(1,2) by (auto simp: ids_inv_def)
  have le: "key_id (queue_tail q) \<le> key_id (queue_head q)" using assms(1) by (simp add: ids_inv_def)
  have ins: "insort_insert i (returned q) = insort i (returned q)"
    using i by (simp add: insort_insert_key_def)
  have q': "q' = (wake_up (q\<lparr>returned := insort i (returned q)\<rparr>))\<lparr>items_open := items_open q - 1\<rparr>" "r = Inr ()"
    using assms(3) by (simp_all add: pop_end_def ins Let_def)
  show "r = Inr ()" "journal q' = journal q" "chunks_head q' = chunks_head q"
    using q' by simp_all
  show "ready_ids q' = insort i (ready_ids q)"
  proof -
    have "\<forall>y \<in> set (id_range (key_id (queue_tail q)) (key_id (queue_head q))). i < y"
      using i le by (auto simp: set_id_range)
    then show ?thesis by (simp add: q' ready_ids_def insort_append_below)
  qed
  show "ids_inv (Op - {i}) q'"
    using assms(1,2) i q'(1) strict_sorted_insort [of "returned q" i]
    by (auto simp: ids_inv_def set_insort_key card_remove_word simp del: card_Diff_insert card_Diff_singleton)
qed

lemma pop_return_refines:
  assumes "queue_inv L Op W q" "i \<in> Op" "pop_end L False i h q = (r, q')"
  shows "r = Inr ()" "queue_inv L (Op - {i}) W q'"
    "queue_abs L (Op - {i}) q' = fifo_return i (queue_abs L Op q)"
proof -
  have ids: "ids_inv Op q"
    and jinv: "journal_inv L (Op \<union> set (ready_ids q)) W (key_id (chunks_head q)) (journal q)"
    using assms(1) by (simp_all add: queue_inv_def)
  note ret = pop_return_ids [OF ids assms(2,3)]
  show "r = Inr ()" by (rule ret)
  have "Op - {i} \<union> set (ready_ids q') = Op \<union> set (ready_ids q)"
    using assms(2) ret(3) by (auto simp: set_insort_key)
  then show "queue_inv L (Op - {i}) W q'"
    using jinv ret by (simp add: queue_inv_def)
  have "item_ok L (journal q) (key_id (chunks_head q)) i"
    using jinv assms(2) by (simp add: journal_inv_def)
  then obtain x where "item_of L (journal q) i = Some x" by (rule item_okE)
  then show "queue_abs L (Op - {i}) q' = fifo_return i (queue_abs L Op q)"
    using assms(2) ret
    by (auto simp: queue_abs_def fifo_return_def map_insort_pair [of "\<lambda>i. the (item_of L (journal q) i)"])
qed

section \<open>Compaction\<close>

lemma seek_is_key:
  assumes "journal_contract L" "stored L db \<subseteq> Collect is_key_slice" "ldb_Seek L (key_slice k) db = Some s"
  obtains k' where "key_of_slice s = Some k'"
proof -
  have "seek_at slice_le (stored L db) (key_slice k) (Some s)"
    using leveldb_contractD [OF assms(1)] assms(2,3) by (metis is_key_slice_key_slice iterates_in_def)
  then have "is_key_slice s" using assms(2) by (auto simp: seek_at_def)
  then show thesis using that by (auto elim: is_key_sliceE)
qed

lemma compact_ok:
  assumes "journal_contract L" "stored L (journal q) \<subseteq> Collect is_key_slice"
  obtains db where "compact L q = (Inr (), q\<lparr>journal := db\<rparr>)" "\<And>k. ldb_Get L k db = ldb_Get L k (journal q)"
proof -
  have keep: "compact_keeps L" using leveldb_contractD [OF assms(1)] by simp
  have "\<exists>db. compact L q = (Inr (), q\<lparr>journal := db\<rparr>) \<and> (\<forall>k. ldb_Get L k db = ldb_Get L k (journal q))"
  proof (cases "ldb_Seek L (key_slice (Key KT_QUEUE 0)) (journal q)")
    case None
    then show ?thesis by (intro exI [of _ "journal q"]) (simp add: compact_def)
  next
    case (Some sq)
    obtain kq where kq: "key_of_slice sq = Some kq" using seek_is_key [OF assms Some] .
    show ?thesis
    proof (cases "ldb_Seek L (key_slice (Key KT_CHUNK 0)) (journal q)")
      case None
      with Some kq keep show ?thesis
        by (auto simp: compact_def Let_def compact_keepsD intro!: exI [of _ "ldb_CompactRange L _ _ (journal q)"])
    next
      case (Some sc)
      obtain kc where "key_of_slice sc = Some kc" using seek_is_key [OF assms Some] .
      with \<open>ldb_Seek L (key_slice (Key KT_QUEUE 0)) (journal q) = Some sq\<close> Some kq keep show ?thesis
        by (auto simp: compact_def Let_def compact_keepsD
            intro!: exI [of _ "ldb_CompactRange L _ _ (ldb_CompactRange L _ _ (journal q))"])
    qed
  qed
  then show thesis using that by blast
qed

section \<open>Ending a pop with erasing\<close>

text \<open>What a reader's header is once it has read the item.\<close>

definition header_for :: "'db leveldb \<Rightarrow> 'db \<Rightarrow> u64 \<Rightarrow> header_type" where
  "header_for L db i = (case map_option classify (get_item L db i) of
     Some (Multi h) \<Rightarrow> h
   | Some (Single x) \<Rightarrow> header_default\<lparr>h_size := word_of_nat (length x)\<rparr>
   | _ \<Rightarrow> header_default)"

text \<open>The keys \<^verbatim>\<open>pop_end\<close> erases, given the header the reader has.\<close>

definition header_chunks :: "header_type \<Rightarrow> u64 list" where
  "header_chunks h = (if h_end h > 1 then id_range (h_beg h) (h_end h) else [])"

definition erase_keys :: "u64 \<Rightarrow> header_type \<Rightarrow> key_type list" where
  "erase_keys i h = Key KT_QUEUE i # map (Key KT_CHUNK) (header_chunks h)"

lemma erase_batch:
  "key_slice (Key KT_QUEUE i) # (if h_end h > 1 then chunk_slices h else []) = map key_slice (erase_keys i h)"
  by (simp add: erase_keys_def chunk_slices_eq header_chunks_def)

text \<open>
  A reader has the header of its item, or, before its first read, a default one; erasing with the latter leaves the
  chunks of a chunked item behind.
\<close>

definition erase_header :: "'db leveldb \<Rightarrow> 'db \<Rightarrow> u64 \<Rightarrow> header_type \<Rightarrow> bool" where
  "erase_header L db i h \<longleftrightarrow> h_end h \<le> 1 \<or> h = header_for L db i"

lemma header_for_chunks: "item_ok L db hi i \<Longrightarrow> header_chunks (header_for L db i) = chunk_ids L db i"
  by (auto simp: item_ok_def header_for_def chunk_ids_def header_chunks_def header_ok_def
      split: option.splits stored_value.splits)

lemma erase_header_chunks:
  "item_ok L db hi i \<Longrightarrow> erase_header L db i h \<Longrightarrow> set (header_chunks h) \<subseteq> set (chunk_ids L db i)"
  using header_for_chunks [of L db hi i] by (auto simp: erase_header_def header_chunks_def)

lemma pop_erase_cases:
  assumes L: "journal_contract L" and st: "stored L (journal q) \<subseteq> Collect is_key_slice"
    and pop: "pop_end L True i h q = (Inr (), q')"
  obtains db b where "q' = q\<lparr>journal := db, bytes_evicted := b, items_open := items_open q - 1\<rparr>"
    "\<And>k. ldb_Get L (key_slice k) db = (if k \<in> set (erase_keys i h) then None else ldb_Get L (key_slice k) (journal q))"
    "stored L db \<subseteq> Collect is_key_slice" "b \<le> 33554432"
proof -
  have L': "batch_deletes L" using leveldb_contractD [OF L] by simp
  obtain b0 db1 where wr: "ldb_Write L (map key_slice (erase_keys i h)) (journal q) = (b0, db1)"
    by fastforce
  have b0: "b0 = True"
    using pop by (auto simp: pop_end_def erase_batch queue_write_def wr split: if_splits)
  note wr = wr [unfolded b0]
  let ?q2 = "q\<lparr>journal := db1, bytes_evicted := bytes_evicted q + h_size h\<rparr>"
  have get: "ldb_Get L (key_slice k) db1 =
      (if k \<in> set (erase_keys i h) then None else ldb_Get L (key_slice k) (journal q))" for k
    using batch_deletesD [OF L' wr] by auto
  have st1: "stored L db1 \<subseteq> Collect is_key_slice" by (rule stored_after_write [OF L' wr st])
  show thesis
  proof (cases "bytes_evicted ?q2 > 33554432")
    case False
    then have "q' = q\<lparr>journal := db1, bytes_evicted := bytes_evicted q + h_size h, items_open := items_open q - 1\<rparr>"
      using pop by (simp add: pop_end_def erase_batch queue_write_def wr Let_def)
    moreover have "bytes_evicted q + h_size h \<le> 33554432" using False by (simp add: not_less)
    ultimately show thesis using get st1 by (intro that)
  next
    case True
    obtain db where c: "compact L ?q2 = (Inr (), ?q2\<lparr>journal := db\<rparr>)"
      and same: "\<And>k. ldb_Get L k db = ldb_Get L k (journal ?q2)"
      using compact_ok [OF L, of ?q2] st1 by auto
    have "q' = q\<lparr>journal := db, bytes_evicted := 0, items_open := items_open q - 1\<rparr>"
      using pop True c by (simp add: pop_end_def erase_batch queue_write_def wr Let_def)
    moreover have "stored L db \<subseteq> Collect is_key_slice" using st1 same by (simp add: stored_def)
    ultimately show thesis using get same by (intro that [of 0 db]) simp_all
  qed
qed

lemma pop_erase_frame:
  assumes L: "journal_contract L" and inv: "queue_inv L Op W q" and i: "i \<in> Op"
    and h: "erase_header L (journal q) i h" and pop: "pop_end L True i h q = (Inr (), q')"
  shows "j \<in> Op \<union> set (ready_ids q) \<Longrightarrow> j \<noteq> i \<Longrightarrow> same_item L (journal q) (journal q') j"
    and "c \<in> W \<Longrightarrow> get_chunk L (journal q') c = get_chunk L (journal q) c"
    and "get_item L (journal q') i = None"
    and "c \<in> set (header_chunks h) \<Longrightarrow> get_chunk L (journal q') c = None"
proof -
  let ?I = "Op \<union> set (ready_ids q)"
  have jinv: "journal_inv L ?I W (key_id (chunks_head q)) (journal q)"
    using inv by (simp add: queue_inv_def)
  then have st: "stored L (journal q) \<subseteq> Collect is_key_slice"
    and ok: "item_ok L (journal q) (key_id (chunks_head q)) i"
    using i by (simp_all add: journal_inv_def)
  obtain db b where q': "q' = q\<lparr>journal := db, bytes_evicted := b, items_open := items_open q - 1\<rparr>"
    and get: "\<And>k. ldb_Get L (key_slice k) db =
      (if k \<in> set (erase_keys i h) then None else ldb_Get L (key_slice k) (journal q))"
    by (rule pop_erase_cases [OF L st pop]) (rule that, assumption+)
  note chunks = erase_header_chunks [OF ok h]
  show "get_item L (journal q') i = None"
    and "c \<in> set (header_chunks h) \<Longrightarrow> get_chunk L (journal q') c = None"
    using get by (auto simp: q' get_item_def get_chunk_def erase_keys_def)
  show "get_chunk L (journal q') c = get_chunk L (journal q) c" if "c \<in> W"
  proof -
    have "set (chunk_ids L (journal q) i) \<inter> W = {}" using jinv i by (simp add: journal_inv_def)
    then have "c \<notin> set (header_chunks h)" using chunks that by blast
    then show ?thesis using get by (auto simp: q' get_chunk_def erase_keys_def)
  qed
  show "same_item L (journal q) (journal q') j" if "j \<in> ?I" "j \<noteq> i"
  proof -
    have "set (chunk_ids L (journal q) j) \<inter> set (chunk_ids L (journal q) i) = {}"
      using jinv that i by (simp add: journal_inv_def)
    then have "set (chunk_ids L (journal q) j) \<inter> set (header_chunks h) = {}" using chunks by blast
    then show ?thesis
      using that get by (auto simp: q' same_item_def get_item_def get_chunk_def erase_keys_def)
  qed
qed

lemma pop_erase_refines:
  assumes L: "journal_contract L" and inv: "queue_inv L Op W q" and i: "i \<in> Op"
    and h: "erase_header L (journal q) i h" and pop: "pop_end L True i h q = (Inr (), q')"
  shows "queue_inv L (Op - {i}) W q'"
    and "queue_abs L (Op - {i}) q' = fifo_erase i (queue_abs L Op q)"
proof -
  let ?I = "Op \<union> set (ready_ids q)"
  have ids: "ids_inv Op q" and jinv: "journal_inv L ?I W (key_id (chunks_head q)) (journal q)"
    using inv by (simp_all add: queue_inv_def)
  then have st: "stored L (journal q) \<subseteq> Collect is_key_slice" by (simp add: journal_inv_def)
  obtain db b where q': "q' = q\<lparr>journal := db, bytes_evicted := b, items_open := items_open q - 1\<rparr>"
    and st': "stored L db \<subseteq> Collect is_key_slice"
    by (rule pop_erase_cases [OF L st pop]) (rule that, assumption+)
  note same = pop_erase_frame(1) [OF L inv i h pop]
  have ready: "ready_ids q' = ready_ids q" by (simp add: q' ready_ids_def)
  have "i \<notin> set (ready_ids q)" using held_not_ready [OF ids i] .
  then have "journal_inv L (Op - {i} \<union> set (ready_ids q)) W (key_id (chunks_head q)) (journal q')"
    using same st' by (intro journal_inv_same [OF jinv]) (auto simp: q')
  moreover have "ids_inv (Op - {i}) q'"
    using ids i by (auto simp: q' ids_inv_def card_remove_word simp del: card_Diff_insert card_Diff_singleton)
  ultimately show "queue_inv L (Op - {i}) W q'"
    by (simp add: queue_inv_def ready) (simp add: q')
  have eq: "item_of L (journal q') j = item_of L (journal q) j" if "j \<in> ?I" "j \<noteq> i" for j
    using same_item_simps(2) [OF same [OF that]] .
  have "item_of L (journal q') j = item_of L (journal q) j" if "j \<in> set (ready_ids q)" for j
    using eq [of j] that \<open>i \<notin> set (ready_ids q)\<close> by blast
  then show "queue_abs L (Op - {i}) q' = fifo_erase i (queue_abs L Op q)"
    by (auto simp: queue_abs_def fifo_erase_def ready fun_eq_iff eq)
qed

text \<open>\<^verbatim>\<open>pop_end\<close> throws only when the journal refuses the batch; compaction does not fail.\<close>

lemma pop_erase_failed:
  assumes L: "journal_contract L" and st: "stored L (journal q) \<subseteq> Collect is_key_slice"
    and pop: "pop_end L True i h q = (Inl e, q')"
  obtains db where "e = Io_error" "q' = q\<lparr>journal := db\<rparr>"
    "ldb_Write L (map key_slice (erase_keys i h)) (journal q) = (False, db)"
proof -
  have L': "batch_deletes L" using leveldb_contractD [OF L] by simp
  obtain b0 db1 where wr: "ldb_Write L (map key_slice (erase_keys i h)) (journal q) = (b0, db1)"
    by fastforce
  show thesis
  proof (cases b0)
    case True
    then have ok: "ldb_Write L (map key_slice (erase_keys i h)) (journal q) = (True, db1)" using wr by simp
    let ?q2 = "q\<lparr>journal := db1, bytes_evicted := bytes_evicted q + h_size h\<rparr>"
    have "stored L (journal ?q2) \<subseteq> Collect is_key_slice"
      using stored_after_write [OF L' ok st] by simp
    from compact_ok [OF L this] obtain db where "compact L ?q2 = (Inr (), ?q2\<lparr>journal := db\<rparr>)" by metis
    then show thesis
      using pop True by (auto simp: pop_end_def erase_batch queue_write_def wr Let_def split: if_splits)
  next
    case False
    then show thesis
      using pop wr by (intro that [of db1]) (auto simp: pop_end_def erase_batch queue_write_def)
  qed
qed

section \<open>The queue is a two-phase queue\<close>

text \<open>
  The interface's state is a queue with the ghost sets. A \<^verbatim>\<open>push\<close> is accepted while the 64-bit head has
  room and the item can be stored; \<open>confirm\<close> and \<open>release\<close> are \<^verbatim>\<open>pop_end\<close> with the header a reader has.
\<close>

type_synonym ('db, 'cb) ghost_queue = "u64 set \<times> ('db, 'cb) queue"

definition gq_inv :: "'db leveldb \<Rightarrow> u64 set \<Rightarrow> ('db, 'cb) ghost_queue \<Rightarrow> bool" where
  "gq_inv L W s \<longleftrightarrow> journal_contract L \<and> queue_inv L (fst s) W (snd s)"

definition gq_abs :: "'db leveldb \<Rightarrow> ('db, 'cb) ghost_queue \<Rightarrow> (u64, string) fifo" where
  "gq_abs L s = queue_abs L (fst s) (snd s)"

definition gq_accepts :: "string \<Rightarrow> ('db, 'cb) ghost_queue \<Rightarrow> bool" where
  "gq_accepts x s \<longleftrightarrow> storable x \<and> key_id (queue_head (snd s)) + 1 \<noteq> 0"

definition gq_push :: "'db leveldb \<Rightarrow> bool \<Rightarrow> string \<Rightarrow> ('db, 'cb) ghost_queue \<Rightarrow> u64 option \<times> ('db, 'cb) ghost_queue" where
  "gq_push L sync x s = (case push_item L x sync (snd s) of
     (Inl e, q) \<Rightarrow> (None, (fst s, q))
   | (Inr i, q) \<Rightarrow> (Some i, (fst s, q)))"

definition gq_pop :: "('db, 'cb) ghost_queue \<Rightarrow> u64 option \<times> ('db, 'cb) ghost_queue" where
  "gq_pop s = (case pop_begin (snd s) of (r, q) \<Rightarrow> (r, (held_after (fst s) r, q)))"

definition gq_release :: "'db leveldb \<Rightarrow> u64 \<Rightarrow> ('db, 'cb) ghost_queue \<Rightarrow> ('db, 'cb) ghost_queue" where
  "gq_release L i s = (fst s - {i}, snd (pop_end L False i (header_for L (journal (snd s)) i) (snd s)))"

definition gq_confirm :: "'db leveldb \<Rightarrow> u64 \<Rightarrow> ('db, 'cb) ghost_queue \<Rightarrow> bool \<times> ('db, 'cb) ghost_queue" where
  "gq_confirm L i s = (case pop_end L True i (header_for L (journal (snd s)) i) (snd s) of
     (Inl e, q) \<Rightarrow> (False, (fst s, q))
   | (Inr _, q) \<Rightarrow> (True, (fst s - {i}, q)))"

lemma held_dom: "i \<in> dom (f_held (queue_abs L Op q)) \<Longrightarrow> i \<in> Op"
  by (auto simp: queue_abs_def split: if_splits)

interpretation gq: two_phase_queue "gq_inv L W" "gq_abs L" gq_accepts "gq_push L sync" gq_pop "gq_release L" "gq_confirm L"
  for L :: "'db leveldb" and W sync
proof unfold_locales
  fix s s' x i r
  assume inv: "gq_inv L W s"
  then have L: "journal_contract L" and q: "queue_inv L (fst s) W (snd s)" by (simp_all add: gq_inv_def)
  show "fifo_wf (gq_abs L s)"
    using q by (simp add: gq_abs_def queue_abs_wf queue_inv_def)
  show "gq_inv L W s' \<and> gq_abs L s' = fifo_push i x (gq_abs L s)"
    if "gq_accepts x s" "gq_push L sync x s = (Some i, s')"
    using that push_item_refines [OF L q, of x sync i "snd s'"] L
    by (auto simp: gq_inv_def gq_abs_def gq_accepts_def gq_push_def split: prod.splits sum.splits)
  show "gq_inv L W s' \<and> r = fst (fifo_pop (gq_abs L s)) \<and> gq_abs L s' = snd (fifo_pop (gq_abs L s))"
    if "gq_pop s = (r, s')"
    using that pop_begin_refines [OF q, of r "snd s'"] L
    by (auto simp: gq_inv_def gq_abs_def gq_pop_def split: prod.splits)
  show "gq_inv L W (gq_release L i s) \<and> gq_abs L (gq_release L i s) = fifo_return i (gq_abs L s)"
    if "i \<in> dom (f_held (gq_abs L s))"
    using held_dom [OF that [unfolded gq_abs_def]] pop_return_refines [OF q] L
    by (cases "pop_end L False i (header_for L (journal (snd s)) i) (snd s)")
      (auto simp: gq_inv_def gq_abs_def gq_release_def)
  show "gq_inv L W s' \<and> gq_abs L s' = fifo_erase i (gq_abs L s)"
    if "i \<in> dom (f_held (gq_abs L s))" "gq_confirm L i s = (True, s')"
  proof -
    have i: "i \<in> fst s" using held_dom [OF that(1) [unfolded gq_abs_def]] .
    have "pop_end L True i (header_for L (journal (snd s)) i) (snd s) = (Inr (), snd s')"
      and "fst s' = fst s - {i}"
      using that(2) by (auto simp: gq_confirm_def split: prod.splits sum.splits)
    then show ?thesis
      using pop_erase_refines [OF L q i _, of "header_for L (journal (snd s)) i" "snd s'"] L
      by (simp add: gq_inv_def gq_abs_def erase_header_def)
  qed
qed

end
