(* ===== verification/Streams.thy ===== *)
theory Streams
  imports Queue_Pop
begin

text \<open>
  The classes \<^verbatim>\<open>iqstream\<close> and \<^verbatim>\<open>oqstream\<close> (\<^verbatim>\<open>iqstream.h\<close>, \<^verbatim>\<open>iqstream.cpp\<close>, \<^verbatim>\<open>oqstream.h\<close>, \<^verbatim>\<open>oqstream.cpp\<close>):
  reading an item off a queue and writing one to it, a chunk at a time. A stream holds the address of its queue, a
  natural number, \<open>None\<close> for a null pointer; the methods take the queue found at that address and
  return it updated.
\<close>

section \<open>Input streams\<close>

text \<open>The members other than the pointer and the header are not initialised; they are not read before \<^verbatim>\<open>open\<close> sets them.\<close>

record iqstream =
  is_queue :: "nat option"
  is_id :: u64
  is_header :: header_type
  is_chunk_pos :: u64
  is_tell :: u64

definition iq_new :: iqstream where
  "iq_new = \<lparr>is_queue = None, is_id = 0, is_header = header_default, is_chunk_pos = 0, is_tell = 0\<rparr>"

definition iq_size :: "iqstream \<Rightarrow> u64" where
  "iq_size s = h_size (is_header s)"

definition iq_open :: "nat \<Rightarrow> ('db, 'cb) queue \<Rightarrow> iqstream \<Rightarrow> (('db, 'cb) queue \<times> iqstream, bool) outcome" where
  "iq_open a q s =
     (if is_queue s \<noteq> None then (Inl Already_open, (q, s))
      else case pop_begin q of
        (None, q1) \<Rightarrow> (Inr False, (q1, s))
      | (Some i, q1) \<Rightarrow>
          (Inr True, (q1, s\<lparr>is_id := i, is_queue := Some a, is_header := header_default,
                            is_chunk_pos := h_beg header_default, is_tell := 0\<rparr>)))"

text \<open>
  \<^verbatim>\<open>read(result)\<close>; \<open>result\<close> is the output string before the call. The first read looks for a header.
\<close>

definition iq_first :: "'db leveldb \<Rightarrow> ('db, 'cb) queue \<Rightarrow> string \<Rightarrow> iqstream \<Rightarrow> (string \<times> iqstream, unit) outcome" where
  "iq_first L q result s =
     (if is_chunk_pos s = 0 then
        (case pop_read L (is_id s) q (result, is_header s) of
           (Inl e, (res, h)) \<Rightarrow> (Inl e, (res, s\<lparr>is_header := h\<rparr>))
         | (Inr _, (res, h)) \<Rightarrow>
             (Inr (), (res,
                if h_end h > 1 then s\<lparr>is_header := h, is_chunk_pos := h_beg h\<rparr>
                else s\<lparr>is_header := h\<lparr>h_size := word_of_nat (length res)\<rparr>\<rparr>)))
      else (Inr (), (result, s)))"

definition iq_read :: "'db leveldb \<Rightarrow> ('db, 'cb) queue \<Rightarrow> string \<Rightarrow> iqstream \<Rightarrow> (string \<times> iqstream, unit) outcome" where
  "iq_read L q result s =
     (if is_queue s = None \<or> is_chunk_pos s \<ge> h_end (is_header s) then (Inl Eof, (result, s))
      else case iq_first L q result s of
        (Inl e, out) \<Rightarrow> (Inl e, out)
      | (Inr _, (res, s1)) \<Rightarrow>
          (case (if h_end (is_header s1) > 1 then read_chunk L (is_chunk_pos s1) q else Inr res) of
             Inl e \<Rightarrow> (Inl e, (res, s1))
           | Inr res1 \<Rightarrow>
               (Inr (), (res1, s1\<lparr>is_chunk_pos := is_chunk_pos s1 + 1,
                                  is_tell := is_tell s1 + word_of_nat (length res1)\<rparr>))))"

definition iq_close :: "'db leveldb \<Rightarrow> bool \<Rightarrow> ('db, 'cb) queue \<Rightarrow> iqstream \<Rightarrow> (('db, 'cb) queue \<times> iqstream, unit) outcome" where
  "iq_close L erase q s =
     (if is_queue s = None then (Inr (), (q, s))
      else case pop_end L erase (is_id s) (is_header s) q of
        (Inl e, q1) \<Rightarrow> (Inl e, (q1, s))
      | (Inr _, q1) \<Rightarrow> (Inr (), (q1, s\<lparr>is_queue := None\<rparr>)))"

definition iq_dtor :: "'db leveldb \<Rightarrow> ('db, 'cb) queue \<Rightarrow> iqstream \<Rightarrow> ('db, 'cb) queue" where
  "iq_dtor L q s = (if is_queue s \<noteq> None then snd (pop_end L False (is_id s) (is_header s) q) else q)"

section \<open>Output streams\<close>

record oqstream =
  os_queue :: "nat option"
  os_id :: u64
  os_header :: header_type
  os_chunk_pos :: u64
  os_sync :: bool

definition oq_new :: oqstream where
  "oq_new = \<lparr>os_queue = None, os_id = 0, os_header = header_default, os_chunk_pos = 0, os_sync = False\<rparr>"

definition oq_tell :: "oqstream \<Rightarrow> u64" where
  "oq_tell s = h_size (os_header s)"

definition oq_open :: "nat \<Rightarrow> u64 \<Rightarrow> bool \<Rightarrow> ('db, 'cb) queue \<Rightarrow> oqstream \<Rightarrow> (('db, 'cb) queue \<times> oqstream, unit) outcome" where
  "oq_open a chunks_count sync q s =
     (if os_queue s \<noteq> None then (Inl Already_open, (q, s))
      else
        let (h, q1) = (if chunks_count > 1 then reserve_chunks chunks_count q else (header_default, q))
        in (Inr (), (q1, s\<lparr>os_sync := sync, os_queue := Some a, os_header := h, os_chunk_pos := h_beg h\<rparr>)))"

text \<open>The last chunk of a chunked item is followed by its header; either way the stream closes after its last chunk.\<close>

definition oq_write :: "'db leveldb \<Rightarrow> string \<Rightarrow> ('db, 'cb) queue \<Rightarrow> oqstream \<Rightarrow> (('db, 'cb) queue \<times> oqstream, unit) outcome" where
  "oq_write L chunk q s =
     (if os_queue s = None \<or> os_chunk_pos s = h_end (os_header s) then (Inl Eof, (q, s))
      else case (if h_end (os_header s) \<le> 1
                 then (case push_item L chunk (os_sync s) q of
                         (Inl e, q1) \<Rightarrow> (Inl e, (q1, s))
                       | (Inr i, q1) \<Rightarrow> (Inr (), (q1, s\<lparr>os_id := i\<rparr>)))
                 else (case write_chunk L chunk (os_chunk_pos s) q of
                         (r, q1) \<Rightarrow> (r, (q1, s)))) of
        (Inl e, (q1, s1)) \<Rightarrow> (Inl e, (q1, s1))
      | (Inr _, (q1, s1)) \<Rightarrow>
          let h = (os_header s1)\<lparr>h_size := h_size (os_header s1) + word_of_nat (length chunk)\<rparr>;
              s2 = s1\<lparr>os_header := h, os_chunk_pos := os_chunk_pos s1 + 1\<rparr>
          in if os_chunk_pos s2 = h_end h then
               (if h_end h > 1 then
                  (case push_header L h (os_sync s2) q1 of
                     (Inl e, q2) \<Rightarrow> (Inl e, (q2, s2))
                   | (Inr i, q2) \<Rightarrow> (Inr (), (q2, s2\<lparr>os_id := i, os_queue := None\<rparr>)))
                else (Inr (), (q1, s2\<lparr>os_queue := None\<rparr>)))
             else (Inr (), (q1, s2)))"

definition oq_cancel :: "'db leveldb \<Rightarrow> ('db, 'cb) queue \<Rightarrow> oqstream \<Rightarrow> (('db, 'cb) queue \<times> oqstream, unit) outcome" where
  "oq_cancel L q s =
     (if os_queue s = None then (Inl Eof, (q, s))
      else case (if h_end (os_header s) > 1 then erase_chunks L (os_header s) q else (Inr (), q)) of
        (Inl e, q1) \<Rightarrow> (Inl e, (q1, s))
      | (Inr _, q1) \<Rightarrow> (Inr (), (q1, s\<lparr>os_queue := None\<rparr>)))"

text \<open>The destructor cancels and swallows every error.\<close>

definition oq_dtor :: "'db leveldb \<Rightarrow> ('db, 'cb) queue \<Rightarrow> oqstream \<Rightarrow> ('db, 'cb) queue" where
  "oq_dtor L q s = (if os_queue s \<noteq> None then fst (snd (oq_cancel L q s)) else q)"

end
