(* ===== verification/Stream_Props.thy ===== *)
theory Stream_Props
  imports Streams
begin

text \<open>
  What the streams do with an item: reading an opened item to its end gives its bytes back and
  leaves the header that erasing needs; writing the chunks of an item appends their
  concatenation to the queue; cancelling removes them.
\<close>

section \<open>Reading\<close>

lemma those_eq_Some: "those xs = Some ys \<longleftrightarrow> xs = map Some ys"
proof (induction xs arbitrary: ys)
  case Nil
  then show ?case by auto
next
  case (Cons x xs)
  then show ?case by (cases x; cases ys) (auto simp: map_eq_Cons_conv)
qed

lemma chunks_of_eq:
  "chunks_of L db h = Some cs \<longleftrightarrow>
     length cs = unat (h_end h - h_beg h) \<and> (\<forall>k < length cs. get_chunk L db (h_beg h + word_of_nat k) = Some (cs ! k))"
proof -
  have "chunks_of L db h = Some cs \<longleftrightarrow> map (get_chunk L db) (id_range (h_beg h) (h_end h)) = map Some cs"
    by (simp add: chunks_of_def those_eq_Some)
  also have "\<dots> \<longleftrightarrow> length cs = unat (h_end h - h_beg h) \<and>
      (\<forall>k < length cs. get_chunk L db (h_beg h + word_of_nat k) = Some (cs ! k))"
    by (auto simp: list_eq_iff_nth_eq id_range_eq)
  finally show ?thesis .
qed

text \<open>Reading \<open>n\<close> times, up to the first error.\<close>

primrec iq_reads :: "'db leveldb \<Rightarrow> ('db, 'cb) queue \<Rightarrow> nat \<Rightarrow> iqstream \<Rightarrow> (error + string) list \<times> iqstream" where
  "iq_reads L q 0 s = ([], s)"
| "iq_reads L q (Suc n) s = (case iq_read L q [] s of
     (Inl e, (_, s1)) \<Rightarrow> ([Inl e], s1)
   | (Inr _, (r, s1)) \<Rightarrow> (let (rs, s2) = iq_reads L q n s1 in (Inr r # rs, s2)))"

text \<open>A stream that \<^verbatim>\<open>open\<close> has just attached to the item \<open>i\<close>.\<close>

definition iq_fresh :: "u64 \<Rightarrow> iqstream \<Rightarrow> bool" where
  "iq_fresh i s \<longleftrightarrow> is_queue s \<noteq> None \<and> is_id s = i \<and> is_header s = header_default \<and>
     is_chunk_pos s = 0 \<and> is_tell s = 0"

lemma iq_open_fresh:
  assumes "iq_open a q s = (Inr True, (q1, s1))"
  shows "is_queue s1 = Some a" "iq_fresh (is_id s1) s1" "pop_begin q = (Some (is_id s1), q1)"
  using assms by (auto simp: iq_open_def iq_fresh_def split: if_splits prod.splits option.splits)

lemma iq_read_single:
  assumes "iq_fresh i s" "get_item L (journal q) i = Some v" "classify v = Single x"
  shows "iq_read L q res s = (Inr (), (x,
    s\<lparr>is_header := header_default\<lparr>h_size := word_of_nat (length x)\<rparr>, is_chunk_pos := 1, is_tell := word_of_nat (length x)\<rparr>))"
  using assms
  by (simp add: iq_read_def iq_first_def iq_fresh_def pop_read_classify get_item_def)

text \<open>The stream after the first \<open>k\<close> chunks \<open>cs\<close> of a chunked item.\<close>

definition iq_at :: "header_type \<Rightarrow> string list \<Rightarrow> nat \<Rightarrow> iqstream \<Rightarrow> iqstream" where
  "iq_at h cs k s = s\<lparr>is_header := h, is_chunk_pos := h_beg h + word_of_nat k,
     is_tell := word_of_nat (length (concat (take k cs)))\<rparr>"

lemma concat_take_Suc: "k < length cs \<Longrightarrow> concat (take (Suc k) cs) = concat (take k cs) @ cs ! k"
  by (simp add: take_Suc_conv_app_nth)

lemma iq_read_chunk_first:
  assumes "iq_fresh i s" "get_item L (journal q) i = Some v" "classify v = Multi h"
    and "header_ok L (journal q) hi h" "chunks_of L (journal q) h = Some cs"
  shows "iq_read L q res s = (Inr (), (cs ! 0, iq_at h cs 1 s))"
proof -
  have "0 < unat (h_end h - h_beg h)"
    using assms(4) by (auto simp: header_ok_def unat_gt_0)
  then have n: "0 < length cs" using assms(5) by (simp add: chunks_of_eq)
  then have "get_chunk L (journal q) (h_beg h) = Some (cs ! 0)"
    using assms(5) by (metis add.right_neutral chunks_of_eq semiring_1_class.of_nat_0)
  then show ?thesis
    using assms n concat_take_Suc [of 0 cs]
    by (simp add: iq_read_def iq_first_def iq_fresh_def pop_read_classify get_item_def iq_at_def read_chunk_def
        queue_get_def get_chunk_def header_ok_def)
qed

lemma chunk_pos_bounds:
  assumes "header_ok L db hi h" "k < unat (h_end h - h_beg h)"
  shows "h_beg h + word_of_nat k < h_end h" and "0 < k \<Longrightarrow> h_beg h + word_of_nat k \<noteq> 0"
proof -
  have le: "h_beg h \<le> h_end h" using assms(1) by (auto simp: header_ok_def)
  then have d: "unat (h_end h - h_beg h) = unat (h_end h) - unat (h_beg h)" by (simp add: unat_sub)
  moreover have "unat (h_end h) < 2 ^ 64" using unsigned_less [of "h_end h", where ?'a = nat] by simp
  ultimately have u: "unat (h_beg h + word_of_nat k) = unat (h_beg h) + k"
    using assms(2) by (intro unat_word_offset) linarith
  show "h_beg h + word_of_nat k < h_end h"
    using u d assms(2) by (simp add: word_less_nat_alt)
  show "h_beg h + word_of_nat k \<noteq> 0" if "0 < k"
    using u that by (metis add_gr_0 less_irrefl unat_0)
qed

lemma iq_read_chunk_next:
  assumes s: "iq_fresh i s" and ok: "header_ok L (journal q) hi h" and cs: "chunks_of L (journal q) h = Some cs"
    and k: "0 < k" "k < length cs"
  shows "iq_read L q res (iq_at h cs k s) = (Inr (), (cs ! k, iq_at h cs (Suc k) s))"
proof -
  have n: "k < unat (h_end h - h_beg h)" using cs k by (simp add: chunks_of_eq)
  have "get_chunk L (journal q) (h_beg h + word_of_nat k) = Some (cs ! k)"
    using cs k by (simp add: chunks_of_eq)
  then show ?thesis
    using s ok chunk_pos_bounds [OF ok n] k concat_take_Suc [OF k(2)]
    by (simp add: iq_read_def iq_first_def iq_fresh_def iq_at_def read_chunk_def queue_get_def get_chunk_def
        header_ok_def add.commute add.left_commute not_le)
qed

lemma iq_reads_chunks:
  assumes s: "iq_fresh i s" and ok: "header_ok L (journal q) hi h" and cs: "chunks_of L (journal q) h = Some cs"
    and k: "0 < k" "k + n \<le> length cs"
  shows "iq_reads L q n (iq_at h cs k s) = (map Inr (take n (drop k cs)), iq_at h cs (k + n) s)"
  using k
proof (induction n arbitrary: k)
  case 0
  then show ?case by simp
next
  case (Suc n)
  then have "k < length cs" by simp
  with Suc show ?case
    by (simp add: iq_read_chunk_next [OF s ok cs] Cons_nth_drop_Suc [symmetric])
qed

lemma iq_reads_item:
  assumes s: "iq_fresh i s" and item: "item_ok L (journal q) hi i"
  obtains cs s' where "item_of L (journal q) i = Some (concat cs)" "cs \<noteq> []"
    "iq_reads L q (length cs) s = (map Inr cs, s')"
    "is_header s' = header_for L (journal q) i" "is_tell s' = word_of_nat (length (concat cs))"
    "iq_size s' = word_of_nat (length (concat cs))"
    "is_chunk_pos s' = h_end (is_header s')" "is_queue s' = is_queue s" "is_id s' = is_id s"
proof -
  obtain v where v: "get_item L (journal q) i = Some v"
    using item by (cases "get_item L (journal q) i") (simp_all add: item_ok_def)
  show thesis
  proof (cases "classify v")
    case (Single x)
    then show thesis
      by (intro that [of "[x]" "s\<lparr>is_header := header_default\<lparr>h_size := word_of_nat (length x)\<rparr>,
             is_chunk_pos := 1, is_tell := word_of_nat (length x)\<rparr>"])
        (simp_all add: v item_of_def header_for_def iq_size_def iq_read_single [OF s v Single])
  next
    case (Multi h)
    then have ok: "header_ok L (journal q) hi h" using item v by (simp add: item_ok_def)
    then obtain cs where cs: "chunks_of L (journal q) h = Some cs"
      and sz: "length (concat cs) = unat (h_size h)" by (auto simp: header_ok_def)
    have size: "h_size h = word_of_nat (length (concat cs))" by (simp only: sz of_nat_unat ucast_id)
    have len: "length cs = unat (h_end h - h_beg h)" using cs by (simp add: chunks_of_eq)
    have "0 < unat (h_end h - h_beg h)" using ok by (auto simp: header_ok_def unat_gt_0)
    with len obtain n where n: "length cs = Suc n" by (metis gr0_implies_Suc)
    then have "cs \<noteq> []" by auto
    have "iq_reads L q (length cs) s = (map Inr cs, iq_at h cs (length cs) s)"
      using iq_reads_chunks [OF s ok cs, of 1 n] n \<open>cs \<noteq> []\<close>
      by (simp add: iq_read_chunk_first [OF s v Multi ok cs] drop_Suc hd_conv_nth [symmetric] take_all
          list.map(2) [symmetric] del: list.map(2))
    moreover have "h_beg h + word_of_nat (length cs) = h_end h" by (simp add: len)
    ultimately show thesis
      using \<open>cs \<noteq> []\<close> cs size v Multi
      by (intro that [of cs "iq_at h cs (length cs) s"])
        (simp_all add: iq_at_def iq_size_def item_of_def header_for_def)
  next
    case Corrupt
    then show thesis using item v by (simp add: item_ok_def)
  qed
qed

lemma iq_read_at_end: "is_chunk_pos s \<ge> h_end (is_header s) \<Longrightarrow> iq_read L q res s = (Inl Eof, (res, s))"
  by (simp add: iq_read_def)

end
