(* ===== verification/Stream_Write.thy ===== *)
theory Stream_Write
  imports Stream_Props
begin

text \<open>
  The writing side of the streams: chunks are reserved and written without touching any item, and the
  header written last turns them into one.
\<close>

section \<open>Chunk operations and the invariant\<close>

lemma queue_inv_disjoint:
  assumes "queue_inv L Op W q" "i \<in> Op \<union> set (ready_ids q)" "C \<subseteq> W"
  shows "set (chunk_ids L (journal q) i) \<inter> C = {}"
proof -
  have "set (chunk_ids L (journal q) i) \<inter> W = {}"
    using assms(1,2) by (simp add: queue_inv_def journal_inv_def)
  with assms(3) show ?thesis by blast
qed

lemma queue_inv_stored: "queue_inv L Op W q \<Longrightarrow> stored L (journal q) \<subseteq> Collect is_key_slice"
  by (simp add: queue_inv_def journal_inv_def)

lemma queue_inv_journal:
  assumes "queue_inv L Op W q" "\<And>i. i \<in> Op \<union> set (ready_ids q) \<Longrightarrow> same_item L (journal q) db i"
    and "stored L db \<subseteq> Collect is_key_slice" "W' \<subseteq> W"
  shows "queue_inv L Op W' (q\<lparr>journal := db\<rparr>)" and "queue_abs L Op (q\<lparr>journal := db\<rparr>) = queue_abs L Op q"
proof -
  have "journal_inv L (Op \<union> set (ready_ids q)) W' (key_id (chunks_head q)) db"
    using assms(1) unfolding queue_inv_def
    by (intro journal_inv_same [OF _ subset_refl assms(4,2,3)]) simp_all
  moreover have "ids_inv Op (q\<lparr>journal := db\<rparr>)" "ready_ids (q\<lparr>journal := db\<rparr>) = ready_ids q"
    using assms(1) by (simp_all add: queue_inv_def ids_inv_def ready_ids_def)
  ultimately show "queue_inv L Op W' (q\<lparr>journal := db\<rparr>)" by (simp add: queue_inv_def)
  have "item_of L db i = item_of L (journal q) i" if "i \<in> Op \<union> set (ready_ids q)" for i
    using same_item_simps(2) [OF assms(2) [OF that]] .
  then show "queue_abs L Op (q\<lparr>journal := db\<rparr>) = queue_abs L Op q"
    by (auto simp: queue_abs_def ready_ids_def)
qed

lemma reserve_chunks_inv:
  assumes inv: "queue_inv L Op W q" and r: "reserve_chunks n q = (h, q1)"
    and room: "unat (key_id (chunks_head q)) + unat n < 2 ^ 64"
  shows "queue_inv L Op (W \<union> set (id_range (h_beg h) (h_end h))) q1" "queue_abs L Op q1 = queue_abs L Op q"
    "h_beg h = key_id (chunks_head q)" "h_end h = key_id (chunks_head q1)" "h_size h = 0"
    "h_beg h \<le> h_end h" "unat (h_end h - h_beg h) = unat n" "queue_head q1 = queue_head q"
proof -
  let ?c = "key_id (chunks_head q)"
  have hq: "h = \<lparr>h_beg = ?c, h_end = ?c + n, h_size = 0\<rparr>" "q1 = q\<lparr>chunks_head := with_id (chunks_head q) (?c + n)\<rparr>"
    using r by (simp_all add: reserve_chunks_def)
  have le: "?c \<le> ?c + n"
    using room by (simp add: word_le_nat_alt unat_word_ariths)
  show "h_beg h = key_id (chunks_head q)" "h_end h = key_id (chunks_head q1)" "h_size h = 0"
    "h_beg h \<le> h_end h" "unat (h_end h - h_beg h) = unat n" "queue_head q1 = queue_head q"
    using le by (simp_all add: hq)
  have ready: "ready_ids q1 = ready_ids q" by (simp add: hq ready_ids_def)
  have ids: "ids_inv Op q1" using inv by (simp add: hq queue_inv_def ids_inv_def)
  have j: "journal_inv L (Op \<union> set (ready_ids q)) W ?c (journal q)"
    using inv by (simp add: queue_inv_def)
  have below: "set (chunk_ids L (journal q) i) \<inter> {?c..<?c + n} = {}" if "i \<in> Op \<union> set (ready_ids q)" for i
    using set_chunk_ids [of L "journal q" ?c i] j that by (fastforce simp: journal_inv_def)
  have "journal_inv L (Op \<union> set (ready_ids q)) (W \<union> {?c..<?c + n}) (?c + n) (journal q)"
    using j le below unfolding journal_inv_def
    by (auto simp: Int_Un_distrib intro: item_ok_mono order_less_le_trans)
  then show "queue_inv L Op (W \<union> set (id_range (h_beg h) (h_end h))) q1"
    using ids le by (simp add: queue_inv_def ready) (simp add: hq set_id_range)
  have "journal q1 = journal q" by (simp add: hq)
  then show "queue_abs L Op q1 = queue_abs L Op q"
    by (simp only: queue_abs_def ready)
qed

lemma write_chunk_inv:
  assumes L: "journal_contract L" and inv: "queue_inv L Op W q" and c: "c \<in> W"
    and w: "write_chunk L x c q = (Inr (), q1)"
  shows "queue_inv L Op W q1" "queue_abs L Op q1 = queue_abs L Op q"
    "get_chunk L (journal q1) d = (if d = c then Some x else get_chunk L (journal q) d)"
    "queue_head q1 = queue_head q" "chunks_head q1 = chunks_head q"
    "j \<in> Op \<union> set (ready_ids q) \<Longrightarrow> same_item L (journal q) (journal q1) j"
proof -
  obtain db where put: "ldb_Put L False (key_slice (Key KT_CHUNK c)) x (journal q) = (True, db)"
    and q1: "q1 = q\<lparr>journal := db\<rparr>"
    using w by (auto simp: write_chunk_def queue_put_def split: prod.splits if_splits)
  have L': "put_reads_back L" using leveldb_contractD [OF L] by simp
  note after = get_after_put [OF L' put]
  show "get_chunk L (journal q1) d = (if d = c then Some x else get_chunk L (journal q) d)"
    "queue_head q1 = queue_head q" "chunks_head q1 = chunks_head q"
    using after(2) [of d] by (auto simp: q1)
  have same: "same_item L (journal q) db i" if "i \<in> Op \<union> set (ready_ids q)" for i
  proof -
    have "c \<notin> set (chunk_ids L (journal q) i)"
      using queue_inv_disjoint [OF inv that, of "{c}"] c by simp
    then show ?thesis using after by (auto simp: same_item_def)
  qed
  note frame = queue_inv_journal [OF inv same stored_after_put [OF L' put queue_inv_stored [OF inv]] subset_refl]
  show "j \<in> Op \<union> set (ready_ids q) \<Longrightarrow> same_item L (journal q) (journal q1) j" using same by (simp add: q1)
  show "queue_inv L Op W q1" "queue_abs L Op q1 = queue_abs L Op q"
    using frame by (simp_all add: q1)
qed

lemma erase_chunks_inv:
  assumes L: "journal_contract L" and inv: "queue_inv L Op W q" and c: "set (id_range (h_beg h) (h_end h)) \<subseteq> W"
    and w: "erase_chunks L h q = (Inr (), q1)"
  shows "queue_inv L Op (W - set (id_range (h_beg h) (h_end h))) q1" "queue_abs L Op q1 = queue_abs L Op q"
    "get_chunk L (journal q1) d = (if d \<in> set (id_range (h_beg h) (h_end h)) then None else get_chunk L (journal q) d)"
    "j \<in> Op \<union> set (ready_ids q) \<Longrightarrow> same_item L (journal q) (journal q1) j" "chunks_head q1 = chunks_head q"
proof -
  have slices: "chunk_slices h = map key_slice (map (Key KT_CHUNK) (id_range (h_beg h) (h_end h)))"
    by (rule chunk_slices_eq)
  obtain db where wr: "ldb_Write L (map key_slice (map (Key KT_CHUNK) (id_range (h_beg h) (h_end h)))) (journal q) = (True, db)"
    and q1: "q1 = q\<lparr>journal := db\<rparr>"
    using w by (auto simp: erase_chunks_def slices queue_write_def split: prod.splits if_splits)
  have L': "batch_deletes L" using leveldb_contractD [OF L] by simp
  note after = get_after_write [OF L' wr]
  show "get_chunk L (journal q1) d = (if d \<in> set (id_range (h_beg h) (h_end h)) then None else get_chunk L (journal q) d)"
    using after(2) by (auto simp: q1)
  have same: "same_item L (journal q) db i" if "i \<in> Op \<union> set (ready_ids q)" for i
  proof -
    have "set (chunk_ids L (journal q) i) \<inter> set (id_range (h_beg h) (h_end h)) = {}"
      by (rule queue_inv_disjoint [OF inv that c])
    then show ?thesis using after by (auto simp: same_item_def)
  qed
  note frame = queue_inv_journal [OF inv same stored_after_write [OF L' wr queue_inv_stored [OF inv]] Diff_subset]
  show "j \<in> Op \<union> set (ready_ids q) \<Longrightarrow> same_item L (journal q) (journal q1) j" using same by (simp add: q1)
  show "chunks_head q1 = chunks_head q" by (simp add: q1)
  show "queue_inv L Op (W - set (id_range (h_beg h) (h_end h))) q1" "queue_abs L Op q1 = queue_abs L Op q"
    using frame by (simp_all add: q1)
qed

section \<open>Writing an item\<close>

text \<open>Writing a list of chunks, up to the first error.\<close>

primrec oq_writes :: "'db leveldb \<Rightarrow> string list \<Rightarrow> ('db, 'cb) queue \<Rightarrow> oqstream \<Rightarrow> (('db, 'cb) queue \<times> oqstream, unit) outcome" where
  "oq_writes L [] q s = (Inr (), (q, s))"
| "oq_writes L (c # cs) q s = (case oq_write L c q s of
     (Inl e, out) \<Rightarrow> (Inl e, out)
   | (Inr _, (q1, s1)) \<Rightarrow> oq_writes L cs q1 s1)"

text \<open>
  An unfinished chunked item: \<open>cs\<close> are the chunks written so far, the rest of the reserved range is to come.
\<close>

definition oq_inv :: "'db leveldb \<Rightarrow> u64 set \<Rightarrow> string list \<Rightarrow> ('db, 'cb) queue \<Rightarrow> oqstream \<Rightarrow> bool" where
  "oq_inv L W cs q s \<longleftrightarrow> (let h = os_header s in
     os_queue s \<noteq> None \<and> 1 < h_end h \<and> h_beg h \<le> h_end h \<and> h_end h \<le> key_id (chunks_head q) \<and>
     set (id_range (h_beg h) (h_end h)) \<subseteq> W \<and>
     length cs \<le> unat (h_end h - h_beg h) \<and> os_chunk_pos s = h_beg h + word_of_nat (length cs) \<and>
     (\<forall>k < length cs. get_chunk L (journal q) (h_beg h + word_of_nat k) = Some (cs ! k)) \<and>
     h_size h = word_of_nat (length (concat cs)))"

lemma oq_inv_range:
  assumes "oq_inv L W cs q s" "k < unat (h_end (os_header s) - h_beg (os_header s))"
  shows "h_beg (os_header s) + word_of_nat k \<in> W"
proof -
  have "h_beg (os_header s) + word_of_nat k \<in> set (id_range (h_beg (os_header s)) (h_end (os_header s)))"
    using assms(2) by (auto simp: id_range_eq)
  with assms(1) show ?thesis by (auto simp: oq_inv_def Let_def)
qed

lemma offset_inj:
  fixes n b :: u64
  assumes "unat n < 2 ^ 64" "j < unat n" "k < unat n" "b + word_of_nat j = b + word_of_nat k"
  shows "j = k"
proof -
  have "(word_of_nat j :: u64) = word_of_nat k" using assms(4) by simp
  then have "unat (word_of_nat j :: u64) = unat (word_of_nat k :: u64)" by simp
  then show ?thesis using assms(1-3) by (simp add: unsigned_of_nat take_bit_nat_eq_self)
qed

lemma u64_bound: "unat n < 2 ^ 64" for n :: u64
  using unsigned_less [of n, where ?'a = nat] by simp

lemma offset_end:
  fixes b e :: u64
  assumes "k \<le> unat (e - b)"
  shows "b + word_of_nat k = e \<longleftrightarrow> k = unat (e - b)"
proof
  assume "b + word_of_nat k = e"
  then have "word_of_nat k = e - b" by (simp add: algebra_simps)
  then have "unat (word_of_nat k :: u64) = unat (e - b)" by simp
  then show "k = unat (e - b)"
    using assms(1) u64_bound [of "e - b"] by (simp add: unsigned_of_nat take_bit_nat_eq_self)
qed simp

text \<open>The step all chunks take, before the header is pushed.\<close>

lemma oq_write_chunk_step:
  assumes L: "journal_contract L" and inv: "queue_inv L Op W q" and s: "oq_inv L W cs q s"
    and more: "length cs < unat (h_end (os_header s) - h_beg (os_header s))"
    and w: "write_chunk L c (os_chunk_pos s) q = (Inr (), q1)"
    and s1: "s1 = s\<lparr>os_header := (os_header s)\<lparr>h_size := h_size (os_header s) + word_of_nat (length c)\<rparr>,
                     os_chunk_pos := os_chunk_pos s + 1\<rparr>"
  shows "queue_inv L Op W q1" "queue_abs L Op q1 = queue_abs L Op q" "oq_inv L W (cs @ [c]) q1 s1"
    "queue_head q1 = queue_head q"
proof -
  let ?b = "h_beg (os_header s)" and ?e = "h_end (os_header s)"
  have pos: "os_chunk_pos s = ?b + word_of_nat (length cs)" using s by (simp add: oq_inv_def Let_def)
  note wr = write_chunk_inv [OF L inv oq_inv_range [OF s more, folded pos] w]
  show "queue_inv L Op W q1" "queue_abs L Op q1 = queue_abs L Op q" "queue_head q1 = queue_head q"
    using wr by simp_all
  have "get_chunk L (journal q1) (?b + word_of_nat k) = Some ((cs @ [c]) ! k)" if "k < Suc (length cs)" for k
  proof (cases "k = length cs")
    case True
    then show ?thesis by (simp add: wr(3) pos)
  next
    case False
    then have "?b + word_of_nat k \<noteq> ?b + word_of_nat (length cs)"
      using offset_inj [OF u64_bound, of k "?e - ?b" "length cs" ?b] that more by auto
    then show ?thesis using s False that by (simp add: wr(3) pos oq_inv_def Let_def nth_append)
  qed
  then show "oq_inv L W (cs @ [c]) q1 s1"
    using s more by (simp add: oq_inv_def Let_def s1 wr(5) pos add.assoc [symmetric])
qed

lemma oq_write_multi:
  assumes "oq_inv L W cs q s" "length cs < unat (h_end (os_header s) - h_beg (os_header s))"
  shows "oq_write L c q s = (case write_chunk L c (os_chunk_pos s) q of
     (Inl e, q1) \<Rightarrow> (Inl e, (q1, s))
   | (Inr _, q1) \<Rightarrow>
       let s1 = s\<lparr>os_header := (os_header s)\<lparr>h_size := h_size (os_header s) + word_of_nat (length c)\<rparr>,
                  os_chunk_pos := os_chunk_pos s + 1\<rparr>
       in if Suc (length cs) = unat (h_end (os_header s) - h_beg (os_header s))
          then (case push_header L (os_header s1) (os_sync s1) q1 of
                  (Inl e, q2) \<Rightarrow> (Inl e, (q2, s1))
                | (Inr i, q2) \<Rightarrow> (Inr (), (q2, s1\<lparr>os_id := i, os_queue := None\<rparr>)))
          else (Inr (), (q1, s1)))"
proof -
  let ?h = "os_header s"
  have s: "os_queue s \<noteq> None" "1 < h_end ?h" "os_chunk_pos s = h_beg ?h + word_of_nat (length cs)"
    using assms(1) by (simp_all add: oq_inv_def Let_def)
  have "os_chunk_pos s \<noteq> h_end ?h"
    using offset_end [of "length cs" "h_end ?h" "h_beg ?h"] assms(2) s(3) by simp
  moreover have "os_chunk_pos s + 1 = h_end ?h \<longleftrightarrow> Suc (length cs) = unat (h_end ?h - h_beg ?h)"
    using offset_end [of "Suc (length cs)" "h_end ?h" "h_beg ?h"] assms(2) s(3)
    by (simp add: add.commute add.left_commute)
  ultimately show ?thesis
    using s(1,2) by (cases "write_chunk L c (os_chunk_pos s) q") (auto simp: oq_write_def Let_def not_le split: sum.split)
qed

lemma oq_write_more:
  assumes "journal_contract L" "queue_inv L Op W q" and s: "oq_inv L W cs q s"
    and more: "Suc (length cs) < unat (h_end (os_header s) - h_beg (os_header s))"
    and w: "oq_write L c q s = (Inr (), (q1, s1))"
  shows "queue_inv L Op W q1" "queue_abs L Op q1 = queue_abs L Op q" "oq_inv L W (cs @ [c]) q1 s1"
    "queue_head q1 = queue_head q" "h_beg (os_header s1) = h_beg (os_header s)" "h_end (os_header s1) = h_end (os_header s)"
proof -
  have lt: "length cs < unat (h_end (os_header s) - h_beg (os_header s))" using more by simp
  have "write_chunk L c (os_chunk_pos s) q = (Inr (), q1)"
    and s1: "s1 = s\<lparr>os_header := (os_header s)\<lparr>h_size := h_size (os_header s) + word_of_nat (length c)\<rparr>,
                    os_chunk_pos := os_chunk_pos s + 1\<rparr>"
    using w more by (auto simp: oq_write_multi [OF s lt] split: prod.splits sum.splits)
  note oq_write_chunk_step [OF assms(1,2) s lt this]
  then show "queue_inv L Op W q1" "queue_abs L Op q1 = queue_abs L Op q" "oq_inv L W (cs @ [c]) q1 s1"
    "queue_head q1 = queue_head q" by simp_all
  show "h_beg (os_header s1) = h_beg (os_header s)" "h_end (os_header s1) = h_end (os_header s)"
    by (simp_all add: s1)
qed

lemma oq_write_last:
  assumes L: "journal_contract L" and inv: "queue_inv L Op W q" and s: "oq_inv L W cs q s"
    and lst: "Suc (length cs) = unat (h_end (os_header s) - h_beg (os_header s))"
    and room: "key_id (queue_head q) + 1 \<noteq> 0" and size: "length (concat (cs @ [c])) < 2 ^ 64"
    and w: "oq_write L c q s = (Inr (), (q2, s2))"
  shows "queue_inv L Op (W - set (id_range (h_beg (os_header s)) (h_end (os_header s)))) q2"
    "queue_abs L Op q2 = fifo_push (os_id s2) (concat (cs @ [c])) (queue_abs L Op q)"
    "os_queue s2 = None" "oq_tell s2 = word_of_nat (length (concat (cs @ [c])))"
proof -
  have lt: "length cs < unat (h_end (os_header s) - h_beg (os_header s))" using lst by simp
  define s1 where "s1 = s\<lparr>os_header := (os_header s)\<lparr>h_size := h_size (os_header s) + word_of_nat (length c)\<rparr>,
                    os_chunk_pos := os_chunk_pos s + 1\<rparr>"
  obtain q1 i where wr: "write_chunk L c (os_chunk_pos s) q = (Inr (), q1)"
    and ph: "push_header L (os_header s1) (os_sync s1) q1 = (Inr i, q2)"
    and s2: "s2 = s1\<lparr>os_id := i, os_queue := None\<rparr>"
    using w lst by (auto simp: oq_write_multi [OF s lt] s1_def Let_def split: prod.splits sum.splits)
  note st = oq_write_chunk_step [OF L inv s lt wr s1_def]
  have h: "h_beg (os_header s1) = h_beg (os_header s)" "h_end (os_header s1) = h_end (os_header s)"
    by (simp_all add: s1_def)
  have s1: "1 < h_end (os_header s1)" "h_end (os_header s1) \<le> key_id (chunks_head q1)"
    "set (id_range (h_beg (os_header s1)) (h_end (os_header s1))) \<subseteq> W"
    "h_size (os_header s1) = word_of_nat (length (concat (cs @ [c])))"
    using st(3) by (simp_all add: oq_inv_def Let_def)
  have "h_beg (os_header s1) \<noteq> h_end (os_header s1)" using lst h by auto
  moreover have "h_beg (os_header s1) \<le> h_end (os_header s1)" using st(3) by (simp add: oq_inv_def Let_def)
  ultimately have beg: "h_beg (os_header s1) < h_end (os_header s1)" by simp
  have chunks: "chunks_of L (journal q1) (os_header s1) = Some (cs @ [c])"
    using st(3) lst h by (simp add: chunks_of_eq oq_inv_def Let_def)
  have "length (concat (cs @ [c])) = unat (h_size (os_header s1))"
    unfolding s1(4) using size by (simp only: unsigned_of_nat take_bit_nat_eq_self_iff) (simp add: take_bit_nat_eq_self)
  from push_header_refines [OF L st(1) _ s1(1) beg s1(2,3) chunks this ph] room st
  show "queue_inv L Op (W - set (id_range (h_beg (os_header s)) (h_end (os_header s)))) q2"
    "queue_abs L Op q2 = fifo_push (os_id s2) (concat (cs @ [c])) (queue_abs L Op q)"
    by (simp_all add: h s2)
  show "os_queue s2 = None" "oq_tell s2 = word_of_nat (length (concat (cs @ [c])))"
    using s1(4) by (simp_all add: s2 oq_tell_def)
qed

lemma oq_writes_multi:
  assumes "journal_contract L" "queue_inv L Op W q" "oq_inv L W cs q s"
    and "length cs + length ds = unat (h_end (os_header s) - h_beg (os_header s))" "ds \<noteq> []"
    and "key_id (queue_head q) + 1 \<noteq> 0" "length (concat (cs @ ds)) < 2 ^ 64"
    and "oq_writes L ds q s = (Inr (), (q2, s2))"
  shows "queue_inv L Op (W - set (id_range (h_beg (os_header s)) (h_end (os_header s)))) q2 \<and>
    queue_abs L Op q2 = fifo_push (os_id s2) (concat (cs @ ds)) (queue_abs L Op q) \<and>
    os_queue s2 = None \<and> oq_tell s2 = word_of_nat (length (concat (cs @ ds)))"
  using assms
proof (induction ds arbitrary: cs q s)
  case Nil
  then show ?case by simp
next
  case (Cons d ds)
  obtain q1 s1 where w: "oq_write L d q s = (Inr (), (q1, s1))" and ws: "oq_writes L ds q1 s1 = (Inr (), (q2, s2))"
    using Cons.prems(8) by (auto split: prod.splits sum.splits)
  show ?case
  proof (cases ds)
    case Nil
    then have lst: "Suc (length cs) = unat (h_end (os_header s) - h_beg (os_header s))"
      and size: "length (concat (cs @ [d])) < 2 ^ 64" using Cons.prems(4,7) by simp_all
    have "q1 = q2" "s1 = s2" using ws Nil by simp_all
    then show ?thesis
      using oq_write_last [OF Cons.prems(1-3) lst Cons.prems(6) size w] Nil by simp
  next
    case (Cons d' ds')
    then have more: "Suc (length cs) < unat (h_end (os_header s) - h_beg (os_header s))"
      using Cons.prems(4) by simp
    note st = oq_write_more [OF Cons.prems(1-3) more w]
    show ?thesis
      using Cons.IH [OF Cons.prems(1) st(1,3) _ _ _ _ ws] Cons.prems(4-7) Cons st by simp
  qed
qed

end
