(* ===== verification/Clients.thy ===== *)
theory Clients
  imports Stream_Write
begin

text \<open>
  All the streams on one queue together. The state is the queue, a family of input streams, a family of output streams
  and, for each stream, the chunks its client has got or put so far; an action is a call of one of the
  streams' methods, a \<^verbatim>\<open>wait\<close> or the completion of a waiter's timer. The actions of different clients
  interleave in any order, and between two of them the queue may be destroyed, which closes its journal and opens it elsewhere.
\<close>

section \<open>State and actions\<close>

record ('db, 'cb) clients =
  c_queue :: "('db, 'cb) queue"
  c_in :: "nat \<Rightarrow> iqstream"
  c_out :: "nat \<Rightarrow> oqstream"
  c_got :: "nat \<Rightarrow> string list"
  c_put :: "nat \<Rightarrow> string list"

datatype 'cb action =
    Open_in nat
  | Read_in nat
  | Close_in nat bool
  | Drop_in nat
  | Open_out nat u64 bool
  | Write_out nat string
  | Cancel_out nat
  | Drop_out nat
  | Wait u64 'cb
  | Wake nat

datatype 'cb event =
    Pushed u64 string string
  | Popped u64
  | Missed
  | Returned u64
  | Erased u64
  | Got nat string
  | Woken 'cb wait_result
  | Failed error
  | Quiet

text \<open>
  \<open>Pushed i x y\<close>: under ticket \<open>i\<close> the bytes \<open>x\<close> were written, in one or more calls, and \<open>y\<close> is what the queue has for
  them and a reader will get. The two differ for a single zero byte only.
\<close>

definition readable :: "oqstream \<Rightarrow> string \<Rightarrow> string" where
  "readable s x = (if h_end (os_header s) > 1 then x else as_read x)"

fun client_step :: "'db leveldb \<Rightarrow> 'cb action \<Rightarrow> ('db, 'cb) clients \<Rightarrow> 'cb event \<times> ('db, 'cb) clients" where
  "client_step L (Open_in k) c = (case iq_open 0 (c_queue c) (c_in c k) of
     (Inl e, (q, s)) \<Rightarrow> (Failed e, c\<lparr>c_queue := q, c_in := (c_in c)(k := s)\<rparr>)
   | (Inr ok, (q, s)) \<Rightarrow>
       if ok then (Popped (is_id s), c\<lparr>c_queue := q, c_in := (c_in c)(k := s), c_got := (c_got c)(k := [])\<rparr>)
       else (Missed, c\<lparr>c_queue := q, c_in := (c_in c)(k := s)\<rparr>))"
| "client_step L (Read_in k) c = (case iq_read L (c_queue c) [] (c_in c k) of
     (Inl e, (r, s)) \<Rightarrow> (Failed e, c\<lparr>c_in := (c_in c)(k := s)\<rparr>)
   | (Inr _, (r, s)) \<Rightarrow> (Got k r, c\<lparr>c_in := (c_in c)(k := s), c_got := (c_got c)(k := c_got c k @ [r])\<rparr>))"
| "client_step L (Close_in k erase) c = (case iq_close L erase (c_queue c) (c_in c k) of
     (Inl e, (q, s)) \<Rightarrow> (Failed e, c\<lparr>c_queue := q, c_in := (c_in c)(k := s)\<rparr>)
   | (Inr _, (q, s)) \<Rightarrow>
       (if is_queue (c_in c k) = None then Quiet
        else if erase then Erased (is_id s) else Returned (is_id s),
        c\<lparr>c_queue := q, c_in := (c_in c)(k := s)\<rparr>))"
| "client_step L (Drop_in k) c =
     (if is_queue (c_in c k) = None then Quiet else Returned (is_id (c_in c k)),
      c\<lparr>c_queue := iq_dtor L (c_queue c) (c_in c k), c_in := (c_in c)(k := iq_new)\<rparr>)"
| "client_step L (Open_out k n sync) c = (case oq_open 0 n sync (c_queue c) (c_out c k) of
     (Inl e, (q, s)) \<Rightarrow> (Failed e, c\<lparr>c_queue := q, c_out := (c_out c)(k := s)\<rparr>)
   | (Inr _, (q, s)) \<Rightarrow> (Quiet, c\<lparr>c_queue := q, c_out := (c_out c)(k := s), c_put := (c_put c)(k := [])\<rparr>))"
| "client_step L (Write_out k x) c = (case oq_write L x (c_queue c) (c_out c k) of
     (Inl e, (q, s)) \<Rightarrow>
       (Failed e, c\<lparr>c_queue := q, c_out := (c_out c)(k := s),
                    c_put := (c_put c)(k := if s = c_out c k then c_put c k else c_put c k @ [x])\<rparr>)
   | (Inr _, (q, s)) \<Rightarrow>
       (if os_queue s = None then Pushed (os_id s) (concat (c_put c k @ [x])) (readable s (concat (c_put c k @ [x]))) else Quiet,
        c\<lparr>c_queue := q, c_out := (c_out c)(k := s), c_put := (c_put c)(k := c_put c k @ [x])\<rparr>))"
| "client_step L (Cancel_out k) c = (case oq_cancel L (c_queue c) (c_out c k) of
     (Inl e, (q, s)) \<Rightarrow> (Failed e, c\<lparr>c_queue := q, c_out := (c_out c)(k := s)\<rparr>)
   | (Inr _, (q, s)) \<Rightarrow> (Quiet, c\<lparr>c_queue := q, c_out := (c_out c)(k := s)\<rparr>))"
| "client_step L (Drop_out k) c =
     (Quiet, c\<lparr>c_queue := oq_dtor L (c_queue c) (c_out c k), c_out := (c_out c)(k := oq_new)\<rparr>)"
| "client_step L (Wait ms cb) c = (Quiet, c\<lparr>c_queue := wait ms cb (c_queue c)\<rparr>)"
| "client_step L (Wake it) c = (case waiter_wakeup it (c_queue c) of
     (Inl e, q) \<Rightarrow> (Failed e, c\<lparr>c_queue := q\<rparr>)
   | (Inr (cb, r), q) \<Rightarrow> (Woken cb r, c\<lparr>c_queue := q\<rparr>))"

text \<open>
  The limits of the sources: 64-bit numbers for items, chunks and sizes do not run out and an item of one chunk is not empty. A waiter's timer
  completes once.
\<close>

fun allowed :: "'cb action \<Rightarrow> ('db, 'cb) clients \<Rightarrow> bool" where
  "allowed (Open_out k n sync) c \<longleftrightarrow> uint (key_id (chunks_head (c_queue c))) + uint n < 2 ^ 64"
| "allowed (Write_out k x) c \<longleftrightarrow> (x = [] \<longrightarrow> 1 < h_end (os_header (c_out c k))) \<and> key_id (queue_head (c_queue c)) + 1 \<noteq> 0 \<and>
     int (length (concat (c_put c k @ [x]))) < 2 ^ 64"
| "allowed (Wake it) c \<longleftrightarrow> it \<in> w_node ` set (waiters (c_queue c))"
| "allowed _ c \<longleftrightarrow> True"

definition clients_start :: "('db, 'cb) queue \<Rightarrow> ('db, 'cb) clients" where
  "clients_start q = \<lparr>c_queue = q, c_in = (\<lambda>k. iq_new), c_out = (\<lambda>k. oq_new), c_got = (\<lambda>k. []), c_put = (\<lambda>k. [])\<rparr>"

inductive reaches :: "'db leveldb \<Rightarrow> ('db, 'cb) clients \<Rightarrow> 'cb event list \<Rightarrow> ('db, 'cb) clients \<Rightarrow> bool"
  for L :: "'db leveldb" and c0 :: "('db, 'cb) clients" where
  start: "reaches L c0 [] c0"
| step: "reaches L c0 tr c \<Longrightarrow> allowed a c \<Longrightarrow> client_step L a c = (ev, c') \<Longrightarrow> reaches L c0 (tr @ [ev]) c'"
| reopen: "reaches L c0 tr c \<Longrightarrow> \<forall>k. ldb_Get L k db = ldb_Get L k (journal (c_queue c)) \<Longrightarrow>
    reaches L c0 (tr @ [Quiet]) (c\<lparr>c_queue := (c_queue c)\<lparr>journal := db, path := p, destroy_flag := b\<rparr>\<rparr>)"

lemma reaches_trans: "reaches L c tr' c' \<Longrightarrow> reaches L c0 tr c \<Longrightarrow> reaches L c0 (tr @ tr') c'"
  by (induction rule: reaches.induct) (auto simp flip: append_assoc intro: reaches.intros)

inductive_cases reaches_snocE: "reaches L c0 (tr @ [ev]) c"

section \<open>Readers\<close>

text \<open>How far a reader has come: \<open>got\<close> are the chunks it was given.\<close>

definition iq_inv :: "'db leveldb \<Rightarrow> 'db \<Rightarrow> iqstream \<Rightarrow> string list \<Rightarrow> bool" where
  "iq_inv L db s got \<longleftrightarrow> iq_fresh (is_id s) s \<and> got = [] \<or>
     (case map_option classify (get_item L db (is_id s)) of
        Some (Single x) \<Rightarrow> got = [x] \<and> is_chunk_pos s = 1 \<and> is_tell s = word_of_nat (length x) \<and>
          is_header s = header_default\<lparr>h_size := word_of_nat (length x)\<rparr>
      | Some (Multi h) \<Rightarrow> (\<exists>cs k. chunks_of L db h = Some cs \<and> 0 < k \<and> k \<le> length cs \<and> got = take k cs \<and> s = iq_at h cs k s)
      | _ \<Rightarrow> False)"

lemma iq_inv_fresh: "iq_fresh (is_id s) s \<Longrightarrow> iq_inv L db s []"
  by (simp add: iq_inv_def)

lemma iq_inv_same:
  assumes "same_item L db db' (is_id s)" "iq_inv L db s got"
  shows "iq_inv L db' s got"
proof -
  have get: "get_item L db' (is_id s) = get_item L db (is_id s)" using assms(1) by (simp add: same_item_def)
  have "chunks_of L db' h = chunks_of L db h" if "map_option classify (get_item L db (is_id s)) = Some (Multi h)" for h
    using assms(1) that by (intro chunks_of_cong) (auto simp: same_item_def chunk_ids_def)
  with assms(2) show ?thesis by (auto simp: iq_inv_def get split: option.splits stored_value.splits)
qed

text \<open>A read either gives the next chunk or, when the reader has the whole item, throws \<^verbatim>\<open>eof\<close>.\<close>

lemma iq_inv_read:
  assumes s: "is_queue s \<noteq> None" "iq_inv L (journal q) s got" and ok: "item_ok L (journal q) hi (is_id s)"
  shows "(\<exists>r s'. iq_read L q res s = (Inr (), (r, s')) \<and> iq_inv L (journal q) s' (got @ [r]) \<and>
           is_queue s' = is_queue s \<and> is_id s' = is_id s) \<or>
         iq_read L q res s = (Inl Eof, (res, s)) \<and> item_of L (journal q) (is_id s) = Some (concat got)"
    (is "?next \<or> ?eof")
proof -
  obtain v where v: "get_item L (journal q) (is_id s) = Some v"
    using ok by (cases "get_item L (journal q) (is_id s)") (simp_all add: item_ok_def)
  show ?thesis
  proof (cases "classify v")
    case (Single x)
    show ?thesis
    proof (cases "iq_fresh (is_id s) s \<and> got = []")
      case True
      then show ?thesis by (simp add: iq_read_single [OF _ v Single] iq_inv_def v Single)
    next
      case False
      then have "got = [x]" "h_end (is_header s) \<le> is_chunk_pos s"
        using s by (auto simp: iq_inv_def v Single)
      then show ?thesis by (simp add: v Single iq_read_at_end item_of_def)
    qed
  next
    case (Multi h)
    then have h: "header_ok L (journal q) hi h" using ok v by (simp add: item_ok_def)
    then obtain cs where cs: "chunks_of L (journal q) h = Some cs" by (auto simp: header_ok_def)
    have len: "length cs = unat (h_end h - h_beg h)" "0 < length cs"
      using cs h by (auto simp: chunks_of_eq header_ok_def unat_gt_0)
    show ?thesis
    proof (cases "iq_fresh (is_id s) s \<and> got = []")
      case True
      have "iq_inv L (journal q) (iq_at h cs 1 s) [cs ! 0]"
        using len(2) by (auto simp: iq_inv_def iq_at_def v Multi cs take_Suc_conv_app_nth Suc_le_eq intro!: exI [of _ 1])
      then show ?thesis
        using True iq_read_chunk_first [OF _ v Multi h cs] by (simp add: iq_at_def)
    next
      case False
      then obtain k where k: "0 < k" "k \<le> length cs" "got = take k cs" "s = iq_at h cs k s"
        using s by (auto simp: iq_inv_def v Multi cs)
      define s0 where "s0 = s\<lparr>is_header := header_default, is_chunk_pos := 0, is_tell := 0\<rparr>"
      have s0: "iq_fresh (is_id s) s0" "iq_at h cs k s0 = s" "\<And>j. iq_at h cs j s0 = iq_at h cs j s"
        using s k(4) by (simp_all add: iq_fresh_def s0_def iq_at_def)
      show ?thesis
      proof (cases "k < length cs")
        case True
        have "iq_read L q res s = (Inr (), (cs ! k, iq_at h cs (Suc k) s))"
          using iq_read_chunk_next [OF s0(1) h cs k(1) True] s0(2,3) by simp
        moreover have "iq_inv L (journal q) (iq_at h cs (Suc k) s) (got @ [cs ! k])"
          using True by (auto simp: iq_inv_def iq_at_def v Multi cs k(3) take_Suc_conv_app_nth intro!: exI [of _ "Suc k"])
        ultimately show ?thesis by (simp add: iq_at_def)
      next
        case False
        then have n: "k = length cs" using k(2) by simp
        have "is_chunk_pos s = h_beg h + word_of_nat k" "is_header s = h"
          by (subst k(4), simp add: iq_at_def)+
        then have "is_chunk_pos s = h_end (is_header s)" "got = cs"
          using n k(3) len by simp_all
        then show ?thesis by (simp add: iq_read_at_end item_of_def v Multi cs)
      qed
    qed
  next
    case Corrupt
    then show ?thesis using ok v by (simp add: item_ok_def)
  qed
qed

lemma iq_inv_erase_header: "iq_inv L db s got \<Longrightarrow> erase_header L db (is_id s) (is_header s)"
  by (auto simp: iq_inv_def iq_fresh_def erase_header_def header_for_def iq_at_def
      split: option.splits stored_value.splits dest: arg_cong [of _ _ is_header])

section \<open>Writers\<close>

definition oq_ok :: "'db leveldb \<Rightarrow> u64 set \<Rightarrow> string list \<Rightarrow> ('db, 'cb) queue \<Rightarrow> oqstream \<Rightarrow> bool" where
  "oq_ok L W cs q s \<longleftrightarrow> (if 1 < h_end (os_header s) then oq_inv L W cs q s
     else os_header s = header_default \<and> os_chunk_pos s = 0 \<and> cs = [])"

definition out_range :: "oqstream \<Rightarrow> u64 set" where
  "out_range s = (if os_queue s \<noteq> None then set (header_chunks (os_header s)) else {})"

lemma oq_inv_frame:
  assumes "oq_inv L W cs q s" "out_range s \<subseteq> W'" "\<And>c. c \<in> out_range s \<Longrightarrow> get_chunk L (journal q') c = get_chunk L (journal q) c"
    and "key_id (chunks_head q) \<le> key_id (chunks_head q')"
  shows "oq_inv L W' cs q' s"
proof -
  let ?b = "h_beg (os_header s)" and ?e = "h_end (os_header s)"
  have s: "os_queue s \<noteq> None" "1 < ?e" "length cs \<le> unat (?e - ?b)" using assms(1) by (simp_all add: oq_inv_def Let_def)
  then have r: "out_range s = set (id_range ?b ?e)" by (auto simp: out_range_def header_chunks_def)
  have "?b + word_of_nat k \<in> out_range s" if "k < length cs" for k
    unfolding r id_range_eq using that s(3) by auto
  then have "get_chunk L (journal q') (?b + word_of_nat k) = get_chunk L (journal q) (?b + word_of_nat k)" if "k < length cs" for k
    using assms(3) that by blast
  with assms(1,2,4) show ?thesis by (auto simp: oq_inv_def Let_def r intro: order_trans)
qed

lemma oq_ok_frame:
  assumes "oq_ok L W cs q s" "out_range s \<subseteq> W'" "\<And>c. c \<in> out_range s \<Longrightarrow> get_chunk L (journal q') c = get_chunk L (journal q) c"
    and "key_id (chunks_head q) \<le> key_id (chunks_head q')"
  shows "oq_ok L W' cs q' s"
  using assms oq_inv_frame [OF _ assms(2-4)] by (auto simp: oq_ok_def split: if_splits)

section \<open>The invariant\<close>

definition held :: "('db, 'cb) clients \<Rightarrow> u64 set" where
  "held c = {i. \<exists>k. is_queue (c_in c k) \<noteq> None \<and> is_id (c_in c k) = i}"

definition reserved :: "('db, 'cb) clients \<Rightarrow> u64 set" where
  "reserved c = (\<Union>k. out_range (c_out c k))"

definition ins_inv :: "'db leveldb \<Rightarrow> ('db, 'cb) clients \<Rightarrow> bool" where
  "ins_inv L c \<longleftrightarrow>
     (\<forall>j k. is_queue (c_in c j) \<noteq> None \<longrightarrow> is_queue (c_in c k) \<noteq> None \<longrightarrow> is_id (c_in c j) = is_id (c_in c k) \<longrightarrow> j = k) \<and>
     (\<forall>k. is_queue (c_in c k) \<noteq> None \<longrightarrow> iq_inv L (journal (c_queue c)) (c_in c k) (c_got c k))"

definition outs_inv :: "'db leveldb \<Rightarrow> ('db, 'cb) clients \<Rightarrow> bool" where
  "outs_inv L c \<longleftrightarrow> (\<forall>j k. j \<noteq> k \<longrightarrow> out_range (c_out c j) \<inter> out_range (c_out c k) = {}) \<and>
     (\<forall>k. os_queue (c_out c k) \<noteq> None \<longrightarrow> oq_ok L (reserved c) (c_put c k) (c_queue c) (c_out c k))"

definition clients_inv :: "'db leveldb \<Rightarrow> ('db, 'cb) clients \<Rightarrow> bool" where
  "clients_inv L c \<longleftrightarrow> queue_inv L (held c) (reserved c) (c_queue c) \<and> ins_inv L c \<and> outs_inv L c"

definition clients_abs :: "'db leveldb \<Rightarrow> ('db, 'cb) clients \<Rightarrow> (u64, string) fifo" where
  "clients_abs L c = queue_abs L (held c) (c_queue c)"

text \<open>How the ghost sets move when one stream changes.\<close>

lemma held_open:
  "is_queue (c_in c k) = None \<Longrightarrow> is_queue s \<noteq> None \<Longrightarrow> held (c\<lparr>c_in := (c_in c)(k := s)\<rparr>) = insert (is_id s) (held c)"
  by (auto simp: held_def split: if_splits) (metis option.distinct(1))+

lemma held_same:
  assumes "is_queue s = is_queue (c_in c k)" "is_id s = is_id (c_in c k)"
  shows "held (c\<lparr>c_in := (c_in c)(k := s)\<rparr>) = held c"
proof -
  have "is_queue (((c_in c)(k := s)) j) = is_queue (c_in c j)" "is_id (((c_in c)(k := s)) j) = is_id (c_in c j)" for j
    using assms by simp_all
  then show ?thesis by (simp add: held_def)
qed

lemma held_close:
  assumes "ins_inv L c" "is_queue (c_in c k) \<noteq> None" "is_queue s = None"
  shows "held (c\<lparr>c_in := (c_in c)(k := s)\<rparr>) = held c - {is_id (c_in c k)}"
proof -
  have "is_id (c_in c j) \<noteq> is_id (c_in c k)" if "j \<noteq> k" "is_queue (c_in c j) \<noteq> None" for j
    using assms(1,2) that unfolding ins_inv_def by blast
  with assms(2,3) show ?thesis by (fastforce simp: held_def split: if_splits)
qed

lemma held_cong [simp]: "held (c\<lparr>c_queue := q\<rparr>) = held c" "held (c\<lparr>c_out := f\<rparr>) = held c"
  "held (c\<lparr>c_got := g\<rparr>) = held c" "held (c\<lparr>c_put := p\<rparr>) = held c"
  by (simp_all add: held_def)

lemma reserved_cong [simp]: "reserved (c\<lparr>c_queue := q\<rparr>) = reserved c" "reserved (c\<lparr>c_in := i\<rparr>) = reserved c"
  "reserved (c\<lparr>c_got := g\<rparr>) = reserved c" "reserved (c\<lparr>c_put := p\<rparr>) = reserved c"
  by (simp_all add: reserved_def)

lemma reserved_upd:
  "reserved (c\<lparr>c_out := (c_out c)(k := s)\<rparr>) = (\<Union>j \<in> - {k}. out_range (c_out c j)) \<union> out_range s"
  by (auto simp: reserved_def split: if_splits)

end
