(* ===== verification/Clients_Inv.thy ===== *)
theory Clients_Inv
  imports Clients
begin

text \<open>
  Every action of every client keeps the invariant, and acts on the abstract queue as its event says.
\<close>

section \<open>What an event does to the abstract queue\<close>

fun fifo_event :: "'cb event \<Rightarrow> (u64, string) fifo \<Rightarrow> (u64, string) fifo \<Rightarrow> bool" where
  "fifo_event (Pushed i x y) a b \<longleftrightarrow> b = fifo_push i y a"
| "fifo_event (Popped i) a b \<longleftrightarrow> fifo_pop a = (Some i, b)"
| "fifo_event Missed a b \<longleftrightarrow> f_ready a = [] \<and> b = a"
| "fifo_event (Returned i) a b \<longleftrightarrow> i \<in> dom (f_held a) \<and> b = fifo_return i a"
| "fifo_event (Erased i) a b \<longleftrightarrow> i \<in> dom (f_held a) \<and> b = fifo_erase i a"
| "fifo_event _ a b \<longleftrightarrow> b = a"

section \<open>Frames\<close>

lemma clients_triv [simp]: "c\<lparr>c_queue := c_queue c\<rparr> = c" "c\<lparr>c_in := c_in c\<rparr> = c" "c\<lparr>c_out := c_out c\<rparr> = c" "c\<lparr>c_put := c_put c\<rparr> = c"
  by (cases c; simp)+

lemma ins_inv_upd:
  assumes "ins_inv L c" "c_in c' = (c_in c)(k := s)" "\<And>j. j \<noteq> k \<Longrightarrow> c_got c' j = c_got c j"
    and "\<And>j. j \<noteq> k \<Longrightarrow> is_queue (c_in c j) \<noteq> None \<Longrightarrow>
           same_item L (journal (c_queue c)) (journal (c_queue c')) (is_id (c_in c j))"
    and "is_queue s \<noteq> None \<Longrightarrow> iq_inv L (journal (c_queue c')) s (c_got c' k)"
    and "\<And>j. is_queue s \<noteq> None \<Longrightarrow> j \<noteq> k \<Longrightarrow> is_queue (c_in c j) \<noteq> None \<Longrightarrow> is_id (c_in c j) \<noteq> is_id s"
  shows "ins_inv L c'"
proof -
  have inn: "c_in c' j = (if j = k then s else c_in c j)" for j using assms(2) by simp
  have "iq_inv L (journal (c_queue c')) (c_in c' j) (c_got c' j)" if "is_queue (c_in c' j) \<noteq> None" for j
  proof (cases "j = k")
    case True
    then show ?thesis using assms(5) that by (simp add: inn)
  next
    case False
    then have "is_queue (c_in c j) \<noteq> None" using that by (simp add: inn)
    moreover from this have "iq_inv L (journal (c_queue c)) (c_in c j) (c_got c j)"
      using assms(1) by (simp add: ins_inv_def)
    ultimately show ?thesis using iq_inv_same [OF assms(4)] False by (simp add: inn assms(3))
  qed
  moreover have "i = j" if "is_queue (c_in c' i) \<noteq> None" "is_queue (c_in c' j) \<noteq> None" "is_id (c_in c' i) = is_id (c_in c' j)" for i j
    using that assms(1,6) unfolding inn ins_inv_def by metis
  ultimately show ?thesis by (simp only: ins_inv_def) blast
qed

lemma ins_inv_frame:
  assumes "ins_inv L c" "c_in c' = c_in c" "c_got c' = c_got c"
    and "\<And>i. i \<in> held c \<Longrightarrow> same_item L (journal (c_queue c)) (journal (c_queue c')) i"
  shows "ins_inv L c'"
proof -
  have "iq_inv L (journal (c_queue c')) (c_in c k) (c_got c k)" if "is_queue (c_in c k) \<noteq> None" for k
  proof -
    have "is_id (c_in c k) \<in> held c" using that by (auto simp: held_def)
    then show ?thesis using assms(1) that by (intro iq_inv_same [OF assms(4)]) (simp_all add: ins_inv_def)
  qed
  with assms(1-3) show ?thesis by (simp add: ins_inv_def)
qed

lemma out_range_reserved: "out_range (c_out c k) \<subseteq> reserved c"
  by (auto simp: reserved_def)

lemma outs_inv_upd:
  assumes "outs_inv L c" "c_out c' = (c_out c)(k := s)" "\<And>j. j \<noteq> k \<Longrightarrow> c_put c' j = c_put c j"
    and "\<And>j d. j \<noteq> k \<Longrightarrow> d \<in> out_range (c_out c j) \<Longrightarrow> get_chunk L (journal (c_queue c')) d = get_chunk L (journal (c_queue c)) d"
    and "key_id (chunks_head (c_queue c)) \<le> key_id (chunks_head (c_queue c'))"
    and "\<And>j. j \<noteq> k \<Longrightarrow> out_range (c_out c j) \<inter> out_range s = {}"
    and "os_queue s \<noteq> None \<Longrightarrow> oq_ok L (reserved c') (c_put c' k) (c_queue c') s"
  shows "outs_inv L c'"
proof -
  have out: "c_out c' j = (if j = k then s else c_out c j)" for j using assms(2) by simp
  have "oq_ok L (reserved c') (c_put c j) (c_queue c') (c_out c j)" if "j \<noteq> k" "os_queue (c_out c j) \<noteq> None" for j
    using assms(1,5) that out_range_reserved [of c' j]
    by (intro oq_ok_frame [of L "reserved c" _ "c_queue c", OF _ _ assms(4) [OF that(1)]]) (simp_all add: out outs_inv_def)
  then have "oq_ok L (reserved c') (c_put c' j) (c_queue c') (c_out c' j)" if "os_queue (c_out c' j) \<noteq> None" for j
    using assms(3,7) that by (auto simp: out split: if_splits)
  moreover have "out_range (c_out c' i) \<inter> out_range (c_out c' j) = {}" if "i \<noteq> j" for i j
    using assms(1,6) that by (auto simp: out outs_inv_def Int_commute)
  ultimately show ?thesis by (simp add: outs_inv_def)
qed

lemma outs_inv_frame:
  assumes "outs_inv L c" "c_out c' = c_out c" "c_put c' = c_put c"
    and "\<And>d. d \<in> reserved c \<Longrightarrow> get_chunk L (journal (c_queue c')) d = get_chunk L (journal (c_queue c)) d"
    and "key_id (chunks_head (c_queue c)) \<le> key_id (chunks_head (c_queue c'))"
  shows "outs_inv L c'"
proof -
  have "reserved c' = reserved c" using assms(2) by (simp add: reserved_def)
  moreover have "oq_ok L (reserved c) (c_put c k) (c_queue c') (c_out c k)" if "os_queue (c_out c k) \<noteq> None" for k
  proof (rule oq_ok_frame [OF _ out_range_reserved assms(4,5)])
    show "oq_ok L (reserved c) (c_put c k) (c_queue c) (c_out c k)"
      using assms(1) that by (simp add: outs_inv_def)
  qed (use out_range_reserved [of c k] in blast)
  ultimately show ?thesis using assms(1-3) by (simp add: outs_inv_def)
qed

text \<open>A write that failed has changed nothing that can be read.\<close>

lemma same_gets:
  assumes "\<And>k. ldb_Get L k db' = ldb_Get L k db"
  shows "same_item L db db' i" "get_chunk L db' d = get_chunk L db d" "stored L db' = stored L db"
  using assms by (simp_all add: same_item_def get_item_def get_chunk_def stored_def)

lemma clients_inv_failed:
  assumes "clients_inv L c" "\<And>k. ldb_Get L k db = ldb_Get L k (journal (c_queue c))"
  shows "clients_inv L (c\<lparr>c_queue := (c_queue c)\<lparr>journal := db\<rparr>\<rparr>)"
    "clients_abs L (c\<lparr>c_queue := (c_queue c)\<lparr>journal := db\<rparr>\<rparr>) = clients_abs L c"
proof -
  have q: "queue_inv L (held c) (reserved c) (c_queue c)" using assms(1) by (simp add: clients_inv_def)
  note same = same_gets [OF assms(2)]
  have st: "stored L db \<subseteq> Collect is_key_slice" using queue_inv_stored [OF q] by (simp add: same)
  note f = queue_inv_journal [OF q same(1) st subset_refl]
  have "ins_inv L (c\<lparr>c_queue := (c_queue c)\<lparr>journal := db\<rparr>\<rparr>)" "outs_inv L (c\<lparr>c_queue := (c_queue c)\<lparr>journal := db\<rparr>\<rparr>)"
    using assms(1) same by (auto simp: clients_inv_def intro: ins_inv_frame [of L c] outs_inv_frame [of L c])
  then show "clients_inv L (c\<lparr>c_queue := (c_queue c)\<lparr>journal := db\<rparr>\<rparr>)"
    "clients_abs L (c\<lparr>c_queue := (c_queue c)\<lparr>journal := db\<rparr>\<rparr>) = clients_abs L c"
    using f by (simp_all add: clients_inv_def clients_abs_def)
qed

end
