(* ===== verification/Clients_Step.thy ===== *)
theory Clients_Step
  imports Clients_Inv
begin

text \<open>One lemma per action: it keeps the invariant and refines its event.\<close>

definition good_step :: "'db leveldb \<Rightarrow> ('db, 'cb) clients \<Rightarrow> 'cb event \<Rightarrow> ('db, 'cb) clients \<Rightarrow> bool" where
  "good_step L c ev c' \<longleftrightarrow> clients_inv L c' \<and> fifo_event ev (clients_abs L c) (clients_abs L c')"

lemma clients_invD:
  assumes "clients_inv L c"
  shows "queue_inv L (held c) (reserved c) (c_queue c)" "ins_inv L c" "outs_inv L c" "ids_inv (held c) (c_queue c)"
  using assms by (simp_all add: clients_inv_def queue_inv_def)

lemma queue_inv_item_ok:
  "queue_inv L Op W q \<Longrightarrow> i \<in> Op \<Longrightarrow> item_ok L (journal q) (key_id (chunks_head q)) i"
  by (simp add: queue_inv_def journal_inv_def)

lemma held_item:
  assumes "clients_inv L c" "is_queue (c_in c k) \<noteq> None"
  shows "is_id (c_in c k) \<in> held c" "is_id (c_in c k) \<in> dom (f_held (clients_abs L c))"
    "iq_inv L (journal (c_queue c)) (c_in c k) (c_got c k)"
proof -
  show h: "is_id (c_in c k) \<in> held c" using assms(2) by (auto simp: held_def)
  from queue_inv_item_ok [OF clients_invD(1) [OF assms(1)] h]
  show "is_id (c_in c k) \<in> dom (f_held (clients_abs L c))"
    using h by (auto simp: clients_abs_def queue_abs_def elim: item_okE)
  show "iq_inv L (journal (c_queue c)) (c_in c k) (c_got c k)"
    using clients_invD(2) [OF assms(1)] assms(2) by (simp add: ins_inv_def)
qed

section \<open>Input streams\<close>

lemma open_in_good:
  assumes inv: "clients_inv L c" and step: "client_step L (Open_in k) c = (ev, c')"
  shows "good_step L c ev c'"
proof (cases "is_queue (c_in c k)")
  case (Some a)
  then show ?thesis using step inv by (auto simp: iq_open_def good_step_def)
next
  case None
  note q = clients_invD [OF inv]
  from q(4) show ?thesis
  proof (cases rule: pop_begin_cases)
    case empty
    then show ?thesis
      using step inv None by (auto simp: iq_open_def good_step_def clients_abs_def queue_abs_def)
  next
    case (item i r q')
    let ?s = "(c_in c k)\<lparr>is_id := i, is_queue := Some 0, is_header := header_default, is_chunk_pos := h_beg header_default, is_tell := 0\<rparr>"
    have c': "c' = c\<lparr>c_queue := q', c_in := (c_in c)(k := ?s), c_got := (c_got c)(k := [])\<rparr>" and ev: "ev = Popped i"
      using step None item(2) by (auto simp: iq_open_def)
    have h: "held c' = insert i (held c)" using held_open [OF None, of ?s] by (simp add: c' held_def)
    have r: "reserved c' = reserved c" by (simp add: c' reserved_def)
    note p = pop_begin_refines [OF q(1) item(2), unfolded held_after_def, simplified]
    have "i \<notin> held c" using held_not_ready [OF q(4)] item(1) by auto
    then have fresh: "is_id (c_in c j) \<noteq> i" if "is_queue (c_in c j) \<noteq> None" for j
      using that unfolding held_def by blast
    have "ins_inv L c'"
      using fresh by (intro ins_inv_upd [OF q(2), of _ k ?s]) (auto simp: c' item(5) iq_fresh_def intro: iq_inv_fresh)
    moreover have "outs_inv L c'"
      by (rule outs_inv_frame [OF q(3)]) (simp_all add: c' item)
    moreover have "queue_inv L (held c') (reserved c') (c_queue c')"
      using p by (simp add: h r) (simp add: c')
    moreover have "fifo_event ev (clients_abs L c) (clients_abs L c')"
      using p by (simp add: ev clients_abs_def h prod_eq_iff) (simp add: c')
    ultimately show ?thesis by (simp add: good_step_def clients_inv_def)
  qed
qed

lemma clients_abs_cong:
  "c_queue c' = c_queue c \<Longrightarrow> held c' = held c \<Longrightarrow> clients_abs L c' = clients_abs L c"
  by (simp add: clients_abs_def)

lemma read_in_good:
  assumes inv: "clients_inv L c" and step: "client_step L (Read_in k) c = (ev, c')"
  shows "good_step L c ev c'"
proof (cases "is_queue (c_in c k)")
  case None
  then show ?thesis using step inv by (auto simp: iq_read_def good_step_def)
next
  case (Some a)
  then have op: "is_queue (c_in c k) \<noteq> None" by simp
  note q = clients_invD [OF inv] and h = held_item [OF inv op]
  from iq_inv_read [OF op h(3) queue_inv_item_ok [OF q(1) h(1)], of "[]"]
  show ?thesis
  proof (elim disjE exE conjE)
    fix r s assume rd: "iq_read L (c_queue c) [] (c_in c k) = (Inr (), (r, s))"
      and s: "iq_inv L (journal (c_queue c)) s (c_got c k @ [r])" "is_queue s = is_queue (c_in c k)" "is_id s = is_id (c_in c k)"
    have c': "c' = c\<lparr>c_in := (c_in c)(k := s), c_got := (c_got c)(k := c_got c k @ [r])\<rparr>" and ev: "ev = Got k r"
      using step rd by auto
    have same: "held c' = held c" "reserved c' = reserved c" "c_queue c' = c_queue c"
      using held_same [OF s(2,3)] by (simp_all add: c' held_def reserved_def)
    have "is_id (c_in c j) \<noteq> is_id s" if "j \<noteq> k" "is_queue (c_in c j) \<noteq> None" for j
      using q(2) that op s(3) unfolding ins_inv_def by metis
    then have "ins_inv L c'"
      using s(1) by (intro ins_inv_upd [OF q(2), of _ k s]) (auto simp: c')
    moreover have "outs_inv L c'" by (rule outs_inv_frame [OF q(3)]) (simp_all add: c')
    ultimately show ?thesis
      using q(1) by (simp add: good_step_def clients_inv_def ev same clients_abs_cong [OF same(3,1)])
  qed (use step inv in \<open>auto simp: good_step_def\<close>)
qed

text \<open>Any way of closing: the queue after it is given.\<close>

lemma closed_in:
  assumes inv: "clients_inv L c" and op: "is_queue (c_in c k) \<noteq> None"
    and c': "c' = c\<lparr>c_queue := q', c_in := (c_in c)(k := s)\<rparr>" and s: "is_queue s = None"
    and q': "queue_inv L (held c - {is_id (c_in c k)}) (reserved c) q'"
    and same: "\<And>j. j \<in> held c \<Longrightarrow> j \<noteq> is_id (c_in c k) \<Longrightarrow> same_item L (journal (c_queue c)) (journal q') j"
    and chunks: "\<And>d. d \<in> reserved c \<Longrightarrow> get_chunk L (journal q') d = get_chunk L (journal (c_queue c)) d"
    and hi: "chunks_head q' = chunks_head (c_queue c)"
  shows "clients_inv L c'" "clients_abs L c' = queue_abs L (held c - {is_id (c_in c k)}) q'"
proof -
  note q = clients_invD [OF inv]
  have h: "held c' = held c - {is_id (c_in c k)}"
    using held_close [OF q(2) op s] by (simp add: c' held_def)
  then show "clients_abs L c' = queue_abs L (held c - {is_id (c_in c k)}) q'"
    by (simp add: clients_abs_def) (simp add: c')
  have "is_id (c_in c j) \<in> held c \<and> is_id (c_in c j) \<noteq> is_id (c_in c k)" if "j \<noteq> k" "is_queue (c_in c j) \<noteq> None" for j
    using q(2) that op unfolding ins_inv_def held_def by blast
  then have "ins_inv L c'"
    using same s by (intro ins_inv_upd [OF q(2), of _ k s]) (auto simp: c')
  moreover have "outs_inv L c'"
    by (rule outs_inv_frame [OF q(3)]) (use chunks hi in \<open>simp_all add: c'\<close>)
  moreover have "queue_inv L (held c') (reserved c') (c_queue c')"
    using q' by (simp add: h) (simp add: c' reserved_def)
  ultimately show "clients_inv L c'" by (simp add: clients_inv_def)
qed

lemma returned_in:
  assumes inv: "clients_inv L c" and op: "is_queue (c_in c k) \<noteq> None"
    and pop: "pop_end L False (is_id (c_in c k)) h (c_queue c) = (r, q')"
    and c': "c' = c\<lparr>c_queue := q', c_in := (c_in c)(k := s)\<rparr>" and s: "is_queue s = None"
  shows "good_step L c (Returned (is_id (c_in c k))) c'"
proof -
  note q = clients_invD [OF inv] and h = held_item [OF inv op]
  note p = pop_return_refines [OF q(1) h(1) pop] and ids = pop_return_ids [OF q(4) h(1) pop]
  note cl = closed_in [OF inv op c' s p(2)]
  show ?thesis
    using cl ids h(2) p(3) by (simp add: good_step_def) (simp add: clients_abs_def)
qed

lemma close_in_good:
  assumes L: "journal_contract L" and F: "failed_write_invisible L"
    and inv: "clients_inv L c" and step: "client_step L (Close_in k erase) c = (ev, c')"
  shows "good_step L c ev c'"
proof (cases "is_queue (c_in c k)")
  case None
  then show ?thesis using step inv by (auto simp: iq_close_def good_step_def)
next
  case (Some a)
  then have op: "is_queue (c_in c k) \<noteq> None" by simp
  note q = clients_invD [OF inv] and h = held_item [OF inv op]
  obtain r q' where pop: "pop_end L erase (is_id (c_in c k)) (is_header (c_in c k)) (c_queue c) = (r, q')" by fastforce
  let ?s = "(c_in c k)\<lparr>is_queue := None\<rparr>"
  consider (ret) "\<not> erase" | (ers) "erase" "r = Inr ()" | (bad) e where "erase" "r = Inl e"
    by (cases erase; cases r) auto
  then show ?thesis
  proof cases
    case ret
    then have pop': "pop_end L False (is_id (c_in c k)) (is_header (c_in c k)) (c_queue c) = (r, q')" using pop by simp
    moreover have "r = Inr ()" using pop_return_refines(1) [OF q(1) h(1) pop'] .
    ultimately show ?thesis
      using step Some ret returned_in [OF inv op pop' refl, of ?s] by (auto simp: iq_close_def)
  next
    case ers
    then have pop': "pop_end L True (is_id (c_in c k)) (is_header (c_in c k)) (c_queue c) = (Inr (), q')" using pop by simp
    note eh = iq_inv_erase_header [OF h(3)]
    note p = pop_erase_refines [OF L q(1) h(1) eh pop'] and fr = pop_erase_frame [OF L q(1) h(1) eh pop']
    have c': "c' = c\<lparr>c_queue := q', c_in := (c_in c)(k := ?s)\<rparr>" and ev: "ev = Erased (is_id (c_in c k))"
      using step Some ers pop' by (auto simp: iq_close_def)
    have hi: "chunks_head q' = chunks_head (c_queue c)"
      using pop_erase_cases [OF L queue_inv_stored [OF q(1)] pop'] by (metis queue.select_convs(4) queue.update_convs(1,5,6) queue.surjective)
    note cl = closed_in [OF inv op c' _ p(1) _ _ hi]
    have "clients_inv L c'" "clients_abs L c' = queue_abs L (held c - {is_id (c_in c k)}) q'"
      using fr cl by auto
    then show ?thesis using p(2) h(2) by (simp add: good_step_def ev) (simp add: clients_abs_def)
  next
    case bad
    then obtain db where db: "q' = (c_queue c)\<lparr>journal := db\<rparr>"
      "ldb_Write L (map key_slice (erase_keys (is_id (c_in c k)) (is_header (c_in c k)))) (journal (c_queue c)) = (False, db)"
      using pop_erase_failed [OF L queue_inv_stored [OF q(1)]] pop by metis
    then have "ldb_Get L k db = ldb_Get L k (journal (c_queue c))" for k
      using F unfolding failed_write_invisible_def by blast
    note f = clients_inv_failed [OF inv this]
    show ?thesis
      using step Some bad pop db(1) f by (auto simp: iq_close_def good_step_def)
  qed
qed

lemma drop_in_good:
  assumes inv: "clients_inv L c" and step: "client_step L (Drop_in k) c = (ev, c')"
  shows "good_step L c ev c'"
proof (cases "is_queue (c_in c k)")
  case None
  then have c': "c' = c\<lparr>c_in := (c_in c)(k := iq_new)\<rparr>" and ev: "ev = Quiet" using step by (auto simp: iq_dtor_def)
  note q = clients_invD [OF inv]
  have "held c' = held c"
    using None by (auto simp: c' held_def iq_new_def split: if_splits) (metis option.distinct(1))+
  moreover have "ins_inv L c'"
    by (rule ins_inv_upd [OF q(2), of _ k iq_new]) (simp_all add: c' iq_new_def)
  moreover have "outs_inv L c'" by (rule outs_inv_frame [OF q(3)]) (simp_all add: c')
  moreover have "c_queue c' = c_queue c" "reserved c' = reserved c" by (simp_all add: c' reserved_def)
  ultimately show ?thesis
    using q(1) by (simp add: good_step_def ev clients_inv_def clients_abs_cong [of c' c])
next
  case (Some a)
  then have op: "is_queue (c_in c k) \<noteq> None" by simp
  obtain r q' where pop: "pop_end L False (is_id (c_in c k)) (is_header (c_in c k)) (c_queue c) = (r, q')" by fastforce
  show ?thesis
    using step Some pop returned_in [OF inv op pop refl, of iq_new] by (auto simp: iq_dtor_def iq_new_def)
qed

section \<open>Output streams\<close>

definition other_ranges :: "('db, 'cb) clients \<Rightarrow> nat \<Rightarrow> u64 set" where
  "other_ranges c k = (\<Union>j \<in> - {k}. out_range (c_out c j))"

lemma reserved_split: "reserved c = other_ranges c k \<union> out_range (c_out c k)"
  by (auto simp: reserved_def other_ranges_def)

lemma reserved_out: "c_out c' = (c_out c)(k := s) \<Longrightarrow> reserved c' = other_ranges c k \<union> out_range s"
  by (auto simp: reserved_def other_ranges_def split: if_splits)

lemma others_disjoint: "outs_inv L c \<Longrightarrow> other_ranges c k \<inter> out_range (c_out c k) = {}"
  unfolding outs_inv_def other_ranges_def by blast

lemma changed_out:
  assumes inv: "clients_inv L c" and c': "c' = c\<lparr>c_queue := q', c_out := (c_out c)(k := s), c_put := (c_put c)(k := p)\<rparr>"
    and q': "queue_inv L (held c) (other_ranges c k \<union> out_range s) q'"
    and same: "\<And>j. j \<in> held c \<Longrightarrow> same_item L (journal (c_queue c)) (journal q') j"
    and chunks: "\<And>d. d \<in> other_ranges c k \<Longrightarrow> get_chunk L (journal q') d = get_chunk L (journal (c_queue c)) d"
    and hi: "key_id (chunks_head (c_queue c)) \<le> key_id (chunks_head q')"
    and disj: "other_ranges c k \<inter> out_range s = {}"
    and ok: "os_queue s \<noteq> None \<Longrightarrow> oq_ok L (other_ranges c k \<union> out_range s) p q' s"
  shows "clients_inv L c'"
proof -
  note q = clients_invD [OF inv]
  have r: "reserved c' = other_ranges c k \<union> out_range s" by (rule reserved_out) (simp add: c')
  have h: "held c' = held c" by (simp add: c')
  have sub: "out_range (c_out c j) \<subseteq> other_ranges c k" if "j \<noteq> k" for j using that by (auto simp: other_ranges_def)
  have "ins_inv L c'" by (rule ins_inv_frame [OF q(2)]) (use same in \<open>simp_all add: c'\<close>)
  moreover have "outs_inv L c'"
  proof (rule outs_inv_upd [OF q(3), of _ k s])
    show "get_chunk L (journal (c_queue c')) d = get_chunk L (journal (c_queue c)) d"
      if "j \<noteq> k" "d \<in> out_range (c_out c j)" for j d
      using chunks sub that by (auto simp: c')
    show "out_range (c_out c j) \<inter> out_range s = {}" if "j \<noteq> k" for j using sub [OF that] disj by blast
    show "oq_ok L (reserved c') (c_put c' k) (c_queue c') s" if "os_queue s \<noteq> None"
      using ok [OF that] by (simp add: r) (simp add: c')
  qed (use hi in \<open>simp_all add: c'\<close>)
  moreover have "queue_inv L (held c') (reserved c') (c_queue c')" using q' by (simp add: h r) (simp add: c')
  ultimately show "clients_inv L c'" by (simp add: clients_inv_def)
qed

lemma closed_range [simp]: "os_queue s = None \<Longrightarrow> out_range s = {}"
  by (simp add: out_range_def)

lemma default_range [simp]: "h_end (os_header s) \<le> 1 \<Longrightarrow> out_range s = {}"
  by (auto simp: out_range_def header_chunks_def)

lemma open_out_good:
  assumes inv: "clients_inv L c" and al: "allowed (Open_out k n sync :: 'cb action) (c :: ('db, 'cb) clients)"
    and step: "client_step L (Open_out k n sync) c = (ev, c')"
  shows "good_step L c ev c'"
proof (cases "os_queue (c_out c k)")
  case (Some a)
  then show ?thesis using step inv by (auto simp: oq_open_def good_step_def)
next
  case None
  note q = clients_invD [OF inv]
  have rs: "reserved c = other_ranges c k" using reserved_split [of c k] None by simp
  obtain h q' where hq: "(if n > 1 then reserve_chunks n (c_queue c) else (header_default, c_queue c)) = (h, q')" by fastforce
  let ?s = "(c_out c k)\<lparr>os_sync := sync, os_queue := Some 0, os_header := h, os_chunk_pos := h_beg h\<rparr>"
  have c': "c' = c\<lparr>c_queue := q', c_out := (c_out c)(k := ?s), c_put := (c_put c)(k := [])\<rparr>" and ev: "ev = Quiet"
    using step None hq by (auto simp: oq_open_def)
  show ?thesis
  proof (cases "n > 1")
    case False
    then have "h = header_default" "q' = c_queue c" using hq by simp_all
    then have "clients_inv L c'"
      using q(1) rs by (auto simp: oq_ok_def intro!: changed_out [OF inv c'])
    then show ?thesis using \<open>q' = c_queue c\<close> by (simp add: good_step_def ev clients_abs_def c')
  next
    case True
    have "int (unat (key_id (chunks_head (c_queue c))) + unat n) < 2 ^ 64" using al by simp
    then have room: "unat (key_id (chunks_head (c_queue c))) + unat n < 2 ^ 64"
      by (metis of_nat_less_iff of_nat_numeral of_nat_power)
    have res: "reserve_chunks n (c_queue c) = (h, q')" using hq True by simp
    note r = reserve_chunks_inv [OF q(1) res room]
    have j: "journal q' = journal (c_queue c)" using res by (auto simp: reserve_chunks_def)
    have "unat n \<le> unat (h_end h)" using r(6,7) by (metis diff_le_self unat_sub)
    then have e: "1 < h_end h" using True by (simp add: word_less_nat_alt)
    then have rng: "out_range ?s = set (id_range (h_beg h) (h_end h))" by (simp add: out_range_def header_chunks_def)
    have "\<forall>d \<in> other_ranges c k. d < h_beg h" using q(1) by (simp add: rs r(3) queue_inv_def journal_inv_def)
    then have disj: "other_ranges c k \<inter> out_range ?s = {}" unfolding rng set_id_range [OF r(6)] by fastforce
    have ok: "oq_ok L (other_ranges c k \<union> out_range ?s) [] q' ?s"
      using e r(4,5,6) unfolding rng by (simp add: oq_ok_def oq_inv_def)
    have "clients_inv L c'"
    proof (rule changed_out [OF inv c' _ _ _ _ disj ok])
      show "queue_inv L (held c) (other_ranges c k \<union> out_range ?s) q'" using r(1) unfolding rng rs .
      show "key_id (chunks_head (c_queue c)) \<le> key_id (chunks_head q')" using r(3,4,6) by simp
    qed (simp_all add: j)
    then show ?thesis using r(2) by (simp add: good_step_def ev clients_abs_def c')
  qed
qed

text \<open>A journal that only refused a write.\<close>

lemma failed_journal:
  assumes "clients_inv L c" "failed_write_invisible L" "q' = (c_queue c)\<lparr>journal := db\<rparr>"
    and "ldb_Put L sync k v (journal (c_queue c)) = (False, db) \<or> ldb_Write L ks (journal (c_queue c)) = (False, db)"
  shows "good_step L c (Failed e) (c\<lparr>c_queue := q'\<rparr>)"
proof -
  have "ldb_Get L k db = ldb_Get L k (journal (c_queue c))" for k
    using assms(2,4) unfolding failed_write_invisible_def by blast
  from clients_inv_failed [OF assms(1) this] show ?thesis by (simp add: good_step_def assms(3))
qed

lemma failed_journal_gets:
  assumes "failed_write_invisible L" "ldb_Put L sync k v db = (False, db')"
  shows "ldb_Get L k' db' = ldb_Get L k' db"
  using assms unfolding failed_write_invisible_def by blast

lemma push_item_failed:
  assumes "push_item L x sync q = (Inl e, q')" "x \<noteq> []"
  obtains db where "q' = q\<lparr>journal := db\<rparr>" "ldb_Put L sync (key_slice (queue_head q)) (encode_item x) (journal q) = (False, db)"
  using assms by (auto simp: push_item_def queue_put_def encode_item_def split: prod.splits if_splits)

lemma push_header_failed:
  assumes "push_header L h sync q = (Inl e, q')"
  obtains db where "q' = q\<lparr>journal := db\<rparr>" "ldb_Put L sync (key_slice (queue_head q)) (header_str h) (journal q) = (False, db)"
  using assms by (auto simp: push_header_def queue_put_def split: prod.splits if_splits)

lemma write_chunk_failed:
  assumes "write_chunk L x d q = (Inl e, q')"
  obtains db where "q' = q\<lparr>journal := db\<rparr>" "ldb_Put L False (key_slice (Key KT_CHUNK d)) x (journal q) = (False, db)"
  using assms by (auto simp: write_chunk_def queue_put_def split: prod.splits if_splits)

lemma write_single_good:
  assumes L: "journal_contract L" and F: "failed_write_invisible L" and inv: "clients_inv L c"
    and al: "allowed (Write_out k x :: 'cb action) (c :: ('db, 'cb) clients)"
    and step: "client_step L (Write_out k x) c = (ev, c')"
    and op: "os_queue (c_out c k) \<noteq> None" and single: "h_end (os_header (c_out c k)) \<le> 1"
  shows "good_step L c ev c'"
proof -
  note q = clients_invD [OF inv]
  let ?s = "c_out c k"
  have s: "os_header ?s = header_default" "os_chunk_pos ?s = 0" "c_put c k = []"
    using q(3) op single by (auto simp: outs_inv_def oq_ok_def)
  obtain r q' where p: "push_item L x (os_sync ?s) (c_queue c) = (r, q')" by fastforce
  show ?thesis
  proof (cases r)
    case (Inl e)
    obtain db where "q' = (c_queue c)\<lparr>journal := db\<rparr>"
      "ldb_Put L (os_sync ?s) (key_slice (queue_head (c_queue c))) (encode_item x) (journal (c_queue c)) = (False, db)"
      by (rule push_item_failed [of L x "os_sync ?s" "c_queue c" e q']) (use p Inl al single in auto)
    then have "good_step L c (Failed e) (c\<lparr>c_queue := q'\<rparr>)"
      using failed_journal [OF inv F] by blast
    moreover have "(c_put c)(k := []) = c_put c" using s(3) by (simp add: fun_upd_idem)
    ultimately show ?thesis
      using step s op p Inl by (auto simp: oq_write_def)
  next
    case (Inr i)
    let ?s' = "?s\<lparr>os_id := i, os_header := header_default\<lparr>h_size := word_of_nat (length x)\<rparr>, os_chunk_pos := 1, os_queue := None\<rparr>"
    have p: "push_item L x (os_sync ?s) (c_queue c) = (Inr i, q')" using p Inr by simp
    have c': "c' = c\<lparr>c_queue := q', c_out := (c_out c)(k := ?s'), c_put := (c_put c)(k := [x])\<rparr>"
      and ev: "ev = Pushed i x (as_read x)"
      using step s op p by (auto simp: oq_write_def readable_def Let_def)
    have room: "key_id (queue_head (c_queue c)) + 1 \<noteq> 0" using al by simp
    have rs: "reserved c = other_ranges c k" using reserved_split [of c k] single by simp
    note fr = push_frame [OF L q(1) disjI1 [OF p]] and rf = push_item_refines [OF L q(1) room p]
    have "clients_inv L c'" using fr rf by (auto simp: rs intro!: changed_out [OF inv c'])
    then show ?thesis using rf(2) by (simp add: good_step_def ev clients_abs_def c')
  qed
qed

lemma write_multi_good:
  assumes L: "journal_contract L" and F: "failed_write_invisible L" and inv: "clients_inv L c"
    and al: "allowed (Write_out k x :: 'cb action) (c :: ('db, 'cb) clients)"
    and step: "client_step L (Write_out k x) c = (ev, c')"
    and op: "os_queue (c_out c k) \<noteq> None" and multi: "1 < h_end (os_header (c_out c k))"
    and more: "length (c_put c k) < unat (h_end (os_header (c_out c k)) - h_beg (os_header (c_out c k)))"
  shows "good_step L c ev c'"
proof -
  note q = clients_invD [OF inv]
  let ?s = "c_out c k" and ?W = "reserved c"
  have s: "oq_inv L ?W (c_put c k) (c_queue c) ?s"
    using q(3) op multi by (auto simp: outs_inv_def oq_ok_def)
  have pos: "os_chunk_pos ?s = h_beg (os_header ?s) + word_of_nat (length (c_put c k))"
    using s by (simp add: oq_inv_def Let_def)
  have rng: "out_range ?s = set (id_range (h_beg (os_header ?s)) (h_end (os_header ?s)))"
    using op multi by (simp add: out_range_def header_chunks_def)
  have posin: "os_chunk_pos ?s \<in> out_range ?s"
    unfolding rng pos id_range_eq using more by auto
  have rs: "reserved c = other_ranges c k \<union> out_range ?s" by (rule reserved_split)
  define s1 where "s1 = ?s\<lparr>os_header := (os_header ?s)\<lparr>h_size := h_size (os_header ?s) + word_of_nat (length x)\<rparr>,
    os_chunk_pos := os_chunk_pos ?s + 1\<rparr>"
  have s1: "out_range s1 = out_range ?s" "os_queue s1 = os_queue ?s" "1 < h_end (os_header s1)" "s1 \<noteq> ?s" "os_sync s1 = os_sync ?s"
    using multi by (auto simp: s1_def out_range_def header_chunks_def dest: arg_cong [of _ _ os_chunk_pos])
  obtain r q1 where w: "write_chunk L x (os_chunk_pos ?s) (c_queue c) = (r, q1)" by fastforce
  show ?thesis
  proof (cases r)
    case (Inl e)
    obtain db where "q1 = (c_queue c)\<lparr>journal := db\<rparr>"
      "ldb_Put L False (key_slice (Key KT_CHUNK (os_chunk_pos ?s))) x (journal (c_queue c)) = (False, db)"
      by (rule write_chunk_failed [of L x "os_chunk_pos ?s" "c_queue c" e q1]) (use w Inl in auto)
    then have "good_step L c (Failed e) (c\<lparr>c_queue := q1\<rparr>)" using failed_journal [OF inv F] by blast
    then show ?thesis using step w Inl by (auto simp: oq_write_multi [OF s more])
  next
    case (Inr u)
    have w: "write_chunk L x (os_chunk_pos ?s) (c_queue c) = (Inr (), q1)" using w Inr by simp
    note st = oq_write_chunk_step [OF L q(1) s more w s1_def]
    note wr = write_chunk_inv [OF L q(1) _ w]
    have wi: "os_chunk_pos ?s \<in> ?W" using posin rs by blast
    have same1: "same_item L (journal (c_queue c)) (journal q1) j" if "j \<in> held c" for j using wr(6) [OF wi] that by blast
    have ch1: "get_chunk L (journal q1) d = get_chunk L (journal (c_queue c)) d" if "d \<in> other_ranges c k" for d
      using wr(3) [OF wi, of d] that posin others_disjoint [OF q(3), of k] by auto
    have hi1: "chunks_head q1 = chunks_head (c_queue c)" using wr(5) [OF wi] .
    \<comment> \<open>the chunk is in; the header may still have to follow\<close>
    define c1 where "c1 = c\<lparr>c_queue := q1, c_out := (c_out c)(k := s1), c_put := (c_put c)(k := c_put c k @ [x])\<rparr>"
    have inv1: "clients_inv L c1"
    proof (rule changed_out [OF inv c1_def _ same1 ch1])
      show "queue_inv L (held c) (other_ranges c k \<union> out_range s1) q1" using st(1) by (simp add: s1 rs)
      show "other_ranges c k \<inter> out_range s1 = {}" using others_disjoint [OF q(3)] by (simp add: s1)
      show "oq_ok L (other_ranges c k \<union> out_range s1) (c_put c k @ [x]) q1 s1" using st(3) s1 by (simp add: oq_ok_def rs)
    qed (simp_all add: hi1)
    have abs1: "clients_abs L c1 = clients_abs L c" using st(2) by (simp add: clients_abs_def c1_def)
    show ?thesis
    proof (cases "Suc (length (c_put c k)) = unat (h_end (os_header ?s) - h_beg (os_header ?s))")
      case False
      then have "ev = Quiet" "c' = c1"
        using step w op s1 by (auto simp: oq_write_multi [OF s more] c1_def s1_def)
      then show ?thesis using inv1 abs1 by (simp add: good_step_def)
    next
      case True
      obtain r2 q2 where p: "push_header L (os_header s1) (os_sync s1) q1 = (r2, q2)" by fastforce
      show ?thesis
      proof (cases r2)
        case (Inl e)
        obtain db where q2: "q2 = q1\<lparr>journal := db\<rparr>"
          "ldb_Put L (os_sync s1) (key_slice (queue_head q1)) (header_str (os_header s1)) (journal q1) = (False, db)"
          by (rule push_header_failed [of L "os_header s1" "os_sync s1" q1 e q2]) (use p Inl in auto)
        have "good_step L c1 (Failed e) (c1\<lparr>c_queue := q2\<rparr>)"
          by (rule failed_journal [OF inv1 F, of q2 db "os_sync s1" "key_slice (queue_head q1)" "header_str (os_header s1)"])
            (use q2 in \<open>simp_all add: c1_def\<close>)
        moreover have "ev = Failed e" "c' = c1\<lparr>c_queue := q2\<rparr>"
          using step w p Inl True s1(4) by (auto simp: oq_write_multi [OF s more] s1_def [symmetric] c1_def Let_def)
        ultimately show ?thesis using abs1 by (simp add: good_step_def)
      next
        case (Inr i)
        let ?s2 = "s1\<lparr>os_id := i, os_queue := None\<rparr>"
        have p: "push_header L (os_header s1) (os_sync s1) q1 = (Inr i, q2)" using p Inr by simp
        have wr2: "oq_write L x (c_queue c) ?s = (Inr (), (q2, ?s2))"
          using w p True by (simp add: oq_write_multi [OF s more] s1_def [symmetric] Let_def)
        have c': "c' = c\<lparr>c_queue := q2, c_out := (c_out c)(k := ?s2), c_put := (c_put c)(k := c_put c k @ [x])\<rparr>"
          and ev: "ev = Pushed i (concat (c_put c k @ [x])) (concat (c_put c k @ [x]))"
          using step wr2 s1(3) by (auto simp: readable_def)
        have room: "key_id (queue_head (c_queue c)) + 1 \<noteq> 0" "length (concat (c_put c k @ [x])) < 2 ^ 64"
          using al by (simp_all del: length_concat)
        note lst = oq_write_last [OF L q(1) s True room wr2]
        have W: "?W - set (id_range (h_beg (os_header ?s)) (h_end (os_header ?s))) = other_ranges c k"
          using others_disjoint [OF q(3), of k] rs rng by blast
        note fr = push_frame [OF L st(1) disjI2 [OF p]]
        have same2: "same_item L (journal (c_queue c)) (journal q2) j" if "j \<in> held c" for j
          using same_item_trans [OF same1 [OF that] fr(1)] that by blast
        have "clients_inv L c'"
        proof (rule changed_out [OF inv c' _ same2])
          show "queue_inv L (held c) (other_ranges c k \<union> out_range ?s2) q2" using lst(1) W by simp
          show "get_chunk L (journal q2) d = get_chunk L (journal (c_queue c)) d" if "d \<in> other_ranges c k" for d
            using ch1 [OF that] fr(2) by simp
        qed (simp_all add: fr(3) hi1)
        then show ?thesis using lst(2) by (simp add: good_step_def ev clients_abs_def c')
      qed
    qed
  qed
qed

lemma write_out_good:
  assumes L: "journal_contract L" and F: "failed_write_invisible L" and inv: "clients_inv L c"
    and al: "allowed (Write_out k x :: 'cb action) (c :: ('db, 'cb) clients)"
    and step: "client_step L (Write_out k x) c = (ev, c')"
  shows "good_step L c ev c'"
proof (cases "os_queue (c_out c k) = None \<or> os_chunk_pos (c_out c k) = h_end (os_header (c_out c k))")
  case True
  then show ?thesis using step inv by (auto simp: oq_write_def good_step_def)
next
  case False
  then have op: "os_queue (c_out c k) \<noteq> None" by simp
  show ?thesis
  proof (cases "h_end (os_header (c_out c k)) \<le> 1")
    case True
    with op show ?thesis by (rule write_single_good [OF L F inv al step])
  next
    case multi: False
    have "oq_inv L (reserved c) (c_put c k) (c_queue c) (c_out c k)"
      using clients_invD(3) [OF inv] op multi by (auto simp: outs_inv_def oq_ok_def)
    then have "length (c_put c k) < unat (h_end (os_header (c_out c k)) - h_beg (os_header (c_out c k)))"
      using False offset_end [of "length (c_put c k)" "h_end (os_header (c_out c k))" "h_beg (os_header (c_out c k))"]
      by (auto simp: oq_inv_def Let_def less_le)
    then show ?thesis using multi by (intro write_multi_good [OF L F inv al step op]) auto
  qed
qed

text \<open>A stream that is closed without its header: its chunks, if any, are gone or left behind.\<close>

lemma abandoned_out:
  assumes inv: "clients_inv L c" and c': "c' = c\<lparr>c_queue := q', c_out := (c_out c)(k := s)\<rparr>" and s: "os_queue s = None"
    and q': "queue_inv L (held c) (other_ranges c k) q'" "queue_abs L (held c) q' = queue_abs L (held c) (c_queue c)"
    and same: "\<And>j. j \<in> held c \<Longrightarrow> same_item L (journal (c_queue c)) (journal q') j"
    and chunks: "\<And>d. d \<in> other_ranges c k \<Longrightarrow> get_chunk L (journal q') d = get_chunk L (journal (c_queue c)) d"
    and hi: "chunks_head q' = chunks_head (c_queue c)"
  shows "good_step L c Quiet c'"
proof -
  have c2: "c' = c\<lparr>c_queue := q', c_out := (c_out c)(k := s), c_put := (c_put c)(k := c_put c k)\<rparr>" by (simp add: c')
  have "clients_inv L c'"
    using q'(1) same chunks s by (intro changed_out [OF inv c2]) (simp_all add: hi)
  then show ?thesis using q'(2) by (simp add: good_step_def clients_abs_def c')
qed

lemma erased_out:
  assumes L: "journal_contract L" and inv: "clients_inv L c"
    and op: "os_queue (c_out c k) \<noteq> None" "1 < h_end (os_header (c_out c k))"
    and er: "erase_chunks L (os_header (c_out c k)) (c_queue c) = (Inr (), q')"
    and c': "c' = c\<lparr>c_queue := q', c_out := (c_out c)(k := s)\<rparr>" and s: "os_queue s = None"
  shows "good_step L c Quiet c'"
proof -
  note q = clients_invD [OF inv]
  let ?h = "os_header (c_out c k)"
  have rng: "set (id_range (h_beg ?h) (h_end ?h)) = out_range (c_out c k)"
    using op by (simp add: out_range_def header_chunks_def)
  have sub: "set (id_range (h_beg ?h) (h_end ?h)) \<subseteq> reserved c" unfolding rng by (rule out_range_reserved)
  note e = erase_chunks_inv [OF L q(1) sub er, unfolded rng]
  have "reserved c - out_range (c_out c k) = other_ranges c k"
    using others_disjoint [OF q(3), of k] reserved_split [of c k] by blast
  then show ?thesis
    using e others_disjoint [OF q(3), of k] by (intro abandoned_out [OF inv c' s]) auto
qed

lemma erase_chunks_failed:
  assumes "erase_chunks L h q = (Inl e, q')"
  obtains db where "q' = q\<lparr>journal := db\<rparr>" "ldb_Write L (chunk_slices h) (journal q) = (False, db)"
  using assms by (auto simp: erase_chunks_def queue_write_def split: prod.splits if_splits)

lemma left_out:
  assumes inv: "clients_inv L c" and c': "c' = c\<lparr>c_out := (c_out c)(k := s)\<rparr>" and s: "os_queue s = None"
  shows "good_step L c Quiet c'"
proof -
  note q = clients_invD [OF inv]
  have "queue_inv L (held c) (other_ranges c k) ((c_queue c)\<lparr>journal := journal (c_queue c)\<rparr>)"
    by (rule queue_inv_journal [OF q(1)]) (use queue_inv_stored [OF q(1)] reserved_split [of c k] in auto)
  then show ?thesis
    by (intro abandoned_out [OF inv _ s, where q' = "c_queue c"]) (simp_all add: c')
qed

lemma cancel_out_good:
  assumes L: "journal_contract L" and F: "failed_write_invisible L" and inv: "clients_inv L c"
    and step: "client_step L (Cancel_out k) c = (ev, c')"
  shows "good_step L c ev c'"
proof (cases "os_queue (c_out c k)")
  case None
  then show ?thesis using step inv by (auto simp: oq_cancel_def good_step_def)
next
  case (Some a)
  then have op: "os_queue (c_out c k) \<noteq> None" by simp
  let ?s = "(c_out c k)\<lparr>os_queue := None\<rparr>"
  show ?thesis
  proof (cases "1 < h_end (os_header (c_out c k))")
    case False
    then show ?thesis using step Some left_out [OF inv refl, of ?s k] by (auto simp: oq_cancel_def)
  next
    case True
    obtain r q' where er: "erase_chunks L (os_header (c_out c k)) (c_queue c) = (r, q')" by fastforce
    show ?thesis
    proof (cases r)
      case (Inr u)
      then have "good_step L c Quiet (c\<lparr>c_queue := q', c_out := (c_out c)(k := ?s)\<rparr>)"
        using erased_out [OF L inv op True _ refl, of q' ?s] er by simp
      then show ?thesis using step Some True er Inr by (auto simp: oq_cancel_def)
    next
      case (Inl e)
      obtain db where "q' = (c_queue c)\<lparr>journal := db\<rparr>"
        "ldb_Write L (chunk_slices (os_header (c_out c k))) (journal (c_queue c)) = (False, db)"
        by (rule erase_chunks_failed [of L "os_header (c_out c k)" "c_queue c" e q']) (use er Inl in auto)
      then have "good_step L c (Failed e) (c\<lparr>c_queue := q'\<rparr>)" using failed_journal [OF inv F] by blast
      then show ?thesis using step Some True er Inl by (auto simp: oq_cancel_def)
    qed
  qed
qed

lemma drop_out_good:
  assumes L: "journal_contract L" and F: "failed_write_invisible L" and inv: "clients_inv L c"
    and step: "client_step L (Drop_out k) c = (ev, c')"
  shows "good_step L c ev c'"
proof -
  obtain r q' s' where cn: "oq_cancel L (c_queue c) (c_out c k) = (r, (q', s'))" by (metis prod.exhaust)
  obtain ev1 c1 where st1: "client_step L (Cancel_out k) c = (ev1, c1)" by fastforce
  have g1: "good_step L c ev1 c1" by (rule cancel_out_good [OF L F inv st1])
  have c1: "c1 = c\<lparr>c_queue := q', c_out := (c_out c)(k := s')\<rparr>" using st1 cn by (auto split: sum.splits)
  have ev1: "fifo_event ev1 a b \<longleftrightarrow> b = a" for a b using st1 cn by (auto split: sum.splits)
  have new: "os_queue oq_new = None" by (simp add: oq_new_def)
  have g2: "good_step L c1 Quiet (c1\<lparr>c_out := (c_out c1)(k := oq_new)\<rparr>)"
    by (rule left_out [OF _ refl new]) (use g1 in \<open>simp add: good_step_def\<close>)
  have "c' = c1\<lparr>c_out := (c_out c1)(k := oq_new)\<rparr>" "ev = Quiet"
    using step cn by (auto simp: c1 oq_dtor_def oq_cancel_def)
  then show ?thesis using g1 g2 by (simp add: good_step_def ev1)
qed

section \<open>Waiters\<close>

lemma waiters_frame:
  assumes "journal q' = journal q" "queue_head q' = queue_head q" "queue_tail q' = queue_tail q" "chunks_head q' = chunks_head q"
    and "items_open q' = items_open q" "returned q' = returned q"
  shows "queue_inv L Op W q' = queue_inv L Op W q" "queue_abs L Op q' = queue_abs L Op q" "ready_ids q' = ready_ids q"
  unfolding queue_inv_def queue_abs_def ids_inv_def ready_ids_def assms by simp_all

lemma clients_inv_waiters:
  assumes inv: "clients_inv L c" and "journal q' = journal (c_queue c)" "queue_head q' = queue_head (c_queue c)"
    and "queue_tail q' = queue_tail (c_queue c)" "chunks_head q' = chunks_head (c_queue c)"
    and "items_open q' = items_open (c_queue c)" "returned q' = returned (c_queue c)"
  shows "clients_inv L (c\<lparr>c_queue := q'\<rparr>)" "clients_abs L (c\<lparr>c_queue := q'\<rparr>) = clients_abs L c"
proof -
  note q = clients_invD [OF inv] and fr = waiters_frame [OF assms(2-7)]
  have "ins_inv L (c\<lparr>c_queue := q'\<rparr>)" by (rule ins_inv_frame [OF q(2)]) (simp_all add: assms)
  moreover have "outs_inv L (c\<lparr>c_queue := q'\<rparr>)" by (rule outs_inv_frame [OF q(3)]) (simp_all add: assms)
  ultimately show "clients_inv L (c\<lparr>c_queue := q'\<rparr>)" using q(1) by (simp add: clients_inv_def fr)
  show "clients_abs L (c\<lparr>c_queue := q'\<rparr>) = clients_abs L c" by (simp add: clients_abs_def fr)
qed

lemma wait_frame [simp]:
  "journal (wait ms cb q) = journal q" "queue_head (wait ms cb q) = queue_head q" "queue_tail (wait ms cb q) = queue_tail q"
  "chunks_head (wait ms cb q) = chunks_head q" "items_open (wait ms cb q) = items_open q" "returned (wait ms cb q) = returned q"
  by (simp_all add: wait_def Let_def)

lemma waiter_wakeup_frame:
  assumes "waiter_wakeup it q = (r, q')"
  shows "journal q' = journal q" "queue_head q' = queue_head q" "queue_tail q' = queue_tail q"
    "chunks_head q' = chunks_head q" "items_open q' = items_open q" "returned q' = returned q"
  using assms by (auto simp: waiter_wakeup_def Let_def split: option.splits)

lemma wait_good:
  assumes "clients_inv L c" "client_step L (Wait ms cb) c = (ev, c')"
  shows "good_step L c ev c'"
  using clients_inv_waiters [OF assms(1), of "wait ms cb (c_queue c)"] assms(2) by (auto simp: good_step_def)

lemma wake_good:
  assumes "clients_inv L c" "client_step L (Wake it) c = (ev, c')"
  shows "good_step L c ev c'"
proof -
  obtain r q' where w: "waiter_wakeup it (c_queue c) = (r, q')" by fastforce
  note fr = clients_inv_waiters [OF assms(1) waiter_wakeup_frame [OF w]]
  show ?thesis using assms(2) fr by (cases r) (auto simp: w good_step_def split: prod.splits)
qed

text \<open>A queue whose journal was opened anew.\<close>

lemma reopen_good:
  assumes "clients_inv L c" "\<forall>k. ldb_Get L k db = ldb_Get L k (journal (c_queue c))"
  shows "good_step L c Quiet (c\<lparr>c_queue := (c_queue c)\<lparr>journal := db, path := p, destroy_flag := b\<rparr>\<rparr>)"
proof -
  let ?c = "c\<lparr>c_queue := (c_queue c)\<lparr>journal := db\<rparr>\<rparr>"
  have f: "clients_inv L ?c" "clients_abs L ?c = clients_abs L c" using assms by (auto intro!: clients_inv_failed)
  note w = clients_inv_waiters [OF f(1), of "(c_queue c)\<lparr>journal := db, path := p, destroy_flag := b\<rparr>"]
  show ?thesis using w f(2) by (simp add: good_step_def)
qed

text \<open>Together: every action of every client.\<close>

lemma client_step_good:
  assumes "journal_contract L" "failed_write_invisible L" "clients_inv L c"
    and "allowed a c" "client_step L a c = (ev, c')"
  shows "good_step L c ev c'"
proof (cases a)
  case (Open_in k) then show ?thesis using assms by (auto intro: open_in_good)
next
  case (Read_in k) then show ?thesis using assms by (auto intro: read_in_good)
next
  case (Close_in k e) then show ?thesis using assms by (auto intro: close_in_good)
next
  case (Drop_in k) then show ?thesis using assms by (auto intro: drop_in_good)
next
  case (Open_out k n sync) then show ?thesis using assms(3-5) open_out_good by blast
next
  case (Write_out k x) then show ?thesis using assms write_out_good by blast
next
  case (Cancel_out k) then show ?thesis using assms by (auto intro: cancel_out_good)
next
  case (Drop_out k) then show ?thesis using assms by (auto intro: drop_out_good)
next
  case (Wait ms cb) then show ?thesis using assms by (auto intro: wait_good)
next
  case (Wake it) then show ?thesis using assms by (auto intro: wake_good)
qed

end
