(* ===== verification/Clients_Trace.thy ===== *)
theory Clients_Trace
  imports Clients_Step
begin

text \<open>
  What holds of a whole run of the clients: the events of its trace, one after the other, are what
  the abstract queue did, and no item is lost or delivered twice.
\<close>

section \<open>Runs of the abstract queue\<close>

fun fifo_trace :: "'cb event list \<Rightarrow> (u64, string) fifo \<Rightarrow> (u64, string) fifo \<Rightarrow> bool" where
  "fifo_trace [] a b \<longleftrightarrow> b = a"
| "fifo_trace (ev # tr) a b \<longleftrightarrow> (\<exists>m. fifo_event ev a m \<and> fifo_trace tr m b)"

lemma fifo_trace_append: "fifo_trace (tr @ tr') a b \<longleftrightarrow> (\<exists>m. fifo_trace tr a m \<and> fifo_trace tr' m b)"
  by (induction tr arbitrary: a) auto

text \<open>The items pushed in a trace, with their tickets, and the tickets erased.\<close>

fun pushes :: "'cb event list \<Rightarrow> (u64 \<times> string) list" where
  "pushes [] = []"
| "pushes (Pushed i x y # tr) = (i, y) # pushes tr"
| "pushes (_ # tr) = pushes tr"

text \<open>The bytes that were written for them.\<close>

fun writes :: "'cb event list \<Rightarrow> (u64 \<times> string) list" where
  "writes [] = []"
| "writes (Pushed i x y # tr) = (i, x) # writes tr"
| "writes (_ # tr) = writes tr"

fun erasures :: "'cb event list \<Rightarrow> u64 list" where
  "erasures [] = []"
| "erasures (Erased i # tr) = i # erasures tr"
| "erasures (_ # tr) = erasures tr"

lemma pushes_append [simp]: "pushes (tr @ tr') = pushes tr @ pushes tr'"
  by (induction tr rule: pushes.induct) simp_all

lemma writes_append [simp]: "writes (tr @ tr') = writes tr @ writes tr'"
  by (induction tr rule: writes.induct) simp_all

lemma erasures_append [simp]: "erasures (tr @ tr') = erasures tr @ erasures tr'"
  by (induction tr rule: erasures.induct) simp_all

text \<open>The items the abstract queue has, ready or held.\<close>

definition fifo_items :: "(u64, string) fifo \<Rightarrow> (u64 \<times> string) set" where
  "fifo_items a = set (f_ready a) \<union> {(i, x). f_held a i = Some x}"

section \<open>The invariant of a run\<close>

text \<open>What is pushed is what was written, but for the zero byte.\<close>

lemma client_step_writes: "client_step L a c = (ev, c') \<Longrightarrow> list_all2 (\<lambda>(i, x) (j, y). i = j \<and> (y = x \<or> x = [CHR 0x00] \<and> y = [CHR 0x00, CHR 0x00])) (writes [ev]) (pushes [ev])"
  by (cases a) (auto simp: readable_def as_read_def split: prod.splits sum.splits if_splits)

lemma reaches_writes:
  "reaches L c0 tr c \<Longrightarrow> list_all2 (\<lambda>(i, x) (j, y). i = j \<and> (y = x \<or> x = [CHR 0x00] \<and> y = [CHR 0x00, CHR 0x00])) (writes tr) (pushes tr)"
  by (induction rule: reaches.induct) (auto intro!: list_all2_appendI dest: client_step_writes)

lemma pushed_was_written:
  assumes "reaches L c0 tr c" "(i, y) \<in> set (pushes tr)"
  shows "\<exists>x. (i, x) \<in> set (writes tr) \<and> (y = x \<or> x = [CHR 0x00] \<and> y = [CHR 0x00, CHR 0x00])"
  using reaches_writes [OF assms(1)] assms(2) by (fastforce simp: list_all2_conv_all_nth in_set_conv_nth)

lemma reaches_inv:
  assumes "reaches L c0 tr c" "journal_contract L" "failed_write_invisible L" "clients_inv L c0"
  shows "clients_inv L c" "fifo_trace tr (clients_abs L c0) (clients_abs L c)"
  using assms
proof (induction rule: reaches.induct)
  case start
  {
    case 1
    then show ?case by simp
  next
    case 2
    then show ?case by simp
  }
next
  case (step tr c a ev c')
  {
    case 1
    with step show ?case using client_step_good by (fastforce simp: good_step_def)
  next
    case 2
    with step have "good_step L c ev c'" using client_step_good by blast
    with 2 step.IH show ?case by (auto simp: good_step_def fifo_trace_append)
  }
next
  case (reopen tr c db b p)
  {
    case 1
    with reopen show ?case using reopen_good [of L c db b p] by (simp add: good_step_def)
  next
    case 2
    have "good_step L c Quiet (c\<lparr>c_queue := (c_queue c)\<lparr>journal := db, path := p, destroy_flag := b\<rparr>\<rparr>)"
      by (intro reopen_good) (use 2 reopen in simp_all)
    with 2 reopen.IH show ?case by (auto simp: good_step_def fifo_trace_append)
  }
qed

lemma clients_start_inv: "queue_inv L {} {} q \<Longrightarrow> clients_inv L (clients_start q)"
  by (simp add: clients_inv_def clients_start_def held_def reserved_def ins_inv_def outs_inv_def iq_new_def oq_new_def)

lemma clients_start_abs: "clients_abs L (clients_start q) = queue_abs L {} q"
  by (simp add: clients_abs_def clients_start_def held_def iq_new_def)

section \<open>Tickets\<close>

text \<open>Only a push moves the head, and its ticket is the old head.\<close>

lemma queue_put_head: "queue_put L k v sync q = (r, q') \<Longrightarrow> queue_head q' = queue_head q"
  by (auto simp: queue_put_def split: prod.splits if_splits)

lemma queue_write_head: "queue_write L b q = (r, q') \<Longrightarrow> queue_head q' = queue_head q"
  by (auto simp: queue_write_def split: prod.splits if_splits)

lemma compact_head: "compact L q = (r, q') \<Longrightarrow> queue_head q' = queue_head q"
  by (auto simp: compact_def Let_def split: option.splits)

lemma push_item_head: "push_item L x sync q = (r, q') \<Longrightarrow>
    key_id (queue_head q') = (case r of Inl e \<Rightarrow> key_id (queue_head q) | Inr i \<Rightarrow> i + 1) \<and>
    (\<forall>i. r = Inr i \<longrightarrow> i = key_id (queue_head q))"
  by (auto simp: push_item_def split: if_splits prod.splits sum.splits dest: queue_put_head)

lemma push_header_head: "push_header L h sync q = (r, q') \<Longrightarrow>
    key_id (queue_head q') = (case r of Inl e \<Rightarrow> key_id (queue_head q) | Inr i \<Rightarrow> i + 1) \<and>
    (\<forall>i. r = Inr i \<longrightarrow> i = key_id (queue_head q))"
  by (auto simp: push_header_def split: if_splits prod.splits sum.splits dest: queue_put_head)

lemma pop_begin_head: "pop_begin q = (r, q') \<Longrightarrow> queue_head q' = queue_head q"
  by (auto simp: pop_begin_def split: list.splits if_splits)

lemma pop_end_head: "pop_end L e i h q = (r, q') \<Longrightarrow> queue_head q' = queue_head q"
  by (auto simp: pop_end_def Let_def split: if_splits prod.splits sum.splits dest!: queue_write_head compact_head)

lemma write_chunk_head: "write_chunk L x d q = (r, q') \<Longrightarrow> queue_head q' = queue_head q"
  by (simp add: write_chunk_def queue_put_head)

lemma erase_chunks_head: "erase_chunks L h q = (r, q') \<Longrightarrow> queue_head q' = queue_head q"
  by (simp add: erase_chunks_def queue_write_head)

lemmas head_dests = pop_begin_head pop_end_head write_chunk_head erase_chunks_head push_item_head push_header_head

lemma oq_write_head:
  assumes "oq_write L x q s = (r, (q', s'))" "h_end (os_header s) \<le> 1 \<Longrightarrow> h_end (os_header s) = 1 \<and> os_chunk_pos s = 0"
  shows "if r = Inr () \<and> os_queue s' = None then os_id s' = key_id (queue_head q) \<and> key_id (queue_head q') = os_id s' + 1
         else key_id (queue_head q') = key_id (queue_head q)"
proof (cases "h_end (os_header s) \<le> 1")
  case True
  then have s: "h_end (os_header s) = 1" "os_chunk_pos s = 0" using assms(2) by simp_all
  obtain r1 q1 where p: "push_item L x (os_sync s) q = (r1, q1)" by fastforce
  show ?thesis
    using assms(1) push_item_head [OF p] by (cases r1; cases "os_queue s") (auto simp: oq_write_def s p Let_def)
next
  case False
  let ?h = "(os_header s)\<lparr>h_size := h_size (os_header s) + word_of_nat (length x)\<rparr>"
  obtain r1 q1 where w: "write_chunk L x (os_chunk_pos s) q = (r1, q1)" by fastforce
  obtain r2 q2 where p: "push_header L ?h (os_sync s) q1 = (r2, q2)" by fastforce
  note q1 = write_chunk_head [OF w] and q2 = push_header_head [OF p]
  show ?thesis
  proof (cases "os_queue s = None \<or> os_chunk_pos s = h_end (os_header s)")
    case True
    then show ?thesis using assms(1) by (auto simp: oq_write_def)
  next
    case opened: False
    then obtain y where y: "os_queue s = Some y" by auto
    have e: "(h_end (os_header s) \<le> 1) = False" "(1 < h_end (os_header s)) = True"
      "(os_chunk_pos s = h_end (os_header s)) = False" using False opened by auto
    have "oq_write L x q s = (case r1 of Inl e \<Rightarrow> (Inl e, (q1, s)) | Inr u \<Rightarrow>
        let s2 = s\<lparr>os_header := ?h, os_chunk_pos := os_chunk_pos s + 1\<rparr> in
        if os_chunk_pos s + 1 = h_end (os_header s) then
          (case r2 of Inl e \<Rightarrow> (Inl e, (q2, s2)) | Inr i \<Rightarrow> (Inr (), (q2, s2\<lparr>os_id := i, os_queue := None\<rparr>)))
        else (Inr (), (q1, s2)))"
      by (cases r1; cases r2) (simp_all add: oq_write_def Let_def y w p e)
    then show ?thesis
      using assms(1) q1 q2 y by (cases r1; cases r2) (simp_all add: Let_def split: if_splits)
  qed
qed

lemma oq_cancel_head: "oq_cancel L q s = (r, (q', s')) \<Longrightarrow> queue_head q' = queue_head q"
  by (auto simp: oq_cancel_def split: if_splits prod.splits sum.splits dest: erase_chunks_head)

definition head_id :: "('db, 'cb) clients \<Rightarrow> u64" where
  "head_id c = key_id (queue_head (c_queue c))"

fun moves_head :: "'cb event \<Rightarrow> u64 \<Rightarrow> u64 \<Rightarrow> bool" where
  "moves_head (Pushed i x y) h h' \<longleftrightarrow> i = h \<and> h' = h + 1 \<and> h' \<noteq> 0"
| "moves_head _ h h' \<longleftrightarrow> h' = h"

lemma client_step_head:
  assumes inv: "clients_inv L c" and al: "allowed a c" and step: "client_step L a c = (ev, c')"
  shows "moves_head ev (head_id c) (head_id c')"
proof (cases a)
  case (Write_out k x)
  obtain r q' s' where w: "oq_write L x (c_queue c) (c_out c k) = (r, (q', s'))" by (metis prod.exhaust)
  show ?thesis
  proof (cases "os_queue (c_out c k) = None")
    case True
    then show ?thesis using step Write_out by (auto simp: oq_write_def head_id_def)
  next
    case False
    then have "oq_ok L (reserved c) (c_put c k) (c_queue c) (c_out c k)"
      using clients_invD(3) [OF inv] by (simp add: outs_inv_def)
    then have "h_end (os_header (c_out c k)) \<le> 1 \<Longrightarrow> h_end (os_header (c_out c k)) = 1 \<and> os_chunk_pos (c_out c k) = 0"
      by (auto simp: oq_ok_def split: if_splits)
    from oq_write_head [OF w this] show ?thesis
      using step Write_out w al by (cases r) (auto simp: head_id_def split: if_splits)
  qed
next
  case (Open_in k)
  obtain r q' where p: "pop_begin (c_queue c) = (r, q')" by fastforce
  then show ?thesis
    using step Open_in pop_begin_head [OF p] by (cases r) (auto simp: head_id_def iq_open_def split: if_splits)
next
  case (Read_in k)
  then show ?thesis using step by (auto simp: head_id_def split: prod.splits sum.splits)
next
  case (Close_in k e)
  obtain r q' where p: "pop_end L e (is_id (c_in c k)) (is_header (c_in c k)) (c_queue c) = (r, q')" by fastforce
  then show ?thesis
    using step Close_in pop_end_head [OF p] by (cases r) (auto simp: head_id_def iq_close_def split: if_splits)
next
  case (Drop_in k)
  obtain r q' where p: "pop_end L False (is_id (c_in c k)) (is_header (c_in c k)) (c_queue c) = (r, q')" by fastforce
  then show ?thesis using step Drop_in pop_end_head [OF p] by (auto simp: head_id_def iq_dtor_def split: if_splits)
next
  case (Open_out k n sync)
  then show ?thesis using step by (auto simp: head_id_def oq_open_def reserve_chunks_def split: if_splits)
next
  case (Cancel_out k)
  obtain r q' s' where p: "oq_cancel L (c_queue c) (c_out c k) = (r, (q', s'))" by (metis prod.exhaust)
  then show ?thesis using step Cancel_out oq_cancel_head [OF p] by (cases r) (auto simp: head_id_def)
next
  case (Drop_out k)
  obtain r q' s' where p: "oq_cancel L (c_queue c) (c_out c k) = (r, (q', s'))" by (metis prod.exhaust)
  then show ?thesis using step Drop_out oq_cancel_head [OF p] by (auto simp: head_id_def oq_dtor_def split: if_splits)
next
  case (Wait ms cb)
  then show ?thesis using step by (auto simp: head_id_def)
next
  case (Wake it)
  obtain r q' where p: "waiter_wakeup it (c_queue c) = (r, q')" by fastforce
  then show ?thesis
    using step Wake waiter_wakeup_frame(2) [OF p] by (cases r) (auto simp: head_id_def split: prod.splits)
qed

section \<open>Nothing is lost, nothing is delivered twice\<close>

text \<open>
  The account of a run: tickets are handed out in increasing order, an item is erased at most once, and what the queue
  has is what it had and what was pushed, less what was erased.
\<close>

definition account :: "(u64 \<times> string) list \<Rightarrow> 'cb event list \<Rightarrow> u64 \<Rightarrow> (u64, string) fifo \<Rightarrow> bool" where
  "account base tr h a \<longleftrightarrow>
     sorted_wrt (<) (map fst (base @ pushes tr)) \<and> (\<forall>p \<in> set (base @ pushes tr). fst p < h) \<and>
     distinct (erasures tr) \<and> set (erasures tr) \<subseteq> fst ` set (base @ pushes tr) \<and>
     fifo_items a = {p \<in> set (base @ pushes tr). fst p \<notin> set (erasures tr)}"

lemma items_push: "fifo_items (fifo_push i x a) = insert (i, x) (fifo_items a)"
  by (auto simp: fifo_items_def fifo_push_def)

lemma items_pop: "fifo_wf a \<Longrightarrow> fifo_pop a = (r, b) \<Longrightarrow> fifo_items b = fifo_items a"
  by (auto simp: fifo_items_def fifo_pop_def fifo_wf_def dom_def split: list.splits if_splits)

lemma items_return: "i \<in> dom (f_held a) \<Longrightarrow> fifo_items (fifo_return i a) = fifo_items a"
  by (auto simp: fifo_items_def fifo_return_def set_insort_key split: option.splits if_splits)

lemma items_erase:
  assumes "fifo_wf a" "i \<in> dom (f_held a)"
  shows "fifo_items (fifo_erase i a) = {p \<in> fifo_items a. fst p \<noteq> i}" "i \<in> fst ` fifo_items a"
proof -
  have "i \<notin> fst ` set (f_ready a)" using assms by (auto simp: fifo_wf_def)
  then show "fifo_items (fifo_erase i a) = {p \<in> fifo_items a. fst p \<noteq> i}"
    by (force simp: fifo_items_def fifo_erase_def split: if_splits)
  show "i \<in> fst ` fifo_items a" using assms(2) by (force simp: fifo_items_def)
qed

lemma account_step:
  assumes ac: "account base tr h a" and wf: "fifo_wf a" and ev: "fifo_event ev a b" and hd: "moves_head ev h h'"
  shows "account base (tr @ [ev]) h' b"
proof (cases ev)
  case (Pushed i x y)
  then have h: "h = i" "h' = i + 1" "i + 1 \<noteq> 0" using hd by auto
  have "i < i + 1" using h(3) by (simp add: word_less_nat_alt unat_plus_one)
  then have lt: "j \<le> i \<Longrightarrow> j < i + 1" for j using le_less_trans by blast
  have "set (erasures tr) \<subseteq> fst ` set (base @ pushes tr)" "\<forall>p \<in> set (base @ pushes tr). fst p < i"
    using ac h by (simp_all add: account_def)
  then have "i \<notin> set (erasures tr)" "\<forall>p \<in> set (base @ pushes tr). fst p < i + 1"
    using lt less_imp_le by fastforce+
  then show ?thesis
    using ac ev lt unfolding Pushed h
    by (auto simp: account_def items_push sorted_wrt_append)
next
  case (Erased i)
  note it = items_erase [OF wf, of i]
  have "i \<in> dom (f_held a)" and b: "b = fifo_erase i a" using ev Erased by simp_all
  note it = it [OF this(1)]
  have "i \<in> fst ` set (base @ pushes tr)" "i \<notin> set (erasures tr)"
    using ac it(2) by (auto simp: account_def)
  then show ?thesis using ac hd it(1) unfolding Erased b by (auto simp: account_def)
qed (use assms items_pop [OF wf] items_return in \<open>auto simp: account_def\<close>)

lemma fst_abs_below:
  assumes "ids_inv Op q" "p \<in> set (f_ready (queue_abs L Op q))"
  shows "fst p < key_id (queue_head q)"
proof -
  have "fst p \<in> set (ready_ids q)" using assms(2) by (auto simp: queue_abs_def)
  then show ?thesis
    using assms(1) by (auto simp: set_ready_ids ids_inv_def) (auto simp: ids_inv_def intro: less_le_trans)
qed

lemma reaches_account:
  assumes "reaches L (clients_start q0) tr c" "journal_contract L" "failed_write_invisible L" "queue_inv L {} {} q0"
  shows "account (f_ready (queue_abs L {} q0)) tr (head_id c) (clients_abs L c)"
  using assms
proof (induction rule: reaches.induct)
  case start
  have ids: "ids_inv {} q0" using start by (simp add: queue_inv_def)
  have "map fst (f_ready (queue_abs L {} q0)) = ready_ids q0" by (simp add: queue_abs_def comp_def)
  moreover have "fifo_items (queue_abs L {} q0) = set (f_ready (queue_abs L {} q0))"
    by (simp add: fifo_items_def queue_abs_def)
  ultimately show ?case
    using sorted_ready_ids [OF ids] fst_abs_below [OF ids]
    by (simp add: account_def clients_start_abs head_id_def) (simp add: clients_start_def)
next
  case (step tr c a ev c')
  note inv = reaches_inv(1) [OF step.hyps(1) step.prems(1,2) clients_start_inv [OF step.prems(3)]]
  have "good_step L c ev c'" by (rule client_step_good [OF step.prems(1,2) inv step.hyps(2,3)])
  moreover have "fifo_wf (clients_abs L c)"
    using queue_abs_wf [OF clients_invD(4) [OF inv]] by (simp add: clients_abs_def)
  ultimately show ?case
    using account_step [OF step.IH [OF step.prems]] client_step_head [OF inv step.hyps(2,3)]
    by (simp add: good_step_def)
next
  case (reopen tr c db b p)
  note inv = reaches_inv(1) [OF reopen.hyps(1) reopen.prems(1,2) clients_start_inv [OF reopen.prems(3)]]
  let ?c = "c\<lparr>c_queue := (c_queue c)\<lparr>journal := db, path := p, destroy_flag := b\<rparr>\<rparr>"
  have "good_step L c Quiet ?c" by (rule reopen_good [OF inv reopen.hyps(2)])
  moreover have "fifo_wf (clients_abs L c)"
    using queue_abs_wf [OF clients_invD(4) [OF inv]] by (simp add: clients_abs_def)
  ultimately show ?case
    using account_step [OF reopen.IH [OF reopen.prems], of Quiet "clients_abs L ?c" "head_id ?c"] by (simp add: good_step_def head_id_def)
qed

section \<open>Running a list of actions\<close>

fun run :: "'db leveldb \<Rightarrow> 'cb action list \<Rightarrow> ('db, 'cb) clients \<Rightarrow> ('cb event list \<times> ('db, 'cb) clients) option" where
  "run L [] c = Some ([], c)"
| "run L (a # as) c = (if allowed a c then
     (case client_step L a c of (ev, c1) \<Rightarrow> (case run L as c1 of None \<Rightarrow> None | Some (tr, c2) \<Rightarrow> Some (ev # tr, c2)))
   else None)"

lemma run_reaches_from:
  "reaches L c0 tr c \<Longrightarrow> run L as c = Some (tr', c') \<Longrightarrow> reaches L c0 (tr @ tr') c'"
proof (induction as arbitrary: tr c tr')
  case (Cons a as)
  obtain ev c1 where st: "client_step L a c = (ev, c1)" by fastforce
  obtain tr1 where al: "allowed a c" and r: "run L as c1 = Some (tr1, c')" and tr': "tr' = ev # tr1"
    using Cons.prems(2) st by (auto split: if_splits option.splits)
  from Cons.IH [OF reaches.step [OF Cons.prems(1) al st] r] show ?case by (simp add: tr')
qed simp

lemma run_reaches: "run L as c0 = Some (tr, c) \<Longrightarrow> reaches L c0 tr c"
  using run_reaches_from [OF reaches.start] by fastforce

section \<open>An empty journal\<close>

lemma queue_fresh_inv:
  assumes "stored L db = {}"
  shows "queue_inv L {} {} (queue_fresh db p)" "queue_abs L {} (queue_fresh db p) = \<lparr>f_ready = [], f_held = Map.empty\<rparr>"
  using assms by (simp_all add: queue_inv_def ids_inv_def journal_inv_def queue_fresh_def ready_ids_def queue_abs_def)

end
