(* ===== verification/Recovery.thy ===== *)
theory Recovery
  imports Clients_Trace
begin

text \<open>
  The constructor of \<^verbatim>\<open>queue\<close> on an existing journal: the head, the tail and the chunk head it reads off the
  journal's keys.
\<close>

section \<open>The journal's keys\<close>

text \<open>
  A journal at rest: the queue keys in it are those from \<open>lo\<close> to \<open>hi\<close>, chunk keys are below \<open>ch\<close>.
\<close>

definition at_rest :: "'db leveldb \<Rightarrow> 'db \<Rightarrow> u64 \<Rightarrow> u64 \<Rightarrow> u64 \<Rightarrow> bool" where
  "at_rest L db lo hi ch \<longleftrightarrow>
     stored L db \<subseteq> key_slice ` ({Key KT_QUEUE i | i. lo \<le> i \<and> i < hi} \<union> {Key KT_CHUNK c | c. c < ch}) \<and>
     (\<forall>i. lo \<le> i \<and> i < hi \<longrightarrow> get_item L db i \<noteq> None)"

lemma at_rest_stored: "at_rest L db lo hi ch \<Longrightarrow> stored L db \<subseteq> Collect is_key_slice"
  by (auto simp: at_rest_def)

lemma at_rest_key:
  assumes "at_rest L db lo hi ch" "s \<in> stored L db"
  obtains (item) i where "s = key_slice (Key KT_QUEUE i)" "lo \<le> i" "i < hi"
  | (chunk) c where "s = key_slice (Key KT_CHUNK c)" "c < ch"
  using assms unfolding at_rest_def by blast

lemma at_rest_item: "at_rest L db lo hi ch \<Longrightarrow> lo \<le> i \<Longrightarrow> i < hi \<Longrightarrow> key_slice (Key KT_QUEUE i) \<in> stored L db"
  by (auto simp: at_rest_def stored_def get_item_def)

lemma iterators:
  assumes "journal_contract L" "stored L db \<subseteq> Collect is_key_slice"
  shows "seek_at slice_le (stored L db) (key_slice k) (ldb_Seek L (key_slice k) db)"
    "prev_at slice_le (stored L db) (key_slice k) (ldb_Prev L (key_slice k) db)"
    "last_at slice_le (stored L db) (ldb_SeekToLast L db)"
proof -
  have "iterates_in is_key_slice slice_le L" using leveldb_contractD [OF assms(1)] by simp
  then show "seek_at slice_le (stored L db) (key_slice k) (ldb_Seek L (key_slice k) db)"
    "prev_at slice_le (stored L db) (key_slice k) (ldb_Prev L (key_slice k) db)"
    "last_at slice_le (stored L db) (ldb_SeekToLast L db)"
    using assms(2) by (simp_all add: iterates_in_def)
qed

lemma KT_QUEUE_le: "Key KT_QUEUE 0 \<le> Key KT_QUEUE i" "Key KT_QUEUE i \<le> Key KT_CHUNK c" "\<not> Key KT_CHUNK c \<le> Key KT_QUEUE i"
  by (simp_all add: KT_QUEUE_def KT_CHUNK_def)

lemma below_hi:
  fixes lo hi :: u64
  assumes "lo < hi"
  shows "lo \<le> hi - 1" "hi - 1 < hi" "i < hi \<Longrightarrow> i \<le> hi - 1" "hi - 1 + 1 = hi"
proof -
  have "hi \<noteq> 0" using assms by auto
  then have "unat (hi - 1) = unat hi - 1" "0 < unat hi" by (simp_all add: unat_minus_one unat_gt_0)
  then show "lo \<le> hi - 1" "hi - 1 < hi" "i < hi \<Longrightarrow> i \<le> hi - 1" "hi - 1 + 1 = hi"
    using assms by (auto simp: word_le_nat_alt word_less_nat_alt)
qed

section \<open>Reopening\<close>

lemma ctor_tail:
  assumes L: "journal_contract L" and rest: "at_rest L db lo hi ch" and lt: "lo < hi"
  shows "ldb_Seek L (key_slice (Key KT_QUEUE 0)) db = Some (key_slice (Key KT_QUEUE lo))"
proof (rule cmp.seek_at_unique [OF at_rest_stored [OF rest] iterators(1) [OF L at_rest_stored [OF rest]]])
  show "key_slice (Key KT_QUEUE lo) \<in> stored L db" using at_rest_item [OF rest _ lt] by simp
  show "slice_le (key_slice (Key KT_QUEUE 0)) (key_slice (Key KT_QUEUE lo))" by (simp only: slice_le_key_slice KT_QUEUE_le)
  fix s assume "s \<in> stored L db"
  from rest this show "slice_le (key_slice (Key KT_QUEUE lo)) s"
    by (cases rule: at_rest_key) (auto simp: KT_QUEUE_le simp del: Key_le intro: Key_le [THEN iffD2])
qed

text \<open>No chunks in the journal.\<close>

lemma ctor_no_chunks:
  assumes L: "journal_contract L" and rest: "at_rest L db lo hi 0" and lt: "lo < hi"
  shows "ldb_Seek L (key_slice (Key KT_CHUNK 0)) db = None"
    "ldb_SeekToLast L db = Some (key_slice (Key KT_QUEUE (hi - 1)))"
proof -
  have no: "\<not> slice_le (key_slice (Key KT_CHUNK 0)) s" if "s \<in> stored L db" for s
    using rest that by (cases rule: at_rest_key) (simp_all add: KT_QUEUE_le del: Key_le)
  then show "ldb_Seek L (key_slice (Key KT_CHUNK 0)) db = None"
    using iterators(1) [OF L at_rest_stored [OF rest], of "Key KT_CHUNK 0"] by (auto simp: seek_at_def split: option.splits)
  note hi = below_hi [OF lt]
  show "ldb_SeekToLast L db = Some (key_slice (Key KT_QUEUE (hi - 1)))"
  proof (rule cmp.last_at_unique [OF at_rest_stored [OF rest] iterators(3) [OF L at_rest_stored [OF rest]]])
    show "key_slice (Key KT_QUEUE (hi - 1)) \<in> stored L db" by (rule at_rest_item [OF rest hi(1,2)])
    fix s assume "s \<in> stored L db"
    from rest this show "slice_le s (key_slice (Key KT_QUEUE (hi - 1)))"
      by (cases rule: at_rest_key) (use hi(3) in auto)
  qed
qed

text \<open>With chunks: the last key is a chunk, and the one before the first chunk is the last item.\<close>

lemma ctor_chunks:
  assumes L: "journal_contract L" and rest: "at_rest L db lo hi ch" and lt: "lo < hi"
    and c: "get_chunk L db c \<noteq> None"
  obtains d m where "ldb_Seek L (key_slice (Key KT_CHUNK 0)) db = Some (key_slice (Key KT_CHUNK d))"
    "ldb_Prev L (key_slice (Key KT_CHUNK d)) db = Some (key_slice (Key KT_QUEUE (hi - 1)))"
    "ldb_SeekToLast L db = Some (key_slice (Key KT_CHUNK m))" "m < ch" "\<And>c. get_chunk L db c \<noteq> None \<Longrightarrow> c \<le> m"
proof -
  note st = at_rest_stored [OF rest] and it = iterators [OF L at_rest_stored [OF rest]]
  have cst: "key_slice (Key KT_CHUNK e) \<in> stored L db" if "get_chunk L db e \<noteq> None" for e
    using that by (auto simp: get_chunk_def stored_def)
  obtain s where s: "ldb_Seek L (key_slice (Key KT_CHUNK 0)) db = Some s" "s \<in> stored L db"
    "slice_le (key_slice (Key KT_CHUNK 0)) s" "\<And>k. k \<in> stored L db \<Longrightarrow> slice_le (key_slice (Key KT_CHUNK 0)) k \<Longrightarrow> slice_le s k"
    using it(1) [of "Key KT_CHUNK 0"] cst [OF c] by (auto simp: seek_at_def split: option.splits)
  from rest s(2) obtain d where d: "s = key_slice (Key KT_CHUNK d)"
    by (cases rule: at_rest_key) (use s(3) in \<open>simp_all add: KT_QUEUE_le del: Key_le\<close>)
  obtain t where t: "ldb_SeekToLast L db = Some t" "t \<in> stored L db" "\<And>k. k \<in> stored L db \<Longrightarrow> slice_le k t"
    using it(3) cst [OF c] by (auto simp: last_at_def split: option.splits)
  from rest t(2) obtain m where m: "t = key_slice (Key KT_CHUNK m)" "m < ch"
    by (cases rule: at_rest_key) (use t(3) [OF cst [OF c]] in \<open>simp_all add: KT_QUEUE_le del: Key_le\<close>)
  have "ldb_Prev L (key_slice (Key KT_CHUNK d)) db = Some (key_slice (Key KT_QUEUE (hi - 1)))"
  proof (rule cmp.prev_at_unique [OF st it(2)])
    show "key_slice (Key KT_QUEUE (hi - 1)) \<in> stored L db" by (rule at_rest_item [OF rest below_hi(1,2) [OF lt]])
    show "\<not> slice_le (key_slice (Key KT_CHUNK d)) (key_slice (Key KT_QUEUE (hi - 1)))" by (simp add: KT_QUEUE_le del: Key_le)
    fix k assume k: "k \<in> stored L db" "\<not> slice_le (key_slice (Key KT_CHUNK d)) k"
    from rest k(1) show "slice_le k (key_slice (Key KT_QUEUE (hi - 1)))"
    proof (cases rule: at_rest_key)
      case (item i)
      then show ?thesis using below_hi(3) [OF lt] by simp
    next
      case (chunk e)
      then have "slice_le (key_slice (Key KT_CHUNK 0)) k" by simp
      then show ?thesis using s(4) [OF k(1)] k(2) d by simp
    qed
  qed
  moreover have "e \<le> m" if "get_chunk L db e \<noteq> None" for e
    using t(3) [OF cst [OF that]] m(1) by simp
  ultimately show thesis using s(1) d t(1) m by (intro that) simp_all
qed

lemma ctor_reopens:
  assumes L: "journal_contract L" and rest: "at_rest L db lo hi ch" and lt: "lo < hi"
  obtains n where "queue_ctor L (Some db) p = Inr ((queue_fresh db p)\<lparr>queue_tail := Key KT_QUEUE lo,
      queue_head := Key KT_QUEUE hi, chunks_head := Key KT_CHUNK n\<rparr>)"
    "\<And>c. get_chunk L db c \<noteq> None \<Longrightarrow> c < n"
proof (cases "\<exists>c. get_chunk L db c \<noteq> None")
  case False
  have "s \<in> key_slice ` {Key KT_QUEUE i | i. lo \<le> i \<and> i < hi}" if "s \<in> stored L db" for s
    using rest that
  proof (cases rule: at_rest_key)
    case (chunk c)
    then have "get_chunk L db c \<noteq> None" using that by (simp add: get_chunk_def stored_def)
    then show ?thesis using False by blast
  qed auto
  then have "at_rest L db lo hi 0"
    using rest unfolding at_rest_def by (auto simp: subset_iff)
  note nc = ctor_no_chunks [OF L this lt]
  show thesis
    by (rule that [of 0])
      (use False in \<open>simp_all add: queue_ctor_def Let_def ctor_tail [OF L rest lt] nc iterator_key_def
        below_hi(4) [OF lt] queue_fresh_def with_id_def\<close>)
next
  case True
  then obtain c where "get_chunk L db c \<noteq> None" by blast
  from ctor_chunks [OF L rest lt this] obtain d m where
    dm: "ldb_Seek L (key_slice (Key KT_CHUNK 0)) db = Some (key_slice (Key KT_CHUNK d))"
      "ldb_Prev L (key_slice (Key KT_CHUNK d)) db = Some (key_slice (Key KT_QUEUE (hi - 1)))"
      "ldb_SeekToLast L db = Some (key_slice (Key KT_CHUNK m))" and m: "m < ch" "\<And>c. get_chunk L db c \<noteq> None \<Longrightarrow> c \<le> m"
    by blast
  have "m < m + 1" using less_plus_one [OF m(1)] by simp
  then have "c < m + 1" if "get_chunk L db c \<noteq> None" for c using m(2) [OF that] by (rule le_less_trans [rotated])
  then show thesis
    by (intro that [of "m + 1"])
      (simp_all add: queue_ctor_def Let_def ctor_tail [OF L rest lt] dm iterator_key_def
        below_hi(4) [OF lt] queue_fresh_def with_id_def)
qed

section \<open>The reopened queue\<close>

lemma item_ok_reopened:
  assumes "item_ok L db hi i" "\<And>c. get_chunk L db c \<noteq> None \<Longrightarrow> c < n"
  shows "item_ok L db n i"
proof -
  have "header_ok L db n h" if h: "header_ok L db hi h" for h
  proof -
    obtain cs where cs: "chunks_of L db h = Some cs" using h by (auto simp: header_ok_def)
    have lt: "h_beg h < h_end h" using h by (simp add: header_ok_def)
    have "h_end h - 1 \<in> set (id_range (h_beg h) (h_end h))"
      using below_hi [OF lt] by (simp add: set_id_range less_imp_le [OF lt])
    moreover have "get_chunk L db ` set (id_range (h_beg h) (h_end h)) = Some ` set cs"
      using cs by (metis chunks_of_def those_eq_Some list.set_map)
    ultimately have "get_chunk L db (h_end h - 1) \<in> Some ` set cs" by blast
    then have "get_chunk L db (h_end h - 1) \<noteq> None" by auto
    then have "h_end h - 1 < n" by (rule assms(2))
    then have "h_end h - 1 + 1 \<le> n" using less_plus_one by blast
    then show ?thesis using h below_hi(4) [OF lt] by (simp add: header_ok_def)
  qed
  with assms(1) show ?thesis by (auto simp: item_ok_def split: option.splits stored_value.splits)
qed

text \<open>
  C9: reopening a journal whose items are numbered without a gap gives a queue with the same items in
  the same order, and chunk numbers that clash with none that is stored.
\<close>

theorem reopen_restores:
  fixes L :: "'db leveldb" and q :: "('db, 'cb) queue"
  assumes L: "journal_contract L" and inv: "queue_inv L {} W q" and rest: "at_rest L (journal q) lo hi ch"
    and ready: "ready_ids q = id_range lo hi" and lt: "lo < hi"
  shows "\<exists>q' :: ('db, 'cb) queue. queue_ctor L (Some (journal q)) p = Inr q' \<and> queue_inv L {} {} q' \<and>
    queue_abs L {} q' = queue_abs L {} q \<and>
    (\<forall>c. get_chunk L (journal q) c \<noteq> None \<longrightarrow> c < key_id (chunks_head q'))"
proof -
  obtain n where ct: "queue_ctor L (Some (journal q)) p = Inr ((queue_fresh (journal q) p :: ('db, 'cb) queue)\<lparr>queue_tail := Key KT_QUEUE lo,
      queue_head := Key KT_QUEUE hi, chunks_head := Key KT_CHUNK n\<rparr>)" (is "_ = Inr ?q")
    and n: "\<And>c. get_chunk L (journal q) c \<noteq> None \<Longrightarrow> c < n"
    using ctor_reopens [OF L rest lt] by blast
  have r: "ready_ids ?q = ready_ids q" unfolding ready by (simp add: ready_ids_def queue_fresh_def)
  have j: "journal_inv L (set (ready_ids q)) W (key_id (chunks_head q)) (journal q)" using inv by (simp add: queue_inv_def)
  have "item_ok L (journal q) n i" if "i \<in> set (ready_ids q)" for i
    by (rule item_ok_reopened [of _ _ "key_id (chunks_head q)", OF _ n]) (use j that in \<open>simp add: journal_inv_def\<close>)
  then have "journal_inv L (set (ready_ids q)) {} n (journal q)"
    using j by (simp add: journal_inv_def)
  moreover have "ids_inv {} ?q" using lt by (simp add: ids_inv_def queue_fresh_def)
  ultimately have "queue_inv L {} {} ?q" by (simp add: queue_inv_def r) (simp add: queue_fresh_def)
  moreover have "queue_abs L {} ?q = queue_abs L {} q" by (simp add: queue_abs_def r) (simp add: queue_fresh_def)
  ultimately show ?thesis using ct n by (intro exI [of _ ?q]) simp
qed

definition rest_queue :: "(mem_db, nat) queue" where
  "rest_queue = snd (push_item mem_journal ''yo'' False (snd (push_item mem_journal ''hi'' False (queue_fresh (mem_empty []) ''q''))))"

lemma rest_queue_inv: "queue_inv mem_journal {} {} rest_queue"
proof -
  let ?q0 = "queue_fresh (mem_empty []) ''q'' :: (mem_db, nat) queue"
  let ?q1 = "snd (push_item mem_journal ''hi'' False ?q0)"
  have "fst (push_item mem_journal ''hi'' False ?q0) = Inr 0" by code_simp
  then have p1: "push_item mem_journal ''hi'' False ?q0 = (Inr 0, ?q1)" by (simp add: prod_eq_iff)
  have "fst (push_item mem_journal ''yo'' False ?q1) = Inr 1" by code_simp
  then have p2: "push_item mem_journal ''yo'' False ?q1 = (Inr 1, rest_queue)" by (simp add: prod_eq_iff rest_queue_def)
  have h: "key_id (queue_head ?q0) + 1 \<noteq> 0" "key_id (queue_head ?q1) + 1 \<noteq> 0" by code_simp+
  have "queue_inv mem_journal {} {} ?q0" by (rule queue_fresh_inv) simp
  then have "queue_inv mem_journal {} {} ?q1" using push_item_refines(1) [OF mem_journal_contract _ h(1) p1] by blast
  then show ?thesis using push_item_refines(1) [OF mem_journal_contract _ h(2) p2] by blast
qed

lemma rest_queue_rest: "at_rest mem_journal (journal rest_queue) 0 2 0" "ready_ids rest_queue = id_range 0 2"
proof -
  have "map fst (mdb_entries (journal rest_queue)) = map key_slice [Key KT_QUEUE 1, Key KT_QUEUE 0]" by code_simp
  then have "set (map fst (mdb_entries (journal rest_queue))) = set (map key_slice [Key KT_QUEUE 1, Key KT_QUEUE 0])"
    by (rule arg_cong)
  then have st: "stored mem_journal (journal rest_queue) = {key_slice (Key KT_QUEUE 1), key_slice (Key KT_QUEUE 0)}"
    by (simp add: stored_mem)
  have "get_item mem_journal (journal rest_queue) i \<noteq> None \<longleftrightarrow> i = 0 \<or> i = 1" for i
    using st unfolding get_item_def stored_def set_eq_iff by (simp add: disj_commute)
  moreover have "i < 2 \<longleftrightarrow> i = 0 \<or> i = 1" for i :: u64
    by (auto simp: word_less_nat_alt word_unat_eq_iff less_2_cases_iff)
  ultimately show "at_rest mem_journal (journal rest_queue) 0 2 0" by (auto simp: at_rest_def st)
  show "ready_ids rest_queue = id_range 0 2" by code_simp
qed

theorem reopen_restores_witness:
  "\<exists>q' :: (mem_db, nat) queue. queue_ctor mem_journal (Some (journal rest_queue)) ''q'' = Inr q' \<and>
     queue_abs mem_journal {} q' = queue_abs mem_journal {} rest_queue \<and> length (ready_ids rest_queue) = 2"
proof -
  have "(0 :: u64) < 2" by simp
  from reopen_restores [OF mem_journal_contract rest_queue_inv rest_queue_rest this, of "''q''"] rest_queue_rest(2)
  show ?thesis by auto
qed

text \<open>
  C38: a crash in the middle of the first chunked item leaves a journal with chunks and no item; opening it reads the key of an
  iterator that is not valid.
\<close>

theorem unfinished_push_breaks_reopen:
  assumes L: "journal_contract L" and st: "stored L db \<subseteq> key_slice ` {Key KT_CHUNK c | c. True}" "stored L db \<noteq> {}"
  shows "queue_ctor L (Some db) p = Inl Undefined"
proof -
  have sl: "stored L db \<subseteq> Collect is_key_slice" using st(1) by auto
  note it = iterators [OF L sl]
  have key: "\<exists>c. s = key_slice (Key KT_CHUNK c)" if "s \<in> stored L db" for s using st(1) that by auto
  obtain s where s: "ldb_Seek L (key_slice (Key KT_QUEUE 0)) db = Some s" "s \<in> stored L db"
  proof -
    have "\<exists>k \<in> stored L db. slice_le (key_slice (Key KT_QUEUE 0)) k"
      using st(2) key by (fastforce simp: KT_QUEUE_le simp del: Key_le)
    then show thesis using that it(1) [of "Key KT_QUEUE 0"] by (auto simp: seek_at_def split: option.splits)
  qed
  obtain t where t: "ldb_Seek L (key_slice (Key KT_CHUNK 0)) db = Some t" "t \<in> stored L db"
    "\<And>k. k \<in> stored L db \<Longrightarrow> slice_le (key_slice (Key KT_CHUNK 0)) k \<Longrightarrow> slice_le t k"
  proof -
    have "\<exists>k \<in> stored L db. slice_le (key_slice (Key KT_CHUNK 0)) k" using st(2) key by fastforce
    then show thesis using that it(1) [of "Key KT_CHUNK 0"] by (auto simp: seek_at_def split: option.splits)
  qed
  obtain c d where c: "s = key_slice (Key KT_CHUNK c)" and d: "t = key_slice (Key KT_CHUNK d)" using key s(2) t(2) by metis
  have "slice_le t k" if "k \<in> stored L db" for k using t(3) [OF that] key [OF that] by auto
  then have "ldb_Prev L (key_slice (Key KT_CHUNK d)) db = None"
    using it(2) [of "Key KT_CHUNK d"] d by (auto simp: prev_at_def split: option.splits)
  then show ?thesis by (simp add: queue_ctor_def Let_def s(1) t(1) c d iterator_key_def)
qed

definition unfinished_db :: mem_db where
  "unfinished_db = journal (snd (write_chunk mem_journal ''hi'' 0 (snd (reserve_chunks 2 (queue_fresh (mem_empty []) ''q'' :: (mem_db, nat) queue)))))"

theorem unfinished_push_breaks_reopen_witness:
  "queue_ctor mem_journal (Some unfinished_db) ''q'' = (Inl Undefined :: error + (mem_db, nat) queue)"
proof (rule unfinished_push_breaks_reopen)
  have "map fst (mdb_entries unfinished_db) = map key_slice [Key KT_CHUNK 0]" by code_simp
  then have "set (map fst (mdb_entries unfinished_db)) = {key_slice (Key KT_CHUNK 0)}" by simp
  then show "stored mem_journal unfinished_db \<subseteq> key_slice ` {Key KT_CHUNK c | c. True}" "stored mem_journal unfinished_db \<noteq> {}"
    by (auto simp: stored_mem)
qed simp

end
