(* ===== verification/Queue_Map.thy ===== *)
theory Queue_Map
  imports Queue "HOL-Library.Char_ord" "HOL-Library.List_Lexorder"
begin

text \<open>
  Queues by name (\<^verbatim>\<open>queue_map.hpp\<close>) and the two methods of \<^verbatim>\<open>queue\<close> that reach the file system, \<^verbatim>\<open>destroy\<close> and the destructor
  (\<^verbatim>\<open>queue.cpp\<close>). Queues are objects on a heap, shared by the map, the streams and the pending timers; an
  address is a natural number that is never used again. The file system and opening and
  closing a journal, Boost.Filesystem and LevelDB, are the fields of a record that the definitions take as
  an argument.
\<close>

section \<open>The file system\<close>

text \<open>
  \<open>fs_append\<close> is \<^verbatim>\<open>operator/\<close> of paths, \<open>fs_list\<close> the file names a \<^verbatim>\<open>directory_iterator\<close> runs over (\<open>None\<close> when it throws);
  the functions that return a boolean throw a \<^verbatim>\<open>filesystem_error\<close> when it is false. \<open>db_open\<close> is
  \<^verbatim>\<open>leveldb::DB::Open\<close> with \<^verbatim>\<open>create_if_missing\<close> first, \<open>None\<close> when its status is not ok; \<open>db_close\<close> is the destructor of \<^verbatim>\<open>leveldb::DB\<close>.
\<close>

record ('fs, 'db) filesystem =
  fs_append :: "string \<Rightarrow> string \<Rightarrow> string"
  fs_exists :: "string \<Rightarrow> 'fs \<Rightarrow> bool"
  fs_list :: "string \<Rightarrow> 'fs \<Rightarrow> string list option"
  fs_rename :: "string \<Rightarrow> string \<Rightarrow> 'fs \<Rightarrow> bool \<times> 'fs"
  fs_remove_all :: "string \<Rightarrow> 'fs \<Rightarrow> bool \<times> 'fs"
  db_open :: "bool \<Rightarrow> string \<Rightarrow> 'fs \<Rightarrow> 'db option \<times> 'fs"
  db_close :: "string \<Rightarrow> 'db \<Rightarrow> 'fs \<Rightarrow> 'fs"

section \<open>Destroying a queue\<close>

text \<open>
  The loop of \<^verbatim>\<open>destroy\<close> that looks for a free name: it starts at suffix zero and tries that one twice. It
  does not end when every one of the $2^{64}$ names is taken.
\<close>

partial_function (option) free_path :: "(string \<Rightarrow> bool) \<Rightarrow> string \<Rightarrow> u64 \<Rightarrow> string \<Rightarrow> string option" where
  "free_path taken p i new_path =
     (if taken new_path then free_path taken p (i + 1) (p @ ''.'' @ decimal (unat i)) else Some new_path)"

declare free_path.simps [code]

text \<open>
  \<^verbatim>\<open>destroy\<close>: the journal is closed, renamed and opened again under the new name. No caller catches what it throws, so
  the closed journal of a failed call is not looked at again.
\<close>

definition queue_destroy :: "('fs, 'db) filesystem \<Rightarrow> 'fs \<Rightarrow> ('db, 'cb) queue \<Rightarrow> ('fs \<times> ('db, 'cb) queue, unit) outcome" where
  "queue_destroy F fs q =
     (if destroy_flag q then (Inr (), (fs, q))
      else case free_path (\<lambda>p. fs_exists F p fs) (path q) 0 (path q @ ''.0'') of
        None \<Rightarrow> (Inl Diverges, (fs, q))
      | Some new_path \<Rightarrow>
          let fs1 = db_close F (path q) (journal q) fs
          in case fs_rename F (path q) new_path fs1 of
               (False, fs2) \<Rightarrow> (Inl Fs_error, (fs2, q))
             | (True, fs2) \<Rightarrow> (case db_open F False new_path fs2 of
                   (None, fs3) \<Rightarrow> (Inl (Cannot_open (path q)), (fs3, q))
                 | (Some db, fs3) \<Rightarrow>
                     (Inr (), (fs3, q\<lparr>journal := db, path := new_path, destroy_flag := True\<rparr>))))"

definition queue_dtor :: "('fs, 'db) filesystem \<Rightarrow> ('db, 'cb) queue \<Rightarrow> 'fs \<Rightarrow> ('fs, unit) outcome" where
  "queue_dtor F q fs =
     (let fs1 = db_close F (path q) (journal q) fs
      in if destroy_flag q
         then (case fs_remove_all F (path q) fs1 of (ok, fs2) \<Rightarrow> (if ok then Inr () else Inl Fs_error, fs2))
         else (Inr (), fs1))"

section \<open>An ordered map\<close>

text \<open>\<^verbatim>\<open>std::map\<close> as the list of its entries in the order of the keys.\<close>

definition map_find :: "('k \<times> 'v) list \<Rightarrow> 'k \<Rightarrow> 'v option" where
  "map_find m k = map_of m k"

fun map_insert :: "'k :: linorder \<Rightarrow> 'v \<Rightarrow> ('k \<times> 'v) list \<Rightarrow> ('k \<times> 'v) list" where
  "map_insert k v [] = [(k, v)]"
| "map_insert k v ((k', v') # m) =
     (if k < k' then (k, v) # (k', v') # m else if k = k' then (k, v) # m else (k', v') # map_insert k v m)"

definition map_erase :: "'k \<Rightarrow> ('k \<times> 'v) list \<Rightarrow> ('k \<times> 'v) list" where
  "map_erase k m = filter (\<lambda>e. fst e \<noteq> k) m"

section \<open>The map of queues\<close>

record ('fs, 'db, 'cb) queue_map =
  qm_fs :: 'fs
  qm_heap :: "nat \<Rightarrow> ('db, 'cb) queue option"
  qm_next :: nat
  qm_queues :: "(string \<times> nat) list"
  qm_data_path :: string

text \<open>\<^verbatim>\<open>make_shared<queue>\<close>: the new object's address, or what the constructor throws.\<close>

definition make_queue :: "'db leveldb \<Rightarrow> ('fs, 'db) filesystem \<Rightarrow> string \<Rightarrow> ('fs, 'db, 'cb) queue_map \<Rightarrow>
    (('fs, 'db, 'cb) queue_map, nat) outcome" where
  "make_queue L F queue_name m =
     (let p = fs_append F (qm_data_path m) queue_name
      in case db_open F True p (qm_fs m) of
           (pdb, fs1) \<Rightarrow> (case queue_ctor L pdb p of
               Inl e \<Rightarrow> (Inl e, m\<lparr>qm_fs := fs1\<rparr>)
             | Inr q \<Rightarrow> (Inr (qm_next m),
                 m\<lparr>qm_fs := fs1, qm_heap := (qm_heap m)(qm_next m \<mapsto> q), qm_next := Suc (qm_next m)\<rparr>)))"

text \<open>\<^verbatim>\<open>queues_[queue_name] = make_shared<queue>(...)\<close>.\<close>

definition assign_queue :: "'db leveldb \<Rightarrow> ('fs, 'db) filesystem \<Rightarrow> string \<Rightarrow> ('fs, 'db, 'cb) queue_map \<Rightarrow>
    (('fs, 'db, 'cb) queue_map, nat) outcome" where
  "assign_queue L F queue_name m = (case make_queue L F queue_name m of
     (Inl e, m1) \<Rightarrow> (Inl e, m1)
   | (Inr a, m1) \<Rightarrow> (Inr a, m1\<lparr>qm_queues := map_insert queue_name a (qm_queues m1)\<rparr>))"

fun load_queues :: "'db leveldb \<Rightarrow> ('fs, 'db) filesystem \<Rightarrow> string list \<Rightarrow> ('fs, 'db, 'cb) queue_map \<Rightarrow>
    (('fs, 'db, 'cb) queue_map, unit) outcome" where
  "load_queues L F [] m = (Inr (), m)"
| "load_queues L F (queue_name # names) m = (case assign_queue L F queue_name m of
     (Inl e, m1) \<Rightarrow> (Inl e, m1)
   | (Inr _, m1) \<Rightarrow> load_queues L F names m1)"

definition queue_map_ctor :: "'db leveldb \<Rightarrow> ('fs, 'db) filesystem \<Rightarrow> 'fs \<Rightarrow> string \<Rightarrow> (('fs, 'db, 'cb) queue_map, unit) outcome" where
  "queue_map_ctor L F fs data_path =
     (let m = \<lparr>qm_fs = fs, qm_heap = Map.empty, qm_next = 0, qm_queues = [], qm_data_path = data_path\<rparr>
      in case fs_list F data_path fs of
           None \<Rightarrow> (Inl Fs_error, m)
         | Some names \<Rightarrow> load_queues L F names m)"

definition queue_map_get :: "'db leveldb \<Rightarrow> ('fs, 'db) filesystem \<Rightarrow> string \<Rightarrow> ('fs, 'db, 'cb) queue_map \<Rightarrow>
    (('fs, 'db, 'cb) queue_map, nat) outcome" where
  "queue_map_get L F queue_name m = (case map_find (qm_queues m) queue_name of
     Some a \<Rightarrow> (Inr a, m)
   | None \<Rightarrow> assign_queue L F queue_name m)"

text \<open>
  The last owner of a queue gone: \<open>owned\<close> are the addresses that somebody else owns. The map is an owner, and the
  timer of a waiter owns the queue until its completion has run.
\<close>

definition release_queue :: "('fs, 'db) filesystem \<Rightarrow> (nat \<Rightarrow> bool) \<Rightarrow> nat \<Rightarrow> ('fs, 'db, 'cb) queue_map \<Rightarrow>
    (('fs, 'db, 'cb) queue_map, unit) outcome" where
  "release_queue F owned a m = (case qm_heap m a of
     None \<Rightarrow> (Inr (), m)
   | Some q \<Rightarrow>
       if owned a \<or> a \<in> snd ` set (qm_queues m) \<or> waiters q \<noteq> [] then (Inr (), m)
       else case queue_dtor F q (qm_fs m) of
         (r, fs1) \<Rightarrow> (r, m\<lparr>qm_fs := fs1, qm_heap := (qm_heap m)(a := None)\<rparr>))"

text \<open>\<^verbatim>\<open>erase\<close>, with a name that outlives the call.\<close>

definition queue_map_remove :: "('fs, 'db) filesystem \<Rightarrow> (nat \<Rightarrow> bool) \<Rightarrow> string \<Rightarrow> nat \<Rightarrow> ('fs, 'db, 'cb) queue_map \<Rightarrow>
    (('fs, 'db, 'cb) queue_map, unit) outcome" where
  "queue_map_remove F owned queue_name a m = (case qm_heap m a of
     None \<Rightarrow> (Inl Undefined, m)
   | Some q \<Rightarrow> (case queue_destroy F (qm_fs m) q of
       (Inl e, (fs1, q1)) \<Rightarrow> (Inl e, m\<lparr>qm_fs := fs1, qm_heap := (qm_heap m)(a \<mapsto> q1)\<rparr>)
     | (Inr _, (fs1, q1)) \<Rightarrow>
         release_queue F owned a
           (m\<lparr>qm_fs := fs1, qm_heap := (qm_heap m)(a \<mapsto> q1), qm_queues := map_erase queue_name (qm_queues m)\<rparr>)))"

definition queue_map_erase :: "'db leveldb \<Rightarrow> ('fs, 'db) filesystem \<Rightarrow> (nat \<Rightarrow> bool) \<Rightarrow> string \<Rightarrow> bool \<Rightarrow> ('fs, 'db, 'cb) queue_map \<Rightarrow>
    (('fs, 'db, 'cb) queue_map, unit) outcome" where
  "queue_map_erase L F owned queue_name recreate m = (case map_find (qm_queues m) queue_name of
     None \<Rightarrow> (Inr (), m)
   | Some a \<Rightarrow> (case queue_map_remove F owned queue_name a m of
       (Inl e, m1) \<Rightarrow> (Inl e, m1)
     | (Inr _, m1) \<Rightarrow>
         if recreate then (case assign_queue L F queue_name m1 of (Inl e, m2) \<Rightarrow> (Inl e, m2) | (Inr _, m2) \<Rightarrow> (Inr (), m2))
         else (Inr (), m1)))"

section \<open>What the ordered map promises\<close>

locale ordered_map =
  fixes find :: "'m \<Rightarrow> 'k :: linorder \<Rightarrow> 'v option"
    and insert :: "'k \<Rightarrow> 'v \<Rightarrow> 'm \<Rightarrow> 'm"
    and erase :: "'k \<Rightarrow> 'm \<Rightarrow> 'm"
    and entries :: "'m \<Rightarrow> ('k \<times> 'v) list"
    and wf :: "'m \<Rightarrow> bool"
  assumes find_insert: "wf m \<Longrightarrow> find (insert k v m) k' = (if k' = k then Some v else find m k')"
    and find_erase: "wf m \<Longrightarrow> find (erase k m) k' = (if k' = k then None else find m k')"
    and wf_insert: "wf m \<Longrightarrow> wf (insert k v m)"
    and wf_erase: "wf m \<Longrightarrow> wf (erase k m)"
    and entries_sorted: "wf m \<Longrightarrow> sorted_wrt (<) (map fst (entries m))"
    and entries_find: "wf m \<Longrightarrow> find m = map_of (entries m)"
begin

lemma erase_insert: "wf m \<Longrightarrow> find (erase k (insert k v m)) = (find m)(k := None)"
  by (simp add: find_insert find_erase wf_insert fun_eq_iff)

lemma entry_iff: "wf m \<Longrightarrow> (k, v) \<in> set (entries m) \<longleftrightarrow> find m k = Some v"
  using entries_sorted [of m] by (simp add: entries_find strict_sorted_iff)

lemma entries_insert: "wf m \<Longrightarrow> set (entries (insert k v m)) = {(k, v)} \<union> {e \<in> set (entries m). fst e \<noteq> k}"
  by (auto simp: entry_iff find_insert wf_insert split: if_splits)

lemma entries_erase: "wf m \<Longrightarrow> set (entries (erase k m)) = {e \<in> set (entries m). fst e \<noteq> k}"
  by (auto simp: entry_iff find_erase wf_erase split: if_splits)

end

definition map_sorted :: "('k :: linorder \<times> 'v) list \<Rightarrow> bool" where
  "map_sorted m \<longleftrightarrow> sorted_wrt (<) (map fst m)"

lemma fst_map_insert: "fst ` set (map_insert k v m) = insert k (fst ` set m)"
proof (induction m)
  case (Cons e m)
  then show ?case by (cases e) (auto simp: insert_commute)
qed simp

lemma map_sorted_insert: "map_sorted m \<Longrightarrow> map_sorted (map_insert k v m)"
proof (induction m)
  case (Cons e m)
  obtain k' v' where e: "e = (k', v')" by (cases e)
  have m: "map_sorted m" "\<forall>x \<in> fst ` set m. k' < x" using Cons.prems by (auto simp: map_sorted_def e)
  then have "map_sorted (map_insert k v m)" using Cons.IH by simp
  with m show ?case using fst_map_insert [of k v m] by (auto simp: map_sorted_def e)
qed (simp add: map_sorted_def)

lemma find_map_insert: "map_sorted m \<Longrightarrow> map_find (map_insert k v m) k' = (if k' = k then Some v else map_find m k')"
proof (induction m)
  case (Cons e m)
  then show ?case by (cases e) (auto simp: map_find_def map_sorted_def)
qed (simp add: map_find_def)

lemma find_map_erase: "map_find (map_erase k m) k' = (if k' = k then None else map_find m k')"
  by (induction m) (auto simp: map_find_def map_erase_def)

lemma map_sorted_erase: "map_sorted m \<Longrightarrow> map_sorted (map_erase k m)"
  by (induction m) (auto simp: map_sorted_def map_erase_def)

interpretation om: ordered_map map_find map_insert map_erase "\<lambda>m. m" map_sorted
proof unfold_locales
  show "map_sorted m \<Longrightarrow> sorted_wrt (<) (map fst m)" for m :: "('k :: linorder \<times> 'v) list" by (simp add: map_sorted_def)
  show "map_sorted m \<Longrightarrow> map_find m = map_of m" for m :: "('k :: linorder \<times> 'v) list" by (simp add: map_find_def fun_eq_iff)
qed (simp_all add: find_map_insert find_map_erase map_sorted_insert map_sorted_erase)

end
