(* ===== verification/Request.thy ===== *)
theory Request
  imports Prelude "HOL-Library.Sublist"
begin

text \<open>
  Requests and their grammar (\<^verbatim>\<open>request.h\<close>, \<^verbatim>\<open>request.cpp\<close>). The grammar is written with the parsers and operators of
  Boost.Spirit.Qi, a library outside the repository: they are the fields of a record that every rule takes as an
  argument, and \<open>qi_contract\<close> states what Qi documents about them. The last section is an instance the
  witnesses run on.
\<close>

section \<open>Requests\<close>

datatype request_type = RT_STATS | RT_VERSION | RT_DESTROY | RT_FLUSH | RT_FLUSH_ALL | RT_SET | RT_GET

text \<open>\<^verbatim>\<open>request()\<close> is all zeros; \<open>None\<close> is the type zero, which is none of the enumerators.\<close>

record request =
  r_type :: "request_type option"
  r_queue :: string
  r_num_bytes :: u64
  r_get_open :: bool
  r_get_peek :: bool
  r_get_close :: bool
  r_get_abort :: bool
  r_set_sync :: bool
  r_wait_ms :: u64

definition request_default :: request where
  "request_default = \<lparr>r_type = None, r_queue = [], r_num_bytes = 0, r_get_open = False, r_get_peek = False,
     r_get_close = False, r_get_abort = False, r_set_sync = False, r_wait_ms = 0\<rparr>"

section \<open>Qi\<close>

text \<open>
  A rule takes the rest of the input and the request that the semantic actions fill in. It returns what is left of
  the input, or \<open>None\<close> if it fails; the effects of the actions stay either way. The character parsers
  \<^verbatim>\<open>alnum\<close> and \<^verbatim>\<open>punct\<close> are predicates; \<^verbatim>\<open>+\<close> of a character parser and \<^verbatim>\<open>uint_\<close> come with the action on their
  attribute, \<open>qi_act\<close> is an action that ignores it.
\<close>

type_synonym rule = "string \<Rightarrow> request \<Rightarrow> string option \<times> request"

record qi =
  qi_alnum :: "char \<Rightarrow> bool"
  qi_punct :: "char \<Rightarrow> bool"
  qi_lit :: "string \<Rightarrow> rule"
  qi_plus :: "(char \<Rightarrow> bool) \<Rightarrow> (string \<Rightarrow> request \<Rightarrow> request) \<Rightarrow> rule"
  qi_uint :: "(u32 \<Rightarrow> request \<Rightarrow> request) \<Rightarrow> rule"
  qi_eol :: rule
  qi_act :: "rule \<Rightarrow> (request \<Rightarrow> request) \<Rightarrow> rule"
  qi_seq :: "rule \<Rightarrow> rule \<Rightarrow> rule"
  qi_alt :: "rule \<Rightarrow> rule \<Rightarrow> rule"
  qi_opt :: "rule \<Rightarrow> rule"
  qi_star :: "rule \<Rightarrow> rule"

section \<open>The grammar\<close>

definition g_key_name :: "qi \<Rightarrow> (string \<Rightarrow> request \<Rightarrow> request) \<Rightarrow> rule" where
  "g_key_name Q f = qi_plus Q (\<lambda>c. (qi_alnum Q c \<or> qi_punct Q c) \<and> c \<noteq> CHR ''/'') f"

definition g_stats :: "qi \<Rightarrow> rule" where
  "g_stats Q = qi_act Q (qi_lit Q ''stats'') (\<lambda>r. r\<lparr>r_type := Some RT_STATS\<rparr>)"

definition g_version :: "qi \<Rightarrow> rule" where
  "g_version Q = qi_act Q (qi_lit Q ''version'') (\<lambda>r. r\<lparr>r_type := Some RT_VERSION\<rparr>)"

definition g_destroy :: "qi \<Rightarrow> rule" where
  "g_destroy Q = qi_seq Q (qi_act Q (qi_lit Q ''delete '') (\<lambda>r. r\<lparr>r_type := Some RT_DESTROY\<rparr>))
     (g_key_name Q (\<lambda>k r. r\<lparr>r_queue := k\<rparr>))"

definition g_flush :: "qi \<Rightarrow> rule" where
  "g_flush Q = qi_seq Q (qi_act Q (qi_lit Q ''flush '') (\<lambda>r. r\<lparr>r_type := Some RT_FLUSH\<rparr>))
     (g_key_name Q (\<lambda>k r. r\<lparr>r_queue := k\<rparr>))"

definition g_flush_all :: "qi \<Rightarrow> rule" where
  "g_flush_all Q = qi_act Q (qi_lit Q ''flush_all'') (\<lambda>r. r\<lparr>r_type := Some RT_FLUSH_ALL\<rparr>)"

definition g_set_option :: "qi \<Rightarrow> rule" where
  "g_set_option Q = qi_act Q (qi_lit Q ''/sync'') (\<lambda>r. r\<lparr>r_set_sync := True\<rparr>)"

definition g_set :: "qi \<Rightarrow> rule" where
  "g_set Q =
     qi_seq Q (qi_act Q (qi_lit Q ''set '') (\<lambda>r. r\<lparr>r_type := Some RT_SET\<rparr>))
    (qi_seq Q (g_key_name Q (\<lambda>k r. r\<lparr>r_queue := k\<rparr>))
    (qi_seq Q (qi_star Q (g_set_option Q))
    (qi_seq Q (qi_lit Q '' '')
    (qi_seq Q (qi_uint Q (\<lambda>n r. r))
    (qi_seq Q (qi_lit Q '' '')
    (qi_seq Q (qi_uint Q (\<lambda>n r. r))
    (qi_seq Q (qi_lit Q '' '')
              (qi_uint Q (\<lambda>n r. r\<lparr>r_num_bytes := ucast n\<rparr>)))))))))"

definition g_get_option :: "qi \<Rightarrow> rule" where
  "g_get_option Q =
     qi_alt Q (qi_act Q (qi_lit Q ''/open'') (\<lambda>r. r\<lparr>r_get_open := True\<rparr>))
    (qi_alt Q (qi_act Q (qi_lit Q ''/peek'') (\<lambda>r. r\<lparr>r_get_peek := True\<rparr>))
    (qi_alt Q (qi_act Q (qi_lit Q ''/close'') (\<lambda>r. r\<lparr>r_get_close := True\<rparr>))
    (qi_alt Q (qi_act Q (qi_lit Q ''/abort'') (\<lambda>r. r\<lparr>r_get_abort := True\<rparr>))
              (qi_seq Q (qi_lit Q ''/t='') (qi_uint Q (\<lambda>n r. r\<lparr>r_wait_ms := ucast n\<rparr>))))))"

definition g_get :: "qi \<Rightarrow> rule" where
  "g_get Q =
     qi_seq Q (qi_act Q (qi_lit Q ''get'') (\<lambda>r. r\<lparr>r_type := Some RT_GET\<rparr>))
    (qi_seq Q (qi_opt Q (qi_lit Q ''s''))
    (qi_seq Q (qi_lit Q '' '')
    (qi_seq Q (g_key_name Q (\<lambda>k r. r\<lparr>r_queue := k\<rparr>))
    (qi_seq Q (qi_star Q (g_get_option Q))
              (qi_opt Q (qi_lit Q '' ''))))))"

definition g_start :: "qi \<Rightarrow> rule" where
  "g_start Q =
     qi_seq Q
       (qi_alt Q (g_stats Q) (qi_alt Q (g_version Q) (qi_alt Q (g_destroy Q) (qi_alt Q (g_flush Q)
         (qi_alt Q (g_flush_all Q) (qi_alt Q (g_set Q) (g_get Q)))))))
       (qi_eol Q)"

text \<open>\<^verbatim>\<open>request_parser::parse\<close>: \<open>req\<close> is the output parameter, assigned on success only.\<close>

definition request_parse :: "qi \<Rightarrow> string \<Rightarrow> request \<Rightarrow> bool \<times> request" where
  "request_parse Q input req = (case g_start Q input request_default of
     (Some [], g) \<Rightarrow> (True, g)
   | _ \<Rightarrow> (False, req))"

section \<open>What Qi documents\<close>

definition ascii_alnum :: "char \<Rightarrow> bool" where
  "ascii_alnum c \<longleftrightarrow> (let n = (of_char c :: nat) in 48 \<le> n \<and> n \<le> 57 \<or> 65 \<le> n \<and> n \<le> 90 \<or> 97 \<le> n \<and> n \<le> 122)"

definition ascii_punct :: "char \<Rightarrow> bool" where
  "ascii_punct c \<longleftrightarrow> (let n = (of_char c :: nat) in
     33 \<le> n \<and> n \<le> 47 \<or> 58 \<le> n \<and> n \<le> 64 \<or> 91 \<le> n \<and> n \<le> 96 \<or> 123 \<le> n \<and> n \<le> 126)"

definition match_lit :: "string \<Rightarrow> string \<Rightarrow> string option" where
  "match_lit l s = (if take (length l) s = l then Some (drop (length l) s) else None)"

fun match_eol :: "string \<Rightarrow> string option" where
  "match_eol s = (if take 2 s = [CHR 0x0D, CHR 0x0A] then Some (drop 2 s)
     else if take 1 s = [CHR 0x0D] \<or> take 1 s = [CHR 0x0A] then Some (drop 1 s) else None)"

text \<open>Each parser and operator, on every input; repetition is greedy and stops at the first failure.\<close>

definition qi_parsers :: "qi \<Rightarrow> bool" where
  "qi_parsers Q \<longleftrightarrow> qi_alnum Q = ascii_alnum \<and> qi_punct Q = ascii_punct \<and>
     (\<forall>l s r. qi_lit Q l s r = (match_lit l s, r)) \<and>
     (\<forall>P f s r. qi_plus Q P f s r =
        (if takeWhile P s = [] then (None, r) else (Some (dropWhile P s), f (takeWhile P s) r))) \<and>
     (\<forall>f s r. qi_uint Q f s r =
        (let ds = takeWhile is_digit s in
         if ds = [] \<or> 4294967295 < int (digits_value ds) then (None, r)
         else (Some (dropWhile is_digit s), f (word_of_nat (digits_value ds)) r))) \<and>
     (\<forall>s r. qi_eol Q s r = (match_eol s, r))"

definition qi_operators :: "qi \<Rightarrow> bool" where
  "qi_operators Q \<longleftrightarrow>
     (\<forall>p f s r. qi_act Q p f s r = (case p s r of (Some t, r1) \<Rightarrow> (Some t, f r1) | (None, r1) \<Rightarrow> (None, r1))) \<and>
     (\<forall>p p' s r. qi_seq Q p p' s r = (case p s r of (Some t, r1) \<Rightarrow> p' t r1 | (None, r1) \<Rightarrow> (None, r1))) \<and>
     (\<forall>p p' s r. qi_alt Q p p' s r = (case p s r of (Some t, r1) \<Rightarrow> (Some t, r1) | (None, r1) \<Rightarrow> p' s r1)) \<and>
     (\<forall>p s r. qi_opt Q p s r = (case p s r of (Some t, r1) \<Rightarrow> (Some t, r1) | (None, r1) \<Rightarrow> (Some s, r1))) \<and>
     (\<forall>p s r r1. p s r = (None, r1) \<longrightarrow> qi_star Q p s r = (Some s, r1)) \<and>
     (\<forall>p s r t r1. p s r = (Some t, r1) \<longrightarrow> length t < length s \<longrightarrow> qi_star Q p s r = qi_star Q p t r1)"

definition qi_contract :: "qi \<Rightarrow> bool" where
  "qi_contract Q \<longleftrightarrow> qi_parsers Q \<and> qi_operators Q"

lemma qi_simps:
  assumes "qi_contract Q"
  shows "qi_alnum Q = ascii_alnum" "qi_punct Q = ascii_punct" "qi_lit Q l s r = (match_lit l s, r)"
    "qi_plus Q P f s r = (if takeWhile P s = [] then (None, r) else (Some (dropWhile P s), f (takeWhile P s) r))"
    "qi_uint Q g s r = (let ds = takeWhile is_digit s in if ds = [] \<or> 4294967295 < int (digits_value ds) then (None, r)
         else (Some (dropWhile is_digit s), g (word_of_nat (digits_value ds)) r))"
    "qi_eol Q s r = (match_eol s, r)"
    "qi_act Q p h s r = (case p s r of (Some t, r1) \<Rightarrow> (Some t, h r1) | (None, r1) \<Rightarrow> (None, r1))"
    "qi_seq Q p p' s r = (case p s r of (Some t, r1) \<Rightarrow> p' t r1 | (None, r1) \<Rightarrow> (None, r1))"
    "qi_alt Q p p' s r = (case p s r of (Some t, r1) \<Rightarrow> (Some t, r1) | (None, r1) \<Rightarrow> p' s r1)"
    "qi_opt Q p s r = (case p s r of (Some t, r1) \<Rightarrow> (Some t, r1) | (None, r1) \<Rightarrow> (Some s, r1))"
  using assms unfolding qi_contract_def qi_parsers_def qi_operators_def by simp_all

lemma qi_star_stop: "qi_contract Q \<Longrightarrow> p s r = (None, r1) \<Longrightarrow> qi_star Q p s r = (Some s, r1)"
  unfolding qi_contract_def qi_operators_def by blast

lemma qi_star_more:
  "qi_contract Q \<Longrightarrow> p s r = (Some t, r1) \<Longrightarrow> length t < length s \<Longrightarrow> qi_star Q p s r = qi_star Q p t r1"
  unfolding qi_contract_def qi_operators_def by blast

section \<open>An instance\<close>

fun star_steps :: "rule \<Rightarrow> nat \<Rightarrow> rule" where
  "star_steps p 0 s r = (Some s, r)"
| "star_steps p (Suc n) s r = (case p s r of
     (None, r1) \<Rightarrow> (Some s, r1)
   | (Some t, r1) \<Rightarrow> if length t < length s then star_steps p n t r1 else (Some s, r1))"

definition qi_ref :: qi where
  "qi_ref = \<lparr>qi_alnum = ascii_alnum, qi_punct = ascii_punct, qi_lit = (\<lambda>l s r. (match_lit l s, r)),
     qi_plus = (\<lambda>P f s r. if takeWhile P s = [] then (None, r) else (Some (dropWhile P s), f (takeWhile P s) r)),
     qi_uint = (\<lambda>f s r. let ds = takeWhile is_digit s in if ds = [] \<or> 4294967295 < int (digits_value ds) then (None, r)
        else (Some (dropWhile is_digit s), f (word_of_nat (digits_value ds)) r)),
     qi_eol = (\<lambda>s r. (match_eol s, r)),
     qi_act = (\<lambda>p f s r. case p s r of (Some t, r1) \<Rightarrow> (Some t, f r1) | (None, r1) \<Rightarrow> (None, r1)),
     qi_seq = (\<lambda>p p' s r. case p s r of (Some t, r1) \<Rightarrow> p' t r1 | (None, r1) \<Rightarrow> (None, r1)),
     qi_alt = (\<lambda>p p' s r. case p s r of (Some t, r1) \<Rightarrow> (Some t, r1) | (None, r1) \<Rightarrow> p' s r1),
     qi_opt = (\<lambda>p s r. case p s r of (Some t, r1) \<Rightarrow> (Some t, r1) | (None, r1) \<Rightarrow> (Some s, r1)),
     qi_star = (\<lambda>p s r. star_steps p (Suc (length s)) s r)\<rparr>"

lemma star_steps_enough: "length s < n \<Longrightarrow> length s < m \<Longrightarrow> star_steps p n s r = star_steps p m s r"
proof (induction n arbitrary: m s r)
  case (Suc n)
  then obtain m' where m: "m = Suc m'" by (cases m) auto
  have "star_steps p n t r1 = star_steps p m' t r1" if "length t < length s" for t r1
    using that Suc.prems m by (intro Suc.IH) linarith+
  then show ?case by (simp add: m split: prod.split option.split)
qed simp

lemma qi_ref_contract [simp]: "qi_contract qi_ref"
proof -
  have "star_steps p (Suc (length s)) s r = star_steps p (Suc (length t)) t r1"
    if "p s r = (Some t, r1)" "length t < length s" for p s r t r1
    using that star_steps_enough [of t "length s" "Suc (length t)" p r1] by simp
  moreover have "star_steps p (Suc (length s)) s r = (Some s, r1)" if "p s r = (None, r1)" for p s r r1
    using that by simp
  ultimately show ?thesis
    unfolding qi_contract_def qi_parsers_def qi_operators_def qi_ref_def by simp
qed

section \<open>Scanning\<close>

definition name_char :: "char \<Rightarrow> bool" where
  "name_char c \<longleftrightarrow> (ascii_alnum c \<or> ascii_punct c) \<and> c \<noteq> CHR ''/''"

definition valid_name :: "string \<Rightarrow> bool" where
  "valid_name k \<longleftrightarrow> k \<noteq> [] \<and> (\<forall>c \<in> set k. name_char c)"

definition ends_at :: "(char \<Rightarrow> bool) \<Rightarrow> string \<Rightarrow> bool" where
  "ends_at P t \<longleftrightarrow> t = [] \<or> \<not> P (hd t)"

lemma scan [simp]: "ends_at P t \<Longrightarrow> takeWhile P t = []" "ends_at P t \<Longrightarrow> dropWhile P t = t"
  by (cases t; simp add: ends_at_def)+

lemma key_name_scans:
  assumes "qi_contract Q" "valid_name k" "ends_at name_char t"
  shows "g_key_name Q f (k @ t) r = (Some t, f k r)"
proof -
  have "(\<lambda>c. (ascii_alnum c \<or> ascii_punct c) \<and> c \<noteq> CHR ''/'') = name_char" by (simp add: name_char_def fun_eq_iff)
  then show ?thesis
    using assms by (simp add: g_key_name_def qi_simps [OF assms(1)] valid_name_def)
qed

lemma uint_scans:
  assumes "qi_contract Q" "n \<le> 4294967295" "ends_at is_digit t"
  shows "qi_uint Q f (decimal n @ t) r = (Some t, f (word_of_nat n) r)"
  using assms decimal_digits [of n] by (simp add: qi_simps [OF assms(1)] Let_def)

lemma match_lit_append [simp]: "match_lit l (l @ t) = Some t"
  by (simp add: match_lit_def)

lemma ends_at_Cons [simp]: "ends_at P (c # t) \<longleftrightarrow> \<not> P c" "ends_at P []"
  by (simp_all add: ends_at_def)

lemma seps [simp]: "\<not> name_char (CHR '' '')" "\<not> name_char (CHR ''/'')" "\<not> name_char (CHR 0x0D)" "\<not> name_char (CHR 0x0A)"
  "\<not> is_digit (CHR '' '')" "\<not> is_digit (CHR ''/'')" "\<not> is_digit (CHR 0x0D)" "\<not> is_digit (CHR 0x0A)"
  by code_simp+

section \<open>Printing and parsing\<close>

text \<open>What a client writes for a set and for a get.\<close>

definition print_set :: "string \<Rightarrow> nat \<Rightarrow> nat \<Rightarrow> nat \<Rightarrow> nat \<Rightarrow> string" where
  "print_set k syncs flags expiration n =
     ''set '' @ k @ concat (replicate syncs ''/sync'') @ '' '' @ decimal flags @ '' '' @ decimal expiration @ '' '' @
     decimal n @ [CHR 0x0D, CHR 0x0A]"

datatype get_option = Opt_open | Opt_peek | Opt_close | Opt_abort | Opt_wait nat

fun print_option :: "get_option \<Rightarrow> string" where
  "print_option Opt_open = ''/open''"
| "print_option Opt_peek = ''/peek''"
| "print_option Opt_close = ''/close''"
| "print_option Opt_abort = ''/abort''"
| "print_option (Opt_wait ms) = ''/t='' @ decimal ms"

fun apply_option :: "get_option \<Rightarrow> request \<Rightarrow> request" where
  "apply_option Opt_open r = r\<lparr>r_get_open := True\<rparr>"
| "apply_option Opt_peek r = r\<lparr>r_get_peek := True\<rparr>"
| "apply_option Opt_close r = r\<lparr>r_get_close := True\<rparr>"
| "apply_option Opt_abort r = r\<lparr>r_get_abort := True\<rparr>"
| "apply_option (Opt_wait ms) r = r\<lparr>r_wait_ms := word_of_nat ms\<rparr>"

fun option_fits :: "get_option \<Rightarrow> bool" where
  "option_fits (Opt_wait ms) \<longleftrightarrow> ms \<le> 4294967295"
| "option_fits _ \<longleftrightarrow> True"

definition print_get :: "bool \<Rightarrow> string \<Rightarrow> get_option list \<Rightarrow> bool \<Rightarrow> string" where
  "print_get gets k os space =
     (if gets then ''gets '' else ''get '') @ k @ concat (map print_option os) @ (if space then '' '' else []) @ [CHR 0x0D, CHR 0x0A]"

lemma ucast_u32: "n \<le> 4294967295 \<Longrightarrow> (ucast (word_of_nat n :: u32) :: u64) = word_of_nat n"
proof -
  assume "n \<le> 4294967295"
  then have "n < 2 ^ 32" "n < 2 ^ 64" by simp_all
  then show ?thesis by (simp add: word_unat_eq_iff unsigned_ucast_eq take_bit_nat_eq_self unsigned_of_nat)
qed

lemma sync_options:
  assumes "qi_contract Q"
  shows "qi_star Q (g_set_option Q) (concat (replicate j ''/sync'') @ CHR '' '' # t) r =
    (Some (CHR '' '' # t), if j = 0 then r else r\<lparr>r_set_sync := True\<rparr>)"
proof (induction j arbitrary: r)
  case 0
  have "g_set_option Q (CHR '' '' # t) r = (None, r)"
    by (simp add: g_set_option_def qi_simps [OF assms] match_lit_def)
  then show ?case using qi_star_stop [OF assms] by simp
next
  case (Suc j)
  have "g_set_option Q (''/sync'' @ s) r = (Some s, r\<lparr>r_set_sync := True\<rparr>)" for s
    by (simp add: g_set_option_def qi_simps [OF assms] match_lit_def)
  then have "qi_star Q (g_set_option Q) (''/sync'' @ s) r = qi_star Q (g_set_option Q) s (r\<lparr>r_set_sync := True\<rparr>)" for s
    using qi_star_more [OF assms] by simp
  from this [of "concat (replicate j ''/sync'') @ CHR '' '' # t"] show ?case using Suc by simp
qed

lemma get_option_parses:
  assumes Q: "qi_contract Q" and fits: "option_fits p" and t: "ends_at is_digit t"
  shows "g_get_option Q (print_option p @ t) r = (Some t, apply_option p r)"
proof (cases p)
  case (Opt_wait ms)
  then show ?thesis
    using fits uint_scans [OF Q _ t, of ms "\<lambda>n r. r\<lparr>r_wait_ms := ucast n\<rparr>"]
    by (simp add: g_get_option_def qi_simps(3,7-9) [OF Q] match_lit_def ucast_u32)
qed (simp_all add: g_get_option_def qi_simps [OF Q] match_lit_def)

lemma get_options:
  assumes Q: "qi_contract Q" and fits: "\<forall>p \<in> set os. option_fits p" and t: "ends_at is_digit t" "take 1 t \<noteq> ''/''"
  shows "qi_star Q (g_get_option Q) (concat (map print_option os) @ t) r = (Some t, fold apply_option os r)"
  using fits
proof (induction os arbitrary: r)
  case Nil
  have "match_lit (CHR ''/'' # l) t = None" for l
    using t(2) by (cases t) (auto simp: match_lit_def)
  then have "g_get_option Q t r = (None, r)"
    by (simp add: g_get_option_def qi_simps [OF Q])
  then show ?case using qi_star_stop [OF Q] by simp
next
  case (Cons p os)
  let ?t = "concat (map print_option os) @ t"
  have "ends_at is_digit ?t"
  proof (cases os)
    case (Cons p' os')
    then show ?thesis by (cases p') simp_all
  qed (use t in simp)
  then have "g_get_option Q (print_option p @ ?t) r = (Some ?t, apply_option p r)"
    using Cons.prems by (intro get_option_parses [OF Q]) simp_all
  moreover have "length ?t < length (print_option p @ ?t)" by (cases p) simp_all
  ultimately have "qi_star Q (g_get_option Q) (print_option p @ ?t) r = qi_star Q (g_get_option Q) ?t (apply_option p r)"
    by (rule qi_star_more [OF Q])
  then show ?case using Cons by simp
qed

text \<open>The start rule on the first word of a request: the alternatives before it leave the request alone.\<close>

lemma alt_failed: "qi_contract Q \<Longrightarrow> p s r = (None, r) \<Longrightarrow> qi_alt Q p p' s r = p' s r"
  by (simp add: qi_simps)

lemma first_alternatives:
  assumes "qi_contract Q" "match_lit ''stats'' s = None" "match_lit ''version'' s = None" "match_lit ''delete '' s = None"
    and "match_lit ''flush '' s = None" "match_lit ''flush_all'' s = None"
  shows "g_start Q s r = qi_seq Q (qi_alt Q (g_set Q) (g_get Q)) (qi_eol Q) s r"
proof -
  have "g_stats Q s r = (None, r)" "g_version Q s r = (None, r)" "g_destroy Q s r = (None, r)" "g_flush Q s r = (None, r)"
    "g_flush_all Q s r = (None, r)"
    using assms(2-) by (simp_all add: g_stats_def g_version_def g_destroy_def g_flush_def g_flush_all_def qi_simps [OF assms(1)])
  then show ?thesis
    unfolding g_start_def qi_simps(8) [OF assms(1)] by (simp add: alt_failed [OF assms(1)])
qed

lemma start_set:
  assumes "qi_contract Q" "g_set Q (''set '' @ s) r = (Some t, r')"
  shows "g_start Q (''set '' @ s) r = qi_eol Q t r'"
proof -
  have "g_start Q (''set '' @ s) r = qi_seq Q (qi_alt Q (g_set Q) (g_get Q)) (qi_eol Q) (''set '' @ s) r"
    by (rule first_alternatives [OF assms(1)]) (simp_all add: match_lit_def)
  then show ?thesis unfolding qi_simps(8,9) [OF assms(1)] assms(2) by simp
qed

lemma start_get:
  assumes "qi_contract Q" "g_get Q (''get'' @ s) r = (Some t, r')"
  shows "g_start Q (''get'' @ s) r = qi_eol Q t r'"
proof -
  have "g_start Q (''get'' @ s) r = qi_seq Q (qi_alt Q (g_set Q) (g_get Q)) (qi_eol Q) (''get'' @ s) r"
    by (rule first_alternatives [OF assms(1)]) (simp_all add: match_lit_def)
  moreover have "g_set Q (''get'' @ s) r = (None, r)"
    by (simp add: g_set_def qi_simps(3,7,8) [OF assms(1)] match_lit_def)
  ultimately show ?thesis unfolding qi_simps(8,9) [OF assms(1)] using assms(2) by simp
qed

section \<open>What the parser promises\<close>

text \<open>
  C14: every set request a client prints, with any name of printable characters other than a slash and any number of sync
  options, is parsed to exactly what was meant.
\<close>

theorem set_request_roundtrip:
  assumes Q: "qi_contract Q" and k: "valid_name k" and n: "n \<le> 4294967295" "flags \<le> 4294967295" "expiration \<le> 4294967295"
  shows "request_parse Q (print_set k j flags expiration n) req =
    (True, request_default\<lparr>r_type := Some RT_SET, r_queue := k, r_set_sync := (0 < j), r_num_bytes := word_of_nat n\<rparr>)"
proof -
  let ?t3 = "CHR '' '' # decimal n @ [CHR 0x0D, CHR 0x0A]"
  let ?t2 = "CHR '' '' # decimal expiration @ ?t3"
  let ?t1 = "CHR '' '' # decimal flags @ ?t2"
  have "ends_at name_char (concat (replicate j ''/sync'') @ ?t1)" by (cases j) simp_all
  note key = key_name_scans [OF Q k this, of "\<lambda>k r. r\<lparr>r_queue := k\<rparr>"]
  note opts = sync_options [OF Q, of j "decimal flags @ ?t2"]
  have u: "qi_uint Q f (decimal flags @ ?t2) r = (Some ?t2, f (word_of_nat flags) r)"
    "qi_uint Q f (decimal expiration @ ?t3) r = (Some ?t3, f (word_of_nat expiration) r)"
    "qi_uint Q f (decimal n @ [CHR 0x0D, CHR 0x0A]) r = (Some [CHR 0x0D, CHR 0x0A], f (word_of_nat n) r)" for f r
    using n by (simp_all add: uint_scans [OF Q])
  have sp: "match_lit '' '' (CHR '' '' # t) = Some t" for t by (simp add: match_lit_def)
  have "g_set Q (print_set k j flags expiration n) request_default = (Some [CHR 0x0D, CHR 0x0A],
      request_default\<lparr>r_type := Some RT_SET, r_queue := k, r_set_sync := (0 < j), r_num_bytes := word_of_nat n\<rparr>)"
    unfolding g_set_def print_set_def
    by (simp add: qi_simps(3,7,8) [OF Q] key opts u sp ucast_u32 n request_default_def match_lit_def [of "''set ''"])
  from start_set [OF Q this [unfolded print_set_def]] show ?thesis
    by (simp add: request_parse_def print_set_def qi_simps(6) [OF Q])
qed

theorem set_request_roundtrip_witness:
  "request_parse qi_ref (print_set ''q.1'' 1 0 0 5) request_default =
     (True, request_default\<lparr>r_type := Some RT_SET, r_queue := ''q.1'', r_set_sync := True, r_num_bytes := 5\<rparr>)"
proof -
  have "valid_name ''q.1''" by code_simp
  from set_request_roundtrip [OF qi_ref_contract this, of 5 0 0 1] show ?thesis by simp
qed

lemma option_flags:
  "r_get_open (fold apply_option os r) \<longleftrightarrow> r_get_open r \<or> Opt_open \<in> set os" "r_get_peek (fold apply_option os r) \<longleftrightarrow> r_get_peek r \<or> Opt_peek \<in> set os"
  "r_get_close (fold apply_option os r) \<longleftrightarrow> r_get_close r \<or> Opt_close \<in> set os" "r_get_abort (fold apply_option os r) \<longleftrightarrow> r_get_abort r \<or> Opt_abort \<in> set os"
  "r_type (fold apply_option os r) = r_type r"
proof -
  have "(r_get_open (fold apply_option os r) \<longleftrightarrow> r_get_open r \<or> Opt_open \<in> set os) \<and> (r_get_peek (fold apply_option os r) \<longleftrightarrow> r_get_peek r \<or> Opt_peek \<in> set os) \<and>
    (r_get_close (fold apply_option os r) \<longleftrightarrow> r_get_close r \<or> Opt_close \<in> set os) \<and> (r_get_abort (fold apply_option os r) \<longleftrightarrow> r_get_abort r \<or> Opt_abort \<in> set os) \<and>
    r_type (fold apply_option os r) = r_type r" for os r
  proof (induction os arbitrary: r)
    case (Cons p os)
    then show ?case by (cases p) auto
  qed simp
  then show "r_get_open (fold apply_option os r) \<longleftrightarrow> r_get_open r \<or> Opt_open \<in> set os" "r_get_peek (fold apply_option os r) \<longleftrightarrow> r_get_peek r \<or> Opt_peek \<in> set os"
    "r_get_close (fold apply_option os r) \<longleftrightarrow> r_get_close r \<or> Opt_close \<in> set os" "r_get_abort (fold apply_option os r) \<longleftrightarrow> r_get_abort r \<or> Opt_abort \<in> set os"
    "r_type (fold apply_option os r) = r_type r" by simp_all
qed

lemma start_print_get:
  assumes Q: "qi_contract Q" and k: "valid_name k" and os: "\<forall>p \<in> set os. option_fits p"
  shows "g_start Q (print_get gets k os space) request_default =
    (Some [], fold apply_option os (request_default\<lparr>r_type := Some RT_GET, r_queue := k\<rparr>))"
proof -
  let ?t = "(if space then '' '' else []) @ [CHR 0x0D, CHR 0x0A]"
  let ?r = "request_default\<lparr>r_type := Some RT_GET, r_queue := k\<rparr>"
  have "ends_at name_char (concat (map print_option os) @ ?t)"
  proof (cases os)
    case (Cons p os')
    then show ?thesis by (cases p) simp_all
  qed simp
  note key = key_name_scans [OF Q k this, of "\<lambda>k r. r\<lparr>r_queue := k\<rparr>"]
  have opts: "qi_star Q (g_get_option Q) (concat (map print_option os) @ ?t) r = (Some ?t, fold apply_option os r)" for r
    using os by (intro get_options [OF Q]) simp_all
  have "g_get Q (print_get gets k os space) request_default = (Some [CHR 0x0D, CHR 0x0A], fold apply_option os ?r)"
    unfolding g_get_def print_get_def using key opts
    by (cases gets; cases space) (simp_all add: qi_simps(3,7,8,10) [OF Q] match_lit_def)
  moreover have "print_get gets k os space = ''get'' @ drop 3 (print_get gets k os space)"
    by (simp add: print_get_def)
  ultimately have "g_start Q (print_get gets k os space) request_default = qi_eol Q [CHR 0x0D, CHR 0x0A] (fold apply_option os ?r)"
    using start_get [OF Q] by metis
  then show ?thesis by (simp add: qi_simps(6) [OF Q])
qed

text \<open>
  C15: every get request a client prints, as \<^verbatim>\<open>get\<close> or \<^verbatim>\<open>gets\<close>, with any list of options and with or without a space at
  the end, is parsed to exactly what was meant.
\<close>

theorem get_request_roundtrip:
  assumes Q: "qi_contract Q" and k: "valid_name k" and os: "\<forall>p \<in> set os. option_fits p"
  shows "request_parse Q (print_get gets k os space) req =
    (True, fold apply_option os (request_default\<lparr>r_type := Some RT_GET, r_queue := k\<rparr>))"
  by (simp add: request_parse_def start_print_get [OF assms])

theorem get_request_roundtrip_witness:
  "request_parse qi_ref (print_get True ''q'' [Opt_wait 500, Opt_close, Opt_open] True) request_default =
     (True, fold apply_option [Opt_wait 500, Opt_close, Opt_open] (request_default\<lparr>r_type := Some RT_GET, r_queue := ''q''\<rparr>))"
proof -
  have "valid_name ''q''" by code_simp
  from get_request_roundtrip [OF qi_ref_contract this] show ?thesis by simp
qed

end
