(* ===== verification/Stats.thy ===== *)
theory Stats
  imports Queue
begin

text \<open>
  Counters and log (\<^verbatim>\<open>stats.hpp\<close>, \<^verbatim>\<open>log.h\<close>, \<^verbatim>\<open>log.cpp\<close>). Times are microseconds since 1970, read from the clock of Boost and passed in;
  the conversion of a duration to seconds is Boost's too, an argument. The version is a string the build defines.
\<close>

section \<open>Counters\<close>

record stats =
  alive_since :: int
  items_enqueued :: u64
  items_dequeued :: u64
  conns_opened :: u64
  conns_closed :: u64
  cmd_gets :: u64
  cmd_sets :: u64

definition stats_ctor :: "int \<Rightarrow> stats" where
  "stats_ctor now = \<lparr>alive_since = now, items_enqueued = 0, items_dequeued = 0, conns_opened = 0, conns_closed = 0,
     cmd_gets = 0, cmd_sets = 0\<rparr>"

definition signed_decimal :: "int \<Rightarrow> string" where
  "signed_decimal n = (if n < 0 then CHR ''-'' # decimal (nat (- n)) else decimal (nat n))"

definition stat_line :: "string \<Rightarrow> string \<Rightarrow> string" where
  "stat_line name val = ''STAT '' @ name @ '' '' @ val @ crlf"

definition stats_write :: "(int \<Rightarrow> int) \<Rightarrow> string \<Rightarrow> int \<Rightarrow> stats \<Rightarrow> string" where
  "stats_write total_seconds version now s =
     stat_line ''uptime'' (signed_decimal (total_seconds (now - alive_since s))) @
     stat_line ''time'' (signed_decimal (total_seconds now)) @
     stat_line ''version'' version @
     stat_line ''curr_items'' (decimal (unat
       (if items_enqueued s > items_dequeued s then items_enqueued s - items_dequeued s else 0))) @
     stat_line ''total_items'' (decimal (unat (items_enqueued s))) @
     stat_line ''curr_connections'' (decimal (unat (conns_opened s - conns_closed s))) @
     stat_line ''total_connections'' (decimal (unat (conns_opened s))) @
     stat_line ''cmd_get'' (decimal (unat (cmd_gets s))) @
     stat_line ''cmd_set'' (decimal (unat (cmd_sets s)))"

section \<open>The log\<close>

text \<open>A \<^verbatim>\<open>log\<close> writes to a stream it shares with others; the stream is what was written to it so far.\<close>

record log =
  log_tag :: string
  log_enabled :: bool

definition log_ctor :: "string \<Rightarrow> log" where
  "log_ctor tag = \<lparr>log_tag = tag, log_enabled = False\<rparr>"

definition log_enable :: "bool \<Rightarrow> log \<Rightarrow> log" where
  "log_enable enabled l = l\<lparr>log_enabled := enabled\<rparr>"

definition ends_with :: "string \<Rightarrow> string \<Rightarrow> bool" where
  "ends_with s suffix \<longleftrightarrow> length suffix \<le> length s \<and> drop (length s - length suffix) s = suffix"

definition log_call :: "string \<Rightarrow> string \<Rightarrow> log \<Rightarrow> string \<Rightarrow> string" where
  "log_call now format l out =
     (if \<not> log_enabled l then out
      else out @ ''['' @ log_tag l @ ''] '' @ now @ '': '' @ format @ (if ends_with format ''...'' then [] else [CHR 0x0A]))"

text \<open>The templates with arguments format only when the log is enabled; \<open>fmt\<close> is \<^verbatim>\<open>boost::format\<close>.\<close>

definition log_format :: "(string \<Rightarrow> string list \<Rightarrow> string) \<Rightarrow> string \<Rightarrow> string \<Rightarrow> string list \<Rightarrow> log \<Rightarrow> string \<Rightarrow> string" where
  "log_format fmt now format args l out = (if log_enabled l then log_call now (fmt format args) l out else out)"

record logs =
  log_DEBUG :: log
  log_INFO :: log
  log_ERROR :: log

definition logs_start :: logs where
  "logs_start = \<lparr>log_DEBUG = log_ctor ''DEBUG'', log_INFO = log_ctor ''INFO'', log_ERROR = log_ctor ''ERROR''\<rparr>"

definition log_init :: "bool \<Rightarrow> logs \<Rightarrow> logs" where
  "log_init debug ls = ls\<lparr>log_DEBUG := log_enable debug (log_DEBUG ls), log_INFO := log_enable True (log_INFO ls),
     log_ERROR := log_enable True (log_ERROR ls)\<rparr>"

section \<open>What they promise\<close>

fun lines_of :: "string \<Rightarrow> string list" where
  "lines_of [] = []"
| "lines_of [c] = [[c]]"
| "lines_of (c # d # s) = (if c = CHR 0x0D \<and> d = CHR 0x0A then [] # lines_of s
     else (case lines_of (d # s) of [] \<Rightarrow> [[c]] | l # ls \<Rightarrow> (c # l) # ls))"

lemma lines_of_line: "CHR 0x0D \<notin> set l \<Longrightarrow> lines_of (l @ crlf @ s) = l # lines_of s"
proof (induction l)
  case Nil
  then show ?case by (simp add: crlf_def)
next
  case (Cons c l)
  have c: "c \<noteq> CHR 0x0D" using Cons.prems by auto
  obtain d t where d: "l @ crlf @ s = d # t" by (cases l) (auto simp: crlf_def)
  have "lines_of (d # t) = l # lines_of s" using Cons.IH Cons.prems d by simp
  then show ?case using c by (simp add: d)
qed

lemma decimal_no_cr: "CHR 0x0D \<notin> set (decimal n)"
  using decimal_digits [of n] by (auto simp: is_digit_def)

lemma signed_decimal_no_cr: "CHR 0x0D \<notin> set (signed_decimal n)"
  by (simp add: signed_decimal_def decimal_no_cr)

lemma lines_of_stat_line:
  assumes "CHR 0x0D \<notin> set name" and "CHR 0x0D \<notin> set val"
  shows "lines_of (stat_line name val @ s) = (''STAT '' @ name @ '' '' @ val) # lines_of s"
  using lines_of_line [of "''STAT '' @ name @ '' '' @ val" s] assms by (simp add: stat_line_def)

text \<open>
  The text of the statistics: nine lines in a fixed order. The number of current items never wraps
  below zero, whatever the counters are, and the number of current connections is the difference modulo $2^{64}$.
\<close>

theorem stats_write_lines:
  assumes "CHR 0x0D \<notin> set version"
  shows "lines_of (stats_write total_seconds version now s) =
     [''STAT uptime '' @ signed_decimal (total_seconds (now - alive_since s)),
      ''STAT time '' @ signed_decimal (total_seconds now),
      ''STAT version '' @ version,
      ''STAT curr_items '' @ decimal (unat (items_enqueued s) - unat (items_dequeued s)),
      ''STAT total_items '' @ decimal (unat (items_enqueued s)),
      ''STAT curr_connections '' @ decimal (nat ((uint (conns_opened s) - uint (conns_closed s)) mod 2 ^ 64)),
      ''STAT total_connections '' @ decimal (unat (conns_opened s)),
      ''STAT cmd_get '' @ decimal (unat (cmd_gets s)),
      ''STAT cmd_set '' @ decimal (unat (cmd_sets s))]"
proof -
  have items: "unat (if items_enqueued s > items_dequeued s then items_enqueued s - items_dequeued s else 0) =
      unat (items_enqueued s) - unat (items_dequeued s)"
    by (simp add: unat_sub word_less_nat_alt word_le_nat_alt)
  have conns: "unat (conns_opened s - conns_closed s) = nat ((uint (conns_opened s) - uint (conns_closed s)) mod 2 ^ 64)"
    by (simp add: uint_word_ariths flip: nat_uint_eq)
  show ?thesis unfolding stats_write_def items conns
    using lines_of_stat_line [of "''cmd_set''" "decimal (unat (cmd_sets s))" "[]"] assms
    by (simp add: lines_of_stat_line decimal_no_cr signed_decimal_no_cr)
qed

theorem stats_write_lines_witness:
  "CHR 0x0D \<notin> set ''0.2.5'' \<and>
   length (lines_of (stats_write (\<lambda>us. us div 1000000) ''0.2.5'' 3000000 (stats_ctor 1000000))) = 9"
  using stats_write_lines [of "''0.2.5''" "\<lambda>us. us div 1000000" 3000000 "stats_ctor 1000000"] by simp

end
