(* ===== verification/Handler.thy ===== *)
theory Handler
  imports Queue_Map Streams Request Stats
begin

text \<open>
  The class \<^verbatim>\<open>handler\<close> (\<^verbatim>\<open>handler.h\<close>, \<^verbatim>\<open>handler.cpp\<close>): one client connection. The code is written as callbacks of Boost.Asio: a method starts
  one asynchronous operation and returns, and the completion of the operation calls the next method. Here a
  method returns the handler with the operation it has started as \<open>hn_pending\<close>; \<open>P_none\<close> means that it started none, so that
  nobody owns the handler any longer. What was handed to \<^verbatim>\<open>async_write\<close> so far is
  \<open>hn_out\<close>. One definition per method; \<open>self\<close> is the handler's own address, \<open>others\<close> says which queues somebody
  else than the handler and the map owns.
\<close>

section \<open>State\<close>

text \<open>\<open>P_read n\<close> is an \<^verbatim>\<open>async_read\<close> of at least \<open>n\<close> more bytes, \<open>P_wait\<close> a callback registered with a queue.\<close>

datatype continuation = K_read_request | K_get_on_write_chunk | K_hang_up

datatype pending = P_none | P_read_until | P_read u64 | P_write continuation | P_wait

record handler =
  hn_chunk_size :: u64
  hn_in :: string
  hn_header_buf :: string
  hn_buf :: string
  hn_req :: request
  hn_pop_stream :: iqstream
  hn_push_stream :: oqstream
  hn_pending :: pending
  hn_out :: string

text \<open>What all handlers share.\<close>

record ('fs, 'db) shared =
  sh_queues :: "('fs, 'db, nat) queue_map"
  sh_stats :: stats
  sh_logs :: logs
  sh_cerr :: string

type_synonym ('fs, 'db) conn = "handler \<times> ('fs, 'db) shared"

text \<open>
  What the code takes from outside: LevelDB, the file system, Qi, the version string, the clock and the texts of error codes and pointers. An
  error code of Asio is \<open>Net_eof\<close> or another one.
\<close>

datatype net_error = Net_eof | Net_other nat

record ('fs, 'db) externs =
  x_ldb :: "'db leveldb"
  x_fs :: "('fs, 'db) filesystem"
  x_qi :: qi
  x_version :: string
  x_total_seconds :: "int \<Rightarrow> int"
  x_now :: int
  x_stamp :: string
  x_format :: "string \<Rightarrow> string list \<Rightarrow> string"
  x_net_message :: "net_error \<Rightarrow> string"
  x_message :: "error \<Rightarrow> string"
  x_pointer :: "nat \<Rightarrow> string"

text \<open>The exceptions that \<^verbatim>\<open>catch (const system::system_error&)\<close> stops.\<close>

fun is_system_error :: "error \<Rightarrow> bool" where
  "is_system_error Io_error = True"
| "is_system_error Already_open = True"
| "is_system_error Eof = True"
| "is_system_error Fs_error = True"
| "is_system_error _ = False"

definition handler_ctor :: "u64 \<Rightarrow> handler" where
  "handler_ctor chunk_size = \<lparr>hn_chunk_size = chunk_size, hn_in = [], hn_header_buf = [], hn_buf = [], hn_req = request_default,
     hn_pop_stream = iq_new, hn_push_stream = oq_new, hn_pending = P_none, hn_out = []\<rparr>"

definition owned_by :: "handler \<Rightarrow> nat \<Rightarrow> bool" where
  "owned_by s a \<longleftrightarrow> is_queue (hn_pop_stream s) = Some a \<or> os_queue (hn_push_stream s) = Some a"

section \<open>Replies and errors\<close>

definition handler_async_write :: "string \<Rightarrow> continuation \<Rightarrow> handler \<Rightarrow> handler" where
  "handler_async_write bytes k s = s\<lparr>hn_out := hn_out s @ bytes, hn_pending := P_write k\<rparr>"

definition handler_end :: "string \<Rightarrow> ('fs, 'db) conn \<Rightarrow> (('fs, 'db) conn, unit) outcome" where
  "handler_end msg = (\<lambda>(s, w). (Inr (), (handler_async_write msg K_read_request (s\<lparr>hn_buf := msg\<rparr>), w)))"

definition handler_error_reply :: "string \<Rightarrow> string \<Rightarrow> ('fs, 'db) conn \<Rightarrow> (('fs, 'db) conn, unit) outcome" where
  "handler_error_reply msg error_type = (\<lambda>(s, w).
     let buf = error_type @ '' '' @ msg @ crlf in (Inr (), (handler_async_write buf K_hang_up (s\<lparr>hn_buf := buf\<rparr>), w)))"

definition log_handler_error :: "('fs, 'db) externs \<Rightarrow> nat \<Rightarrow> string \<Rightarrow> string \<Rightarrow> ('fs, 'db) shared \<Rightarrow> ('fs, 'db) shared" where
  "log_handler_error X self location msg w = w\<lparr>sh_cerr := log_format (x_format X) (x_stamp X) ''handler<%1%>::%2%: %3%''
     [x_pointer X self, location, msg] (log_ERROR (sh_logs w)) (sh_cerr w)\<rparr>"

definition handler_error_code :: "('fs, 'db) externs \<Rightarrow> nat \<Rightarrow> string \<Rightarrow> net_error \<Rightarrow> ('fs, 'db) conn \<Rightarrow> (('fs, 'db) conn, unit) outcome" where
  "handler_error_code X self location e = (\<lambda>(s, w). (Inr (), (s, log_handler_error X self location (x_net_message X e) w)))"

definition handler_error_exn :: "('fs, 'db) externs \<Rightarrow> nat \<Rightarrow> string \<Rightarrow> bool \<Rightarrow> error \<Rightarrow> ('fs, 'db) conn \<Rightarrow> (('fs, 'db) conn, unit) outcome" where
  "handler_error_exn X self location echo ex = (\<lambda>(s, w).
     let w1 = log_handler_error X self location (x_message X ex) w
     in if echo then
          let buf = ''SERVER_ERROR '' @ x_message X ex @ crlf in (Inr (), (handler_async_write buf K_hang_up (s\<lparr>hn_buf := buf\<rparr>), w1))
        else (Inr (), (s, w1)))"

text \<open>\<^verbatim>\<open>try { r } catch (const system_error& ex) { return on_error; } rest\<close>; other exceptions go on to the event loop.\<close>

definition try_then :: "('c, 'a) outcome \<Rightarrow> (error \<Rightarrow> 'c \<Rightarrow> ('c, unit) outcome) \<Rightarrow> ('c \<Rightarrow> ('c, unit) outcome) \<Rightarrow> ('c, unit) outcome" where
  "try_then r on_error rest = (case r of
     (Inl e, c) \<Rightarrow> if is_system_error e then on_error e c else (Inl e, c)
   | (Inr _, c) \<Rightarrow> rest c)"

section \<open>Streams\<close>

text \<open>
  The calls on the two streams: the queue is the one the stream points to. When the stream lets go of it, the handler may have been its last owner.
\<close>

definition set_queue :: "nat \<Rightarrow> ('db, nat) queue \<Rightarrow> ('fs, 'db) shared \<Rightarrow> ('fs, 'db) shared" where
  "set_queue a q w = w\<lparr>sh_queues := (sh_queues w)\<lparr>qm_heap := (qm_heap (sh_queues w))(a \<mapsto> q)\<rparr>\<rparr>"

definition let_go :: "('fs, 'db) externs \<Rightarrow> (nat \<Rightarrow> bool) \<Rightarrow> nat \<Rightarrow> ('fs, 'db) conn \<Rightarrow> (('fs, 'db) conn, unit) outcome" where
  "let_go X others a = (\<lambda>(s, w). case release_queue (x_fs X) (\<lambda>b. others b \<or> owned_by s b) a (sh_queues w) of
     (r, m) \<Rightarrow> (r, (s, w\<lparr>sh_queues := m\<rparr>)))"

definition push_stream_write :: "('fs, 'db) externs \<Rightarrow> (nat \<Rightarrow> bool) \<Rightarrow> string \<Rightarrow> ('fs, 'db) conn \<Rightarrow> (('fs, 'db) conn, unit) outcome" where
  "push_stream_write X others chunk = (\<lambda>(s, w). case os_queue (hn_push_stream s) of
     None \<Rightarrow> (Inl Eof, (s, w))
   | Some a \<Rightarrow> (case qm_heap (sh_queues w) a of
       None \<Rightarrow> (Inl Undefined, (s, w))
     | Some q \<Rightarrow> (case oq_write (x_ldb X) chunk q (hn_push_stream s) of
         (Inl e, (q1, p)) \<Rightarrow> (Inl e, (s\<lparr>hn_push_stream := p\<rparr>, set_queue a q1 w))
       | (Inr _, (q1, p)) \<Rightarrow>
           (if os_queue p = None then let_go X others a else Pair (Inr ())) (s\<lparr>hn_push_stream := p\<rparr>, set_queue a q1 w))))"

definition pop_stream_read :: "('fs, 'db) externs \<Rightarrow> ('fs, 'db) conn \<Rightarrow> (('fs, 'db) conn, unit) outcome" where
  "pop_stream_read X = (\<lambda>(s, w). case is_queue (hn_pop_stream s) of
     None \<Rightarrow> (Inl Eof, (s, w))
   | Some a \<Rightarrow> (case qm_heap (sh_queues w) a of
       None \<Rightarrow> (Inl Undefined, (s, w))
     | Some q \<Rightarrow> (case iq_read (x_ldb X) q (hn_buf s) (hn_pop_stream s) of
         (r, (res, p)) \<Rightarrow> (r, (s\<lparr>hn_buf := res, hn_pop_stream := p\<rparr>, w)))))"

definition pop_stream_close :: "('fs, 'db) externs \<Rightarrow> (nat \<Rightarrow> bool) \<Rightarrow> bool \<Rightarrow> ('fs, 'db) conn \<Rightarrow> (('fs, 'db) conn, unit) outcome" where
  "pop_stream_close X others erase = (\<lambda>(s, w). case is_queue (hn_pop_stream s) of
     None \<Rightarrow> (Inr (), (s, w))
   | Some a \<Rightarrow> (case qm_heap (sh_queues w) a of
       None \<Rightarrow> (Inl Undefined, (s, w))
     | Some q \<Rightarrow> (case iq_close (x_ldb X) erase q (hn_pop_stream s) of
         (Inl e, (q1, p)) \<Rightarrow> (Inl e, (s\<lparr>hn_pop_stream := p\<rparr>, set_queue a q1 w))
       | (Inr _, (q1, p)) \<Rightarrow> let_go X others a (s\<lparr>hn_pop_stream := p\<rparr>, set_queue a q1 w))))"

text \<open>\<^verbatim>\<open>queues_[name]\<close>, with the queue it gives.\<close>

definition find_queue :: "('fs, 'db) externs \<Rightarrow> string \<Rightarrow> ('fs, 'db) conn \<Rightarrow> (('fs, 'db) conn, nat \<times> ('db, nat) queue) outcome" where
  "find_queue X name = (\<lambda>(s, w). case queue_map_get (x_ldb X) (x_fs X) name (sh_queues w) of
     (Inl e, m) \<Rightarrow> (Inl e, (s, w\<lparr>sh_queues := m\<rparr>))
   | (Inr a, m) \<Rightarrow> (case qm_heap m a of
       None \<Rightarrow> (Inl Undefined, (s, w\<lparr>sh_queues := m\<rparr>))
     | Some q \<Rightarrow> (Inr (a, q), (s, w\<lparr>sh_queues := m\<rparr>))))"

definition pop_stream_open :: "('fs, 'db) externs \<Rightarrow> ('fs, 'db) conn \<Rightarrow> (('fs, 'db) conn, bool) outcome" where
  "pop_stream_open X c = (case find_queue X (r_queue (hn_req (fst c))) c of
     (Inl e, c1) \<Rightarrow> (Inl e, c1)
   | (Inr (a, q), (s, w)) \<Rightarrow> (case iq_open a q (hn_pop_stream s) of
       (r, (q1, p)) \<Rightarrow> (r, (s\<lparr>hn_pop_stream := p\<rparr>, set_queue a q1 w))))"

definition push_stream_open :: "('fs, 'db) externs \<Rightarrow> u64 \<Rightarrow> bool \<Rightarrow> ('fs, 'db) conn \<Rightarrow> (('fs, 'db) conn, unit) outcome" where
  "push_stream_open X chunks_count sync c = (case find_queue X (r_queue (hn_req (fst c))) c of
     (Inl e, c1) \<Rightarrow> (Inl e, c1)
   | (Inr (a, q), (s, w)) \<Rightarrow> (case oq_open a chunks_count sync q (hn_push_stream s) of
       (r, (q1, p)) \<Rightarrow> (r, (s\<lparr>hn_push_stream := p\<rparr>, set_queue a q1 w))))"

section \<open>Small requests\<close>

definition handler_read_request :: "('fs, 'db) externs \<Rightarrow> nat \<Rightarrow> net_error option \<Rightarrow> ('fs, 'db) conn \<Rightarrow> (('fs, 'db) conn, unit) outcome" where
  "handler_read_request X self e = (case e of
     Some c \<Rightarrow> handler_error_code X self ''read_request'' c
   | None \<Rightarrow> (\<lambda>(s, w). (Inr (), (s\<lparr>hn_pending := P_read_until\<rparr>, w))))"

definition update_stats :: "(stats \<Rightarrow> stats) \<Rightarrow> ('fs, 'db) conn \<Rightarrow> ('fs, 'db) conn" where
  "update_stats f = (\<lambda>(s, w). (s, w\<lparr>sh_stats := f (sh_stats w)\<rparr>))"

definition handler_start :: "('fs, 'db) externs \<Rightarrow> nat \<Rightarrow> ('fs, 'db) conn \<Rightarrow> (('fs, 'db) conn, unit) outcome" where
  "handler_start X self c =
     handler_read_request X self None (update_stats (\<lambda>st. st\<lparr>conns_opened := conns_opened st + 1\<rparr>) c)"

text \<open>The statistics of every queue of the map; the map owns them, so each address is there.\<close>

definition queues_stats :: "('fs, 'db, 'cb) queue_map \<Rightarrow> string" where
  "queues_stats m = concat (map (\<lambda>(name, a). case qm_heap m a of None \<Rightarrow> [] | Some q \<Rightarrow> queue_write_stats name q) (qm_queues m))"

definition handler_write_stats :: "('fs, 'db) externs \<Rightarrow> ('fs, 'db) conn \<Rightarrow> (('fs, 'db) conn, unit) outcome" where
  "handler_write_stats X = (\<lambda>(s, w).
     let buf = stats_write (x_total_seconds X) (x_version X) (x_now X) (sh_stats w) @ queues_stats (sh_queues w) @ ''END'' @ crlf
     in (Inr (), (handler_async_write buf K_read_request (s\<lparr>hn_buf := buf\<rparr>), w)))"

definition handler_write_version :: "('fs, 'db) externs \<Rightarrow> ('fs, 'db) conn \<Rightarrow> (('fs, 'db) conn, unit) outcome" where
  "handler_write_version X = (\<lambda>(s, w).
     let buf = ''VERSION '' @ x_version X @ crlf in (Inr (), (handler_async_write buf K_read_request (s\<lparr>hn_buf := buf\<rparr>), w)))"

definition handler_erase :: "('fs, 'db) externs \<Rightarrow> (nat \<Rightarrow> bool) \<Rightarrow> bool \<Rightarrow> string \<Rightarrow> ('fs, 'db) conn \<Rightarrow> (('fs, 'db) conn, unit) outcome" where
  "handler_erase X others recreate msg = (\<lambda>(s, w).
     case queue_map_erase (x_ldb X) (x_fs X) (\<lambda>b. others b \<or> owned_by s b) (r_queue (hn_req s)) recreate (sh_queues w) of
       (Inl e, m) \<Rightarrow> (Inl e, (s, w\<lparr>sh_queues := m\<rparr>))
     | (Inr _, m) \<Rightarrow> handler_end msg (s, w\<lparr>sh_queues := m\<rparr>))"

definition handler_destroy :: "('fs, 'db) externs \<Rightarrow> (nat \<Rightarrow> bool) \<Rightarrow> ('fs, 'db) conn \<Rightarrow> (('fs, 'db) conn, unit) outcome" where
  "handler_destroy X others = handler_erase X others False (''DELETED'' @ crlf)"

definition handler_flush :: "('fs, 'db) externs \<Rightarrow> (nat \<Rightarrow> bool) \<Rightarrow> ('fs, 'db) conn \<Rightarrow> (('fs, 'db) conn, unit) outcome" where
  "handler_flush X others = handler_erase X others True (''END'' @ crlf)"

text \<open>
  \<^verbatim>\<open>flush_all\<close>: the first \<^verbatim>\<open>queues_.erase(it->first, true)\<close> takes the node of the iterator out of the map. The name it
  creates the queue again with is a reference into that node, and the loop goes on from it: both read freed memory.
\<close>

definition handler_flush_all :: "('fs, 'db) externs \<Rightarrow> (nat \<Rightarrow> bool) \<Rightarrow> ('fs, 'db) conn \<Rightarrow> (('fs, 'db) conn, unit) outcome" where
  "handler_flush_all X others = (\<lambda>(s, w). case qm_queues (sh_queues w) of
     [] \<Rightarrow> handler_end (''Flushed all queues.'' @ crlf) (s, w)
   | (name, a) # _ \<Rightarrow> (case queue_map_remove (x_fs X) (\<lambda>b. others b \<or> owned_by s b) name a (sh_queues w) of
       (Inl e, m) \<Rightarrow> (Inl e, (s, w\<lparr>sh_queues := m\<rparr>))
     | (Inr _, m) \<Rightarrow> (Inl Undefined, (s, w\<lparr>sh_queues := m\<rparr>))))"

section \<open>The set loop\<close>

text \<open>
  The next chunk, with the end of line if it is the last one; what is in the buffer already is not read again.
\<close>

definition handler_read_chunk :: "('fs, 'db) conn \<Rightarrow> (('fs, 'db) conn, unit) outcome" where
  "handler_read_chunk = (\<lambda>(s, w).
     let remaining = r_num_bytes (hn_req s) - oq_tell (hn_push_stream s);
         required = (if remaining > hn_chunk_size s then hn_chunk_size s else remaining + 2);
         available = word_of_nat (length (hn_in s))
     in (Inr (), (s\<lparr>hn_pending := P_read (if required > available then required - available else 0)\<rparr>, w)))"

definition handler_set :: "('fs, 'db) externs \<Rightarrow> ('fs, 'db) conn \<Rightarrow> (('fs, 'db) conn, unit) outcome" where
  "handler_set X c =
     (let s = fst c in
      case push_stream_open X ((r_num_bytes (hn_req s) + hn_chunk_size s - 1) div hn_chunk_size s) (r_set_sync (hn_req s)) c of
        (Inl e, c1) \<Rightarrow> (Inl e, c1)
      | (Inr _, c1) \<Rightarrow> handler_read_chunk c1)"

text \<open>
  The bytes of a chunk off the input buffer: \<open>Inl\<close> when the last chunk does not end its line. Reading past the end of the buffer
  is undefined.
\<close>

definition take_chunk :: "u64 \<Rightarrow> u64 \<Rightarrow> string \<Rightarrow> error + (string \<times> string) option" where
  "take_chunk bytes_remaining chunk_size inp =
     (if bytes_remaining \<le> chunk_size then
        let n = unat bytes_remaining in
        if length inp < n + 2 then Inl Undefined
        else if take 2 (drop n inp) \<noteq> crlf then Inr None
        else Inr (Some (take n inp, drop (n + 2) inp))
      else if length inp < unat chunk_size then Inl Undefined
      else Inr (Some (take (unat chunk_size) inp, drop (unat chunk_size) inp)))"

definition handler_set_on_read_chunk :: "('fs, 'db) externs \<Rightarrow> (nat \<Rightarrow> bool) \<Rightarrow> nat \<Rightarrow> net_error option \<Rightarrow> ('fs, 'db) conn \<Rightarrow>
    (('fs, 'db) conn, unit) outcome" where
  "handler_set_on_read_chunk X others self e = (case e of
     Some c \<Rightarrow> handler_error_code X self ''set_on_read_chunk'' c
   | None \<Rightarrow> (\<lambda>(s, w).
       case take_chunk (r_num_bytes (hn_req s) - oq_tell (hn_push_stream s)) (hn_chunk_size s) (hn_in s) of
         Inl err \<Rightarrow> (Inl err, (s, w))
       | Inr None \<Rightarrow> handler_error_reply ''bad data chunk'' ''CLIENT_ERROR'' (s, w)
       | Inr (Some (chunk, rest)) \<Rightarrow>
           try_then (push_stream_write X others chunk (s\<lparr>hn_buf := chunk, hn_in := rest\<rparr>, w))
             (handler_error_exn X self ''set_on_read_chunk'' True)
             (\<lambda>c. if oq_tell (hn_push_stream (fst c)) = r_num_bytes (hn_req (fst c))
                  then handler_end (''STORED'' @ crlf) (update_stats (\<lambda>st. st\<lparr>items_enqueued := items_enqueued st + 1\<rparr>) c)
                  else handler_read_chunk c)))"

section \<open>The get loop\<close>

text \<open>
  The header of a value: \<^verbatim>\<open>sprintf\<close> writes it and a zero byte into a buffer of 21 bytes and the length of the name.
\<close>

definition value_header :: "string \<Rightarrow> u64 \<Rightarrow> string" where
  "value_header name n = ''VALUE '' @ name @ '' 0 '' @ decimal (unat n) @ crlf"

definition count_dequeued :: "('fs, 'db) conn \<Rightarrow> ('fs, 'db) conn" where
  "count_dequeued = update_stats (\<lambda>st. st\<lparr>items_dequeued := items_dequeued st + 1\<rparr>)"

text \<open>\<^verbatim>\<open>if (!req_.get_open) try { pop_stream_.close(!req_.get_peek); } catch ...\<close>, then the rest.\<close>

definition finish_item :: "('fs, 'db) externs \<Rightarrow> (nat \<Rightarrow> bool) \<Rightarrow> nat \<Rightarrow> (('fs, 'db) conn \<Rightarrow> (('fs, 'db) conn, unit) outcome) \<Rightarrow>
    ('fs, 'db) conn \<Rightarrow> (('fs, 'db) conn, unit) outcome" where
  "finish_item X others self rest c =
     (if r_get_open (hn_req (fst c)) then rest (count_dequeued c)
      else try_then (pop_stream_close X others (\<not> r_get_peek (hn_req (fst c))) c)
             (handler_error_exn X self ''get_on_write_chunk'' False) (\<lambda>c1. rest (count_dequeued c1)))"

definition handler_get_reply :: "('fs, 'db) externs \<Rightarrow> (nat \<Rightarrow> bool) \<Rightarrow> nat \<Rightarrow> ('fs, 'db) conn \<Rightarrow> (('fs, 'db) conn, unit) outcome" where
  "handler_get_reply X others self = (\<lambda>(s, w).
     let header = value_header (r_queue (hn_req s)) (iq_size (hn_pop_stream s)); s1 = s\<lparr>hn_header_buf := header\<rparr>
     in if 21 + length (r_queue (hn_req s)) < length header + 1 then (Inl Undefined, (s, w))
        else if is_tell (hn_pop_stream s1) = iq_size (hn_pop_stream s1)
        then finish_item X others self
               (\<lambda>(s2, w2). (Inr (), (handler_async_write (hn_header_buf s2 @ hn_buf s2 @ crlf @ ''END'' @ crlf) K_read_request s2, w2)))
               (s1, w)
        else (Inr (), (handler_async_write (hn_header_buf s1 @ hn_buf s1) K_get_on_write_chunk s1, w)))"

definition handler_wait :: "('fs, 'db) externs \<Rightarrow> nat \<Rightarrow> ('fs, 'db) conn \<Rightarrow> (('fs, 'db) conn, unit) outcome" where
  "handler_wait X self c = (case find_queue X (r_queue (hn_req (fst c))) c of
     (Inl e, c1) \<Rightarrow> (Inl e, c1)
   | (Inr (a, q), (s, w)) \<Rightarrow>
       (Inr (), (s\<lparr>hn_pending := P_wait\<rparr>, set_queue a (wait (r_wait_ms (hn_req s)) self q) w)))"

definition handler_get_next :: "('fs, 'db) externs \<Rightarrow> (nat \<Rightarrow> bool) \<Rightarrow> nat \<Rightarrow> ('fs, 'db) conn \<Rightarrow> (('fs, 'db) conn, unit) outcome" where
  "handler_get_next X others self c =
     (let r = hn_req (fst c) in
      if r_get_close r \<and> \<not> r_get_open r \<or> r_get_abort r then handler_end (''END'' @ crlf) c
      else case pop_stream_open X c of
        (Inl e, c1) \<Rightarrow> (Inl e, c1)
      | (Inr opened, c1) \<Rightarrow>
          if \<not> opened then (if r_wait_ms r \<noteq> 0 then handler_wait X self c1 else handler_end (''END'' @ crlf) c1)
          else try_then (pop_stream_read X c1) (handler_error_exn X self ''get'' True) (handler_get_reply X others self))"

definition handler_get :: "('fs, 'db) externs \<Rightarrow> (nat \<Rightarrow> bool) \<Rightarrow> nat \<Rightarrow> ('fs, 'db) conn \<Rightarrow> (('fs, 'db) conn, unit) outcome" where
  "handler_get X others self c =
     (let r = hn_req (fst c) in
      if r_get_abort r \<and> (r_get_open r \<or> r_get_close r \<or> r_get_peek r)
      then handler_error_reply ''abort must be by itself'' ''CLIENT_ERROR'' c
      else if r_get_peek r \<and> r_get_open r then handler_error_reply ''cannot open and peek'' ''CLIENT_ERROR'' c
      else if r_get_abort r \<or> r_get_close r
      then try_then (pop_stream_close X others (r_get_close r) c) (handler_error_exn X self ''get'' True) (handler_get_next X others self)
      else if is_queue (hn_pop_stream (fst c)) \<noteq> None
      then handler_error_reply ''close current item first'' ''CLIENT_ERROR'' c
      else handler_get_next X others self c)"

text \<open>The queue calls back with success or with \<^verbatim>\<open>timed_out\<close> only, so the method's branch for other errors is not reached.\<close>

definition handler_get_on_queue_return :: "('fs, 'db) externs \<Rightarrow> (nat \<Rightarrow> bool) \<Rightarrow> nat \<Rightarrow> wait_result \<Rightarrow> ('fs, 'db) conn \<Rightarrow>
    (('fs, 'db) conn, unit) outcome" where
  "handler_get_on_queue_return X others self e = (case e of
     Wait_timed_out \<Rightarrow> handler_end (''END'' @ crlf)
   | Wait_ok \<Rightarrow> handler_get X others self)"

definition handler_get_on_write_chunk :: "('fs, 'db) externs \<Rightarrow> (nat \<Rightarrow> bool) \<Rightarrow> nat \<Rightarrow> net_error option \<Rightarrow> ('fs, 'db) conn \<Rightarrow>
    (('fs, 'db) conn, unit) outcome" where
  "handler_get_on_write_chunk X others self e c = (case e of
     Some err \<Rightarrow> handler_error_code X self ''get_on_write_chunk'' err c
   | None \<Rightarrow>
       if is_tell (hn_pop_stream (fst c)) = iq_size (hn_pop_stream (fst c))
       then finish_item X others self (handler_end (crlf @ ''END'' @ crlf)) c
       else try_then (pop_stream_read X c) (handler_error_exn X self ''get_on_write_chunk'' False)
              (\<lambda>(s, w). (Inr (), (handler_async_write (hn_buf s) K_get_on_write_chunk s, w))))"

section \<open>Routing\<close>

definition handler_route :: "('fs, 'db) externs \<Rightarrow> (nat \<Rightarrow> bool) \<Rightarrow> nat \<Rightarrow> ('fs, 'db) conn \<Rightarrow> (('fs, 'db) conn, unit) outcome" where
  "handler_route X others self c = (case r_type (hn_req (fst c)) of
     None \<Rightarrow> (Inr (), c)
   | Some RT_STATS \<Rightarrow> handler_write_stats X c
   | Some RT_VERSION \<Rightarrow> handler_write_version X c
   | Some RT_DESTROY \<Rightarrow> handler_destroy X others c
   | Some RT_FLUSH \<Rightarrow> handler_flush X others c
   | Some RT_FLUSH_ALL \<Rightarrow> handler_flush_all X others c
   | Some RT_SET \<Rightarrow> handler_set X (update_stats (\<lambda>st. st\<lparr>cmd_sets := cmd_sets st + 1\<rparr>) c)
   | Some RT_GET \<Rightarrow> handler_get X others self (update_stats (\<lambda>st. st\<lparr>cmd_gets := cmd_gets st + 1\<rparr>) c))"

definition handler_parse_request :: "('fs, 'db) externs \<Rightarrow> (nat \<Rightarrow> bool) \<Rightarrow> nat \<Rightarrow> net_error option \<Rightarrow> nat \<Rightarrow> ('fs, 'db) conn \<Rightarrow>
    (('fs, 'db) conn, unit) outcome" where
  "handler_parse_request X others self e bytes_transferred = (\<lambda>(s, w).
     if e = Some Net_eof \<and> hn_in s = [] then (Inr (), (s, w))
     else case e of
       Some c \<Rightarrow> handler_error_code X self ''parse_request'' c (s, w)
     | None \<Rightarrow>
         if length (hn_in s) < bytes_transferred then (Inl Undefined, (s, w))
         else
           let buf = take bytes_transferred (hn_in s) in
           case request_parse (x_qi X) buf (hn_req s) of
             (False, r) \<Rightarrow> handler_error_reply [] ''ERROR'' (s\<lparr>hn_buf := buf, hn_req := r\<rparr>, w)
           | (True, r) \<Rightarrow> handler_route X others self
               (s\<lparr>hn_buf := buf, hn_req := r, hn_in := drop bytes_transferred (hn_in s)\<rparr>, w))"

section \<open>The end of a handler\<close>

definition handler_hang_up :: "('fs, 'db) conn \<Rightarrow> (('fs, 'db) conn, unit) outcome" where
  "handler_hang_up c = (Inr (), c)"

text \<open>The members go in the reverse order of their declaration: the push stream is cancelled, then the item of the pop stream returned.\<close>

definition drop_push_stream :: "('fs, 'db) externs \<Rightarrow> (nat \<Rightarrow> bool) \<Rightarrow> ('fs, 'db) conn \<Rightarrow> (('fs, 'db) conn, unit) outcome" where
  "drop_push_stream X others = (\<lambda>(s, w). case os_queue (hn_push_stream s) of
     None \<Rightarrow> (Inr (), (s, w))
   | Some a \<Rightarrow> (case qm_heap (sh_queues w) a of
       None \<Rightarrow> (Inl Undefined, (s, w))
     | Some q \<Rightarrow> let_go X others a (s\<lparr>hn_push_stream := oq_new\<rparr>, set_queue a (oq_dtor (x_ldb X) q (hn_push_stream s)) w)))"

definition drop_pop_stream :: "('fs, 'db) externs \<Rightarrow> (nat \<Rightarrow> bool) \<Rightarrow> ('fs, 'db) conn \<Rightarrow> (('fs, 'db) conn, unit) outcome" where
  "drop_pop_stream X others = (\<lambda>(s, w). case is_queue (hn_pop_stream s) of
     None \<Rightarrow> (Inr (), (s, w))
   | Some a \<Rightarrow> (case qm_heap (sh_queues w) a of
       None \<Rightarrow> (Inl Undefined, (s, w))
     | Some q \<Rightarrow> let_go X others a (s\<lparr>hn_pop_stream := iq_new\<rparr>, set_queue a (iq_dtor (x_ldb X) q (hn_pop_stream s)) w)))"

definition handler_dtor :: "('fs, 'db) externs \<Rightarrow> (nat \<Rightarrow> bool) \<Rightarrow> ('fs, 'db) conn \<Rightarrow> (('fs, 'db) conn, unit) outcome" where
  "handler_dtor X others c =
     (case drop_push_stream X others (update_stats (\<lambda>st. st\<lparr>conns_closed := conns_closed st + 1\<rparr>) c) of
        (Inl e, c1) \<Rightarrow> (Inl e, c1)
      | (Inr _, c1) \<Rightarrow> drop_pop_stream X others c1)"

end
