(* ===== verification/Server.thy ===== *)
theory Server
  imports Handler
begin

text \<open>
  The class \<^verbatim>\<open>server\<close> (\<^verbatim>\<open>server.hpp\<close>) and its event loop. The thread that the constructor starts runs the completions of the
  asynchronous operations one after the other, in the order the network, the clock and the timers decide;
  a completion is a value here and \<open>server_step\<close> runs it. Handlers are objects on a heap, and one that is waited for by
  no operation is destroyed.
\<close>

section \<open>State\<close>

text \<open>
  \<open>sv_handler\<close> is the handler whose socket the next connection is accepted on, \<open>sv_accepting\<close> whether an accept is pending. A
  handler's address is never used again.
\<close>

type_synonym port = "16 word"

record ('fs, 'db) server =
  sv_listen_port :: port
  sv_shared :: "('fs, 'db) shared"
  sv_conns :: "nat \<Rightarrow> handler option"
  sv_next :: nat
  sv_handler :: nat
  sv_accepting :: bool
  sv_stopped :: bool

text \<open>The default of the handler's last parameter.\<close>

definition default_chunk_size :: u64 where
  "default_chunk_size = 1024"

text \<open>A new handler, and the accept of its connection.\<close>

definition next_handler :: "('fs, 'db) server \<Rightarrow> ('fs, 'db) server" where
  "next_handler sv = sv\<lparr>sv_conns := (sv_conns sv)(sv_next sv \<mapsto> handler_ctor default_chunk_size), sv_handler := sv_next sv,
     sv_next := Suc (sv_next sv), sv_accepting := True\<rparr>"

text \<open>
  The constructor: the queues are loaded before the port is opened. \<open>listen\<close> is what opening, binding or listening throws for a
  port.
\<close>

definition server_ctor :: "('fs, 'db) externs \<Rightarrow> (port \<Rightarrow> error option) \<Rightarrow> 'fs \<Rightarrow> string \<Rightarrow> port \<Rightarrow> logs \<Rightarrow> string \<Rightarrow> error + ('fs, 'db) server" where
  "server_ctor X listen fs data_path listen_port logs cerr = (case queue_map_ctor (x_ldb X) (x_fs X) fs data_path of
     (Inl e, _) \<Rightarrow> Inl e
   | (Inr _, m) \<Rightarrow> (case listen listen_port of
       Some e \<Rightarrow> Inl e
     | None \<Rightarrow> Inr (next_handler \<lparr>sv_listen_port = listen_port,
         sv_shared = \<lparr>sh_queues = m, sh_stats = stats_ctor (x_now X), sh_logs = logs, sh_cerr = cerr\<rparr>,
         sv_conns = Map.empty, sv_next = 0, sv_handler = 0, sv_accepting = False, sv_stopped = False\<rparr>)))"

definition server_stop :: "('fs, 'db) server \<Rightarrow> ('fs, 'db) server" where
  "server_stop sv = sv\<lparr>sv_stopped := True\<rparr>"

section \<open>Running a handler\<close>

definition queue_owners :: "('fs, 'db) server \<Rightarrow> nat \<Rightarrow> nat \<Rightarrow> bool" where
  "queue_owners sv self b \<longleftrightarrow>
     list_ex (\<lambda>k. k \<noteq> self \<and> (case sv_conns sv k of None \<Rightarrow> False | Some s \<Rightarrow> owned_by s b)) [0..<sv_next sv]"

text \<open>
  One completion of a handler: its operation is over, the method it was bound to runs, and if that has started no other
  operation the handler was held by nobody else. \<open>owned\<close> are the queues that the caller holds.
\<close>

definition run_conn :: "('fs, 'db) externs \<Rightarrow> (nat \<Rightarrow> bool) \<Rightarrow> nat \<Rightarrow>
    ((nat \<Rightarrow> bool) \<Rightarrow> ('fs, 'db) conn \<Rightarrow> (('fs, 'db) conn, unit) outcome) \<Rightarrow> ('fs, 'db) server \<Rightarrow> (('fs, 'db) server, unit) outcome" where
  "run_conn X owned self f sv = (case sv_conns sv self of
     None \<Rightarrow> (Inl Undefined, sv)
   | Some s \<Rightarrow>
       let others = (\<lambda>b. owned b \<or> queue_owners sv self b)
       in case f others (s\<lparr>hn_pending := P_none\<rparr>, sv_shared sv) of
         (Inl e, (s1, w1)) \<Rightarrow> (Inl e, sv\<lparr>sv_conns := (sv_conns sv)(self \<mapsto> s1), sv_shared := w1\<rparr>)
       | (Inr _, (s1, w1)) \<Rightarrow>
           if hn_pending s1 = P_none
           then (case handler_dtor X others (s1, w1) of
                   (r, (s2, w2)) \<Rightarrow> (r, sv\<lparr>sv_conns := (sv_conns sv)(self := None), sv_shared := w2\<rparr>))
           else (Inr (), sv\<lparr>sv_conns := (sv_conns sv)(self \<mapsto> s1), sv_shared := w1\<rparr>))"

definition log_accept_error :: "('fs, 'db) externs \<Rightarrow> net_error \<Rightarrow> ('fs, 'db) shared \<Rightarrow> ('fs, 'db) shared" where
  "log_accept_error X e w = w\<lparr>sh_cerr := log_format (x_format X) (x_stamp X) ''server::handle_accept: %1%''
     [x_net_message X e] (log_ERROR (sh_logs w)) (sh_cerr w)\<rparr>"

definition handle_accept :: "('fs, 'db) externs \<Rightarrow> net_error option \<Rightarrow> ('fs, 'db) server \<Rightarrow> (('fs, 'db) server, unit) outcome" where
  "handle_accept X e sv = (let sv1 = sv\<lparr>sv_accepting := False\<rparr> in case e of
     Some err \<Rightarrow> (Inr (), sv1\<lparr>sv_shared := log_accept_error X err (sv_shared sv1)\<rparr>)
   | None \<Rightarrow> (case run_conn X (\<lambda>b. False) (sv_handler sv1) (\<lambda>others. handler_start X (sv_handler sv1)) sv1 of
       (Inl err, sv2) \<Rightarrow> (Inl err, sv2)
     | (Inr _, sv2) \<Rightarrow> (Inr (), next_handler sv2)))"

section \<open>The event loop\<close>

text \<open>
  A completion: of an accept, of a read that added bytes to the input buffer of a handler, of a write, or of the timer of a queue's
  waiter. When it carries no error, \<^verbatim>\<open>async_read_until\<close> has found the end of a line and says where it is.
\<close>

datatype completion =
    Accepted "net_error option"
  | Received nat string "net_error option"
  | Written nat "net_error option"
  | Timer nat nat

definition line_end :: "string \<Rightarrow> nat" where
  "line_end inp = Suc (length (takeWhile (\<lambda>c. c \<noteq> CHR 0x0A) inp))"

fun written :: "continuation \<Rightarrow> ('fs, 'db) externs \<Rightarrow> nat \<Rightarrow> net_error option \<Rightarrow> (nat \<Rightarrow> bool) \<Rightarrow> ('fs, 'db) conn \<Rightarrow> (('fs, 'db) conn, unit) outcome" where
  "written K_read_request X self e others c = handler_read_request X self e c"
| "written K_get_on_write_chunk X self e others c = handler_get_on_write_chunk X others self e c"
| "written K_hang_up X self e others c = handler_hang_up c"

definition received :: "pending \<Rightarrow> ('fs, 'db) externs \<Rightarrow> nat \<Rightarrow> string \<Rightarrow> net_error option \<Rightarrow> (nat \<Rightarrow> bool) \<Rightarrow> ('fs, 'db) conn \<Rightarrow>
    (('fs, 'db) conn, unit) outcome" where
  "received p X self bytes e others = (\<lambda>(s, w). let c = (s\<lparr>hn_in := hn_in s @ bytes\<rparr>, w) in
     if p = P_read_until then handler_parse_request X others self e (line_end (hn_in s @ bytes)) c
     else handler_set_on_read_chunk X others self e c)"

text \<open>
  A waiter's timer: the operation owns the queue until the callback has returned.
\<close>

definition timer_completed :: "('fs, 'db) externs \<Rightarrow> nat \<Rightarrow> nat \<Rightarrow> ('fs, 'db) server \<Rightarrow> (('fs, 'db) server, unit) outcome" where
  "timer_completed X a it sv = (case qm_heap (sh_queues (sv_shared sv)) a of
     None \<Rightarrow> (Inl Undefined, sv)
   | Some q \<Rightarrow> (case waiter_wakeup it q of
       (Inl e, q1) \<Rightarrow> (Inl e, sv)
     | (Inr (cb, r), q1) \<Rightarrow>
         (case run_conn X (\<lambda>b. b = a) cb (\<lambda>others. handler_get_on_queue_return X others cb r)
             (sv\<lparr>sv_shared := set_queue a q1 (sv_shared sv)\<rparr>) of
           (Inl e, sv1) \<Rightarrow> (Inl e, sv1)
         | (Inr _, sv1) \<Rightarrow>
             (case release_queue (x_fs X) (queue_owners sv1 (sv_next sv1)) a (sh_queues (sv_shared sv1)) of
                (r1, m) \<Rightarrow> (r1, sv1\<lparr>sv_shared := (sv_shared sv1)\<lparr>sh_queues := m\<rparr>\<rparr>)))))"

fun server_step :: "('fs, 'db) externs \<Rightarrow> completion \<Rightarrow> ('fs, 'db) server \<Rightarrow> (('fs, 'db) server, unit) outcome" where
  "server_step X (Accepted e) sv = handle_accept X e sv"
| "server_step X (Received k bytes e) sv = (case sv_conns sv k of
     None \<Rightarrow> (Inl Undefined, sv)
   | Some s \<Rightarrow> run_conn X (\<lambda>b. False) k (received (hn_pending s) X k bytes e) sv)"
| "server_step X (Written k e) sv = (case sv_conns sv k of
     None \<Rightarrow> (Inl Undefined, sv)
   | Some s \<Rightarrow> (case hn_pending s of
       P_write kont \<Rightarrow> run_conn X (\<lambda>b. False) k (written kont X k e) sv
     | _ \<Rightarrow> (Inl Undefined, sv)))"
| "server_step X (Timer a it) sv = timer_completed X a it sv"

text \<open>
  Which completions Asio may deliver: those of operations that were started and not completed. A read does not fill the
  input buffer beyond its maximal size, the chunk size and two bytes.
\<close>

fun completes :: "completion \<Rightarrow> ('fs, 'db) server \<Rightarrow> bool" where
  "completes (Accepted e) sv \<longleftrightarrow> \<not> sv_stopped sv \<and> sv_accepting sv"
| "completes (Received k bytes e) sv \<longleftrightarrow> \<not> sv_stopped sv \<and> (case sv_conns sv k of None \<Rightarrow> False | Some s \<Rightarrow>
     length (hn_in s @ bytes) \<le> unat (hn_chunk_size s) + 2 \<and>
     (case hn_pending s of
        P_read_until \<Rightarrow> e = None \<longrightarrow> CHR 0x0A \<in> set (hn_in s @ bytes)
      | P_read n \<Rightarrow> e = None \<longrightarrow> unat n \<le> length bytes
      | _ \<Rightarrow> False))"
| "completes (Written k e) sv \<longleftrightarrow> \<not> sv_stopped sv \<and>
     (case sv_conns sv k of None \<Rightarrow> False | Some s \<Rightarrow> (case hn_pending s of P_write kont \<Rightarrow> True | _ \<Rightarrow> False))"
| "completes (Timer a it) sv \<longleftrightarrow> \<not> sv_stopped sv \<and>
     (case qm_heap (sh_queues (sv_shared sv)) a of None \<Rightarrow> False | Some q \<Rightarrow> it \<in> w_node ` set (waiters q))"

text \<open>
  Runs of the server through states that satisfy \<open>P\<close>. The clock goes on between the completions. An exception that leaves a
  completion ends the program, so a run goes on only while there is none.
\<close>

definition at_time :: "int \<Rightarrow> string \<Rightarrow> ('fs, 'db) externs \<Rightarrow> ('fs, 'db) externs" where
  "at_time now stamp X = X\<lparr>x_now := now, x_stamp := stamp\<rparr>"

inductive server_runs :: "('fs, 'db) externs \<Rightarrow> (('fs, 'db) server \<Rightarrow> bool) \<Rightarrow> ('fs, 'db) server \<Rightarrow> completion list \<Rightarrow> ('fs, 'db) server \<Rightarrow> bool"
  for X :: "('fs, 'db) externs" and P :: "('fs, 'db) server \<Rightarrow> bool" and sv0 :: "('fs, 'db) server" where
  start: "server_runs X P sv0 [] sv0"
| step: "server_runs X P sv0 evs sv \<Longrightarrow> P sv \<Longrightarrow> completes ev sv \<Longrightarrow> server_step (at_time now stamp X) ev sv = (Inr (), sv') \<Longrightarrow>
    server_runs X P sv0 (evs @ [ev]) sv'"

lemma at_time_sel [simp]: "x_ldb (at_time now stamp X) = x_ldb X" "x_fs (at_time now stamp X) = x_fs X"
  by (simp_all add: at_time_def)

end
