(* ===== verification/Destroy.thy ===== *)
theory Destroy
  imports Queue_Map Recovery
begin

text \<open>
  What destroying a queue and erasing it from the map promise: the items live on under another path for whoever still
  reads them, the name is free at once, and the directory goes with the last owner.
\<close>

section \<open>What the file system documents\<close>

text \<open>
  Paths in a data directory \<open>d\<close>; \<open>file_name\<close> excludes the names that are not a directory entry of their own.
\<close>

definition file_name :: "string \<Rightarrow> bool" where
  "file_name n \<longleftrightarrow> n \<noteq> [] \<and> CHR ''/'' \<notin> set n \<and> n \<noteq> ''.'' \<and> n \<noteq> ''..''"

definition journal_path :: "('fs, 'db) filesystem \<Rightarrow> string \<Rightarrow> string \<Rightarrow> bool" where
  "journal_path F d p \<longleftrightarrow> (\<exists>n. file_name n \<and> p = fs_append F d n)"

text \<open>
  \<open>view fs p\<close> is what the closed journal at the path holds, \<open>None\<close> where there is no journal. Opening
  reads it, closing writes it, renaming moves it and removing drops it; none of them touches another entry of the
  directory.
\<close>

definition append_ok :: "('fs, 'db) filesystem \<Rightarrow> string \<Rightarrow> bool" where
  "append_ok F d \<longleftrightarrow> (\<forall>n s. file_name n \<longrightarrow> fs_append F d (n @ s) = fs_append F d n @ s) \<and>
     (\<forall>n n'. file_name n \<longrightarrow> file_name n' \<longrightarrow> fs_append F d n = fs_append F d n' \<longrightarrow> n = n')"

definition open_ok :: "'db leveldb \<Rightarrow> ('fs, 'db) filesystem \<Rightarrow> string \<Rightarrow> ('fs \<Rightarrow> string \<Rightarrow> (slice \<Rightarrow> string option) option) \<Rightarrow> bool" where
  "open_ok L F d view \<longleftrightarrow> (\<forall>create p fs db fs'. journal_path F d p \<longrightarrow> db_open F create p fs = (Some db, fs') \<longrightarrow>
     (\<forall>k. ldb_Get L k db = Option.bind (view fs p) (\<lambda>g. g k)) \<and> fs_exists F p fs' \<and>
     (\<forall>p'. journal_path F d p' \<longrightarrow> p' \<noteq> p \<longrightarrow> view fs' p' = view fs p' \<and> fs_exists F p' fs' = fs_exists F p' fs))"

definition close_ok :: "'db leveldb \<Rightarrow> ('fs, 'db) filesystem \<Rightarrow> string \<Rightarrow> ('fs \<Rightarrow> string \<Rightarrow> (slice \<Rightarrow> string option) option) \<Rightarrow> bool" where
  "close_ok L F d view \<longleftrightarrow> (\<forall>p fs db. journal_path F d p \<longrightarrow>
     view (db_close F p db fs) p = Some (\<lambda>k. ldb_Get L k db) \<and>
     (\<forall>p'. journal_path F d p' \<longrightarrow> p' \<noteq> p \<longrightarrow>
        fs_exists F p' (db_close F p db fs) = fs_exists F p' fs \<and> view (db_close F p db fs) p' = view fs p'))"

definition rename_ok :: "('fs, 'db) filesystem \<Rightarrow> string \<Rightarrow> ('fs \<Rightarrow> string \<Rightarrow> (slice \<Rightarrow> string option) option) \<Rightarrow> bool" where
  "rename_ok F d view \<longleftrightarrow> (\<forall>p p' fs fs'. journal_path F d p \<longrightarrow> journal_path F d p' \<longrightarrow> p \<noteq> p' \<longrightarrow>
     fs_rename F p p' fs = (True, fs') \<longrightarrow>
     view fs' p' = view fs p \<and> view fs' p = None \<and> \<not> fs_exists F p fs' \<and> fs_exists F p' fs' \<and>
     (\<forall>r. journal_path F d r \<longrightarrow> r \<noteq> p \<longrightarrow> r \<noteq> p' \<longrightarrow> view fs' r = view fs r \<and> fs_exists F r fs' = fs_exists F r fs))"

definition remove_ok :: "('fs, 'db) filesystem \<Rightarrow> string \<Rightarrow> ('fs \<Rightarrow> string \<Rightarrow> (slice \<Rightarrow> string option) option) \<Rightarrow> bool" where
  "remove_ok F d view \<longleftrightarrow> (\<forall>p fs fs'. journal_path F d p \<longrightarrow> fs_remove_all F p fs = (True, fs') \<longrightarrow>
     view fs' p = None \<and> \<not> fs_exists F p fs' \<and>
     (\<forall>r. journal_path F d r \<longrightarrow> r \<noteq> p \<longrightarrow> view fs' r = view fs r \<and> fs_exists F r fs' = fs_exists F r fs))"

definition fs_contract :: "'db leveldb \<Rightarrow> ('fs, 'db) filesystem \<Rightarrow> string \<Rightarrow> ('fs \<Rightarrow> string \<Rightarrow> (slice \<Rightarrow> string option) option) \<Rightarrow> bool" where
  "fs_contract L F d view \<longleftrightarrow> append_ok F d \<and> open_ok L F d view \<and> close_ok L F d view \<and> rename_ok F d view \<and> remove_ok F d view"

lemma fs_contractD:
  assumes "fs_contract L F d view"
  shows "append_ok F d" "open_ok L F d view" "close_ok L F d view" "rename_ok F d view" "remove_ok F d view"
  using assms by (simp_all add: fs_contract_def)

lemma open_okD:
  assumes "open_ok L F d view" "journal_path F d p" "db_open F create p fs = (Some db, fs')"
  shows "ldb_Get L k db = Option.bind (view fs p) (\<lambda>g. g k)" "fs_exists F p fs'"
    "journal_path F d p' \<Longrightarrow> p' \<noteq> p \<Longrightarrow> view fs' p' = view fs p'"
    "journal_path F d p' \<Longrightarrow> p' \<noteq> p \<Longrightarrow> fs_exists F p' fs' = fs_exists F p' fs"
  using assms unfolding open_ok_def by blast+

lemma close_okD:
  assumes "close_ok L F d view" "journal_path F d p"
  shows "view (db_close F p db fs) p = Some (\<lambda>k. ldb_Get L k db)"
    "journal_path F d p' \<Longrightarrow> p' \<noteq> p \<Longrightarrow> fs_exists F p' (db_close F p db fs) = fs_exists F p' fs"
    "journal_path F d p' \<Longrightarrow> p' \<noteq> p \<Longrightarrow> view (db_close F p db fs) p' = view fs p'"
  using assms unfolding close_ok_def by blast+

lemma rename_okD:
  assumes "rename_ok F d view" "journal_path F d p" "journal_path F d p'" "p \<noteq> p'" "fs_rename F p p' fs = (True, fs')"
  shows "view fs' p' = view fs p" "view fs' p = None" "\<not> fs_exists F p fs'" "fs_exists F p' fs'"
    "journal_path F d r \<Longrightarrow> r \<noteq> p \<Longrightarrow> r \<noteq> p' \<Longrightarrow> view fs' r = view fs r"
    "journal_path F d r \<Longrightarrow> r \<noteq> p \<Longrightarrow> r \<noteq> p' \<Longrightarrow> fs_exists F r fs' = fs_exists F r fs"
  using assms unfolding rename_ok_def by blast+

lemma remove_okD:
  assumes "remove_ok F d view" "journal_path F d p" "fs_remove_all F p fs = (True, fs')"
  shows "view fs' p = None" "\<not> fs_exists F p fs'" "journal_path F d r \<Longrightarrow> r \<noteq> p \<Longrightarrow> view fs' r = view fs r"
    "journal_path F d r \<Longrightarrow> r \<noteq> p \<Longrightarrow> fs_exists F r fs' = fs_exists F r fs"
  using assms unfolding remove_ok_def by blast+

section \<open>An instance\<close>

text \<open>A data directory in memory, on which the witnesses run.\<close>

type_synonym disk = "(string \<times> mem_db) list"

definition disk_drop :: "string \<Rightarrow> disk \<Rightarrow> disk" where
  "disk_drop p fs = filter (\<lambda>e. fst e \<noteq> p) fs"

definition disk_fs :: "(disk, mem_db) filesystem" where
  "disk_fs = \<lparr>fs_append = (\<lambda>d n. d @ ''/'' @ n),
     fs_exists = (\<lambda>p fs. map_of fs p \<noteq> None),
     fs_list = (\<lambda>d fs. Some (map (\<lambda>e. drop (Suc (length d)) (fst e)) fs)),
     fs_rename = (\<lambda>p p' fs. case map_of fs p of
        None \<Rightarrow> (False, fs) | Some db \<Rightarrow> (True, (p', db) # disk_drop p (disk_drop p' fs))),
     fs_remove_all = (\<lambda>p fs. (True, disk_drop p fs)),
     db_open = (\<lambda>create p fs. case map_of fs p of
        Some db \<Rightarrow> (Some db, fs)
      | None \<Rightarrow> if create then (Some (mem_empty []), (p, mem_empty []) # fs) else (None, fs)),
     db_close = (\<lambda>p db fs. (p, db) # disk_drop p fs)\<rparr>"

definition disk_view :: "disk \<Rightarrow> string \<Rightarrow> (slice \<Rightarrow> string option) option" where
  "disk_view fs p = map_option (\<lambda>db. map_of (mdb_entries db)) (map_of fs p)"

lemma map_of_disk_drop [simp]: "map_of (disk_drop p fs) r = (if r = p then None else map_of fs r)"
  by (induction fs) (auto simp: disk_drop_def)

lemma disk_fs_contract [simp]: "fs_contract mem_journal disk_fs d disk_view"
proof -
  have "append_ok disk_fs d" by (simp add: append_ok_def disk_fs_def)
  moreover have "open_ok mem_journal disk_fs d disk_view"
    by (auto simp: open_ok_def disk_fs_def disk_view_def mem_empty_def split: option.splits if_splits)
  moreover have "close_ok mem_journal disk_fs d disk_view"
    by (simp add: close_ok_def disk_fs_def disk_view_def)
  moreover have "rename_ok disk_fs d disk_view"
    by (auto simp: rename_ok_def disk_fs_def disk_view_def split: option.splits)
  moreover have "remove_ok disk_fs d disk_view"
    by (simp add: remove_ok_def disk_fs_def disk_view_def)
  ultimately show ?thesis by (simp add: fs_contract_def)
qed

section \<open>Looking for a free name\<close>

definition suffixed :: "string \<Rightarrow> u64 \<Rightarrow> string" where
  "suffixed p i = p @ ''.'' @ decimal (unat i)"

lemma suffixed_neq: "suffixed p i \<noteq> p"
  by (simp add: suffixed_def)

lemma suffixed_journal_path:
  assumes "append_ok F d" "journal_path F d p"
  shows "journal_path F d (suffixed p i)"
proof -
  obtain n where n: "file_name n" "p = fs_append F d n" using assms(2) by (auto simp: journal_path_def)
  have "CHR ''/'' \<notin> set (decimal (unat i))" using decimal_digits [of "unat i"] by (auto simp: is_digit_def)
  moreover have "n @ ''.'' @ decimal (unat i) \<noteq> m" if "last m = CHR ''.''" for m
  proof
    assume "n @ ''.'' @ decimal (unat i) = m"
    then have "last (decimal (unat i)) = CHR ''.''" using that by auto
    then have "CHR ''.'' \<in> set (decimal (unat i))" by (metis decimal_nonempty last_in_set)
    then show False using decimal_digits [of "unat i"] by (auto simp: is_digit_def)
  qed
  ultimately have "file_name (n @ ''.'' @ decimal (unat i))" using n(1) unfolding file_name_def by simp
  then show ?thesis using assms(1) n by (auto simp: journal_path_def suffixed_def append_ok_def)
qed

lemma free_path_result:
  "free_path taken p i new = Some np \<Longrightarrow> \<not> taken np \<and> (np = new \<or> (\<exists>k. np = suffixed p k))"
proof (erule free_path.raw_induct [rotated])
  fix f :: "(string \<Rightarrow> bool) \<Rightarrow> string \<Rightarrow> u64 \<Rightarrow> string \<Rightarrow> string option" and taken p i new np
  assume IH: "\<And>t p i new np. f t p i new = Some np \<Longrightarrow> \<not> t np \<and> (np = new \<or> (\<exists>k. np = suffixed p k))"
    and step: "(if taken new then f taken p (i + 1) (p @ ''.'' @ decimal (unat i)) else Some new) = Some np"
  show "\<not> taken np \<and> (np = new \<or> (\<exists>k. np = suffixed p k))"
  proof (cases "taken new")
    case True
    then have "f taken p (i + 1) (suffixed p i) = Some np" using step by (simp add: suffixed_def)
    from IH [OF this] show ?thesis by blast
  qed (use step in simp)
qed

lemma free_path_ends:
  assumes "\<not> taken (suffixed p j)" "i \<le> j"
  shows "\<exists>np. free_path taken p i new = Some np"
  using assms(2)
proof (induction "unat (j - i)" arbitrary: i new)
  case 0
  then have "i = j" by (simp add: unat_eq_zero)
  then show ?case using assms(1)
    by (subst free_path.simps) (auto simp: free_path.simps [of taken p "j + 1"] suffixed_def)
next
  case (Suc n)
  then have "i \<noteq> j" by auto
  then have lt: "i < j" using Suc.prems by simp
  have "unat (j - (i + 1)) = n" "i + 1 \<le> j"
    using less_plus_one [OF lt] Suc.hyps(2) lt by (auto simp: word_le_nat_alt word_less_nat_alt unat_sub unat_plus_one)
  from Suc.hyps(1) [OF this(1) [symmetric] this(2)] show ?case by (subst free_path.simps) simp
qed

section \<open>Destroying\<close>

lemma suffixed_zero: "p @ ''.0'' = suffixed p 0"
proof -
  have "decimal (unat (0 :: u64)) = ''0''" by code_simp
  then show ?thesis by (simp add: suffixed_def)
qed

lemma queue_destroy_cases:
  assumes "queue_destroy F fs q = (Inr (), (fs', q'))" "\<not> destroy_flag q"
  obtains np fs2 db where "free_path (\<lambda>p. fs_exists F p fs) (path q) 0 (suffixed (path q) 0) = Some np"
    "fs_rename F (path q) np (db_close F (path q) (journal q) fs) = (True, fs2)"
    "db_open F False np fs2 = (Some db, fs')" "q' = q\<lparr>journal := db, path := np, destroy_flag := True\<rparr>"
  using assms by (auto simp: queue_destroy_def Let_def suffixed_zero split: option.splits prod.splits bool.splits)

lemma queue_inv_same_gets:
  assumes "queue_inv L Op W q" "\<And>k. ldb_Get L k db = ldb_Get L k (journal q)"
  shows "queue_inv L Op W (q\<lparr>journal := db, path := p, destroy_flag := b\<rparr>)"
    "queue_abs L Op (q\<lparr>journal := db, path := p, destroy_flag := b\<rparr>) = queue_abs L Op q"
proof -
  note same = same_gets [OF assms(2)]
  have st: "stored L db \<subseteq> Collect is_key_slice" using queue_inv_stored [OF assms(1)] by (simp add: same)
  have "queue_inv L Op W (q\<lparr>journal := db\<rparr>)" "queue_abs L Op (q\<lparr>journal := db\<rparr>) = queue_abs L Op q"
    using queue_inv_journal [OF assms(1) same(1) st subset_refl] by simp_all
  then show "queue_inv L Op W (q\<lparr>journal := db, path := p, destroy_flag := b\<rparr>)"
    "queue_abs L Op (q\<lparr>journal := db, path := p, destroy_flag := b\<rparr>) = queue_abs L Op q"
    using waiters_frame [of "q\<lparr>journal := db, path := p, destroy_flag := b\<rparr>" "q\<lparr>journal := db\<rparr>"] by simp_all
qed

text \<open>The journal of a destroyed queue, for the lemmas below.\<close>

lemma destroy_moves:
  assumes C: "fs_contract L F d view" and p: "journal_path F d (path q)"
    and des: "queue_destroy F fs q = (Inr (), (fs', q'))" and alive: "\<not> destroy_flag q"
  obtains i db where "q' = q\<lparr>journal := db, path := suffixed (path q) i, destroy_flag := True\<rparr>"
    "\<And>k. ldb_Get L k db = ldb_Get L k (journal q)" "\<not> fs_exists F (suffixed (path q) i) fs"
    "\<not> fs_exists F (path q) fs'" "view fs' (path q) = None"
    "\<forall>r. journal_path F d r \<longrightarrow> r \<noteq> path q \<longrightarrow> r \<noteq> suffixed (path q) i \<longrightarrow>
       view fs' r = view fs r \<and> fs_exists F r fs' = fs_exists F r fs"
proof -
  note [simp] = suffixed_neq suffixed_neq [symmetric]
  obtain np fs2 db where np: "free_path (\<lambda>p. fs_exists F p fs) (path q) 0 (suffixed (path q) 0) = Some np"
    and ren: "fs_rename F (path q) np (db_close F (path q) (journal q) fs) = (True, fs2)"
    and opn: "db_open F False np fs2 = (Some db, fs')" and q': "q' = q\<lparr>journal := db, path := np, destroy_flag := True\<rparr>"
    using des alive by (rule queue_destroy_cases)
  obtain i where i: "np = suffixed (path q) i" and free: "\<not> fs_exists F np fs" using free_path_result [OF np] by blast
  have npp: "journal_path F d np" unfolding i using suffixed_journal_path [OF fs_contractD(1) [OF C] p] .
  note cl = close_okD [OF fs_contractD(3) [OF C] p]
  note rn = rename_okD [OF fs_contractD(4) [OF C] p npp _ ren, unfolded i, simplified]
  note op = open_okD [OF fs_contractD(2) [OF C] npp opn]
  show ?thesis
  proof (rule that [of i db])
    show "q' = q\<lparr>journal := db, path := suffixed (path q) i, destroy_flag := True\<rparr>" using q' i by simp
    show "ldb_Get L k db = ldb_Get L k (journal q)" for k using op(1) rn(1) cl(1) by (simp add: i)
    show "\<not> fs_exists F (suffixed (path q) i) fs" using free i by simp
    show "\<not> fs_exists F (path q) fs'" "view fs' (path q) = None" using op(3,4) [OF p] rn(2,3) i by simp_all
    show "\<forall>r. journal_path F d r \<longrightarrow> r \<noteq> path q \<longrightarrow> r \<noteq> suffixed (path q) i \<longrightarrow>
       view fs' r = view fs r \<and> fs_exists F r fs' = fs_exists F r fs"
      using op(3,4) rn(5,6) cl(2,3) i by simp
  qed
qed

text \<open>
  C34: the search for a free name ends as soon as one of the names is free, with a name that is free.
\<close>

theorem destroy_finds_a_name:
  assumes "\<not> taken (suffixed p j)"
  shows "\<exists>k. free_path taken p 0 (p @ ''.0'') = Some (suffixed p k) \<and> \<not> taken (suffixed p k)"
proof -
  obtain np where "free_path taken p 0 (suffixed p 0) = Some np" using free_path_ends [of taken p j 0] assms by auto
  then show ?thesis using free_path_result [of taken p 0 "suffixed p 0"] by (auto simp: suffixed_zero)
qed

theorem destroy_finds_a_name_witness:
  "\<exists>k. free_path (\<lambda>n. n = ''data/q.0'') ''data/q'' 0 (''data/q'' @ ''.0'') = Some (suffixed ''data/q'' k) \<and>
     suffixed ''data/q'' k \<noteq> ''data/q.0''"
proof -
  have "suffixed ''data/q'' 1 \<noteq> ''data/q.0''" by code_simp
  from destroy_finds_a_name [of "\<lambda>n. n = ''data/q.0''", OF this] show ?thesis .
qed

text \<open>
  C32: a destroyed queue keeps its items, ready and being read, and can be used on by whoever holds it; its journal has moved to a
  path that was free, so that its name no longer exists on disk, and no other journal of the directory is touched.
\<close>

theorem destroy_keeps_items:
  assumes C: "fs_contract L F d view" and p: "journal_path F d (path q)" and inv: "queue_inv L Op W q"
    and des: "queue_destroy F fs q = (Inr (), (fs', q'))" and alive: "\<not> destroy_flag q"
  shows "queue_inv L Op W q' \<and> queue_abs L Op q' = queue_abs L Op q \<and> waiters q' = waiters q \<and> destroy_flag q' \<and>
    \<not> fs_exists F (path q') fs \<and> \<not> fs_exists F (path q) fs' \<and>
    (\<forall>r. journal_path F d r \<longrightarrow> r \<noteq> path q \<longrightarrow> r \<noteq> path q' \<longrightarrow> view fs' r = view fs r \<and> fs_exists F r fs' = fs_exists F r fs)"
proof -
  obtain i db where q': "q' = q\<lparr>journal := db, path := suffixed (path q) i, destroy_flag := True\<rparr>"
    and gets: "\<And>k. ldb_Get L k db = ldb_Get L k (journal q)" and free: "\<not> fs_exists F (suffixed (path q) i) fs"
    and gone: "\<not> fs_exists F (path q) fs'" "view fs' (path q) = None"
    and other: "\<forall>r. journal_path F d r \<longrightarrow> r \<noteq> path q \<longrightarrow> r \<noteq> suffixed (path q) i \<longrightarrow>
       view fs' r = view fs r \<and> fs_exists F r fs' = fs_exists F r fs"
    using C p des alive by (rule destroy_moves) blast
  have keeps: "queue_inv L Op W q'" "queue_abs L Op q' = queue_abs L Op q"
    unfolding q' by (rule queue_inv_same_gets [OF inv gets])+
  have p': "path q' = suffixed (path q) i" "waiters q' = waiters q" "destroy_flag q'" by (simp_all add: q')
  show ?thesis unfolding p' using keeps free gone(1) other p'(3) by blast
qed

definition disk_queue :: "(mem_db, nat) queue" where
  "disk_queue = snd (push_item mem_journal ''hi'' False (queue_fresh (mem_empty []) ''data/q''))"

lemma disk_queue_inv: "queue_inv mem_journal {} {} disk_queue" "f_ready (queue_abs mem_journal {} disk_queue) = [(0, ''hi'')]"
proof -
  let ?q = "queue_fresh (mem_empty []) ''data/q'' :: (mem_db, nat) queue"
  have q: "queue_inv mem_journal {} {} ?q" "queue_abs mem_journal {} ?q = \<lparr>f_ready = [], f_held = Map.empty\<rparr>"
    by (rule queue_fresh_inv; simp)+
  have "fst (push_item mem_journal ''hi'' False ?q) = Inr 0" by code_simp
  then have p: "push_item mem_journal ''hi'' False ?q = (Inr 0, disk_queue)" by (simp add: prod_eq_iff disk_queue_def)
  have h: "key_id (queue_head ?q) + 1 \<noteq> 0" by code_simp
  show "queue_inv mem_journal {} {} disk_queue" "f_ready (queue_abs mem_journal {} disk_queue) = [(0, ''hi'')]"
    using push_item_refines [OF mem_journal_contract q(1) h p] by (simp_all add: q(2) fifo_push_def as_read_def)
qed

theorem destroy_keeps_items_witness:
  "let r = snd (queue_destroy disk_fs [(''data/q'', mem_empty [])] disk_queue)
   in f_ready (queue_abs mem_journal {} (snd r)) = [(0, ''hi'')] \<and> \<not> fs_exists disk_fs ''data/q'' (fst r)"
proof -
  let ?r = "queue_destroy disk_fs [(''data/q'', mem_empty [])] disk_queue"
  have p: "path disk_queue = ''data/q''" "\<not> destroy_flag disk_queue" by code_simp+
  have ok: "fst ?r = Inr ()" by code_simp
  have jp: "journal_path disk_fs ''data'' (path disk_queue)"
    unfolding p(1) journal_path_def by (rule exI [of _ "''q''"]) (simp add: file_name_def disk_fs_def)
  have r: "?r = (Inr (), (fst (snd ?r), snd (snd ?r)))" using ok by (metis prod.collapse)
  from destroy_keeps_items [OF disk_fs_contract jp disk_queue_inv(1) r p(2)] show ?thesis
    by (simp add: Let_def disk_queue_inv(2) p(1))
qed

section \<open>The map of queues\<close>

text \<open>
  The state of the map: a name leads to a live queue of the heap whose journal is at the path of that name.
\<close>

definition queue_map_inv :: "('fs, 'db) filesystem \<Rightarrow> ('fs, 'db, 'cb) queue_map \<Rightarrow> bool" where
  "queue_map_inv F m \<longleftrightarrow> map_sorted (qm_queues m) \<and> (\<forall>a q. qm_heap m a = Some q \<longrightarrow> a < qm_next m) \<and>
     (\<forall>n n' a. map_find (qm_queues m) n = Some a \<longrightarrow> map_find (qm_queues m) n' = Some a \<longrightarrow> n' = n) \<and>
     (\<forall>n a. map_find (qm_queues m) n = Some a \<longrightarrow>
        (\<exists>q. qm_heap m a = Some q \<and> \<not> destroy_flag q \<and> path q = fs_append F (qm_data_path m) n))"

lemma queue_map_invD:
  assumes "queue_map_inv F m"
  shows "map_sorted (qm_queues m)" "qm_heap m a = Some q \<Longrightarrow> a < qm_next m"
    "map_find (qm_queues m) n = Some a \<Longrightarrow>
       \<exists>q. qm_heap m a = Some q \<and> \<not> destroy_flag q \<and> path q = fs_append F (qm_data_path m) n"
    "map_find (qm_queues m) n = Some a \<Longrightarrow> map_find (qm_queues m) n' = Some a \<Longrightarrow> n' = n"
  using assms unfolding queue_map_inv_def by blast+

lemma map_address_bound: "queue_map_inv F m \<Longrightarrow> map_find (qm_queues m) n = Some a \<Longrightarrow> a < qm_next m"
  using queue_map_invD(2,3) by blast

lemma queue_ctor_alive: "queue_ctor L pdb p = Inr q \<Longrightarrow> \<not> destroy_flag q \<and> path q = p \<and> waiters q = []"
  by (auto simp: queue_ctor_def queue_fresh_def Let_def split: option.splits if_splits)

lemma queue_ctor_empty:
  assumes "journal_contract L" "stored L db = {}"
  shows "queue_ctor L (Some db) p = Inr (queue_fresh db p)"
proof -
  have "seek_at slice_le (stored L db) (key_slice (Key KT_QUEUE 0)) (ldb_Seek L (key_slice (Key KT_QUEUE 0)) db)"
    using iterators(1) [OF assms(1), of db] assms(2) by simp
  then have "ldb_Seek L (key_slice (Key KT_QUEUE 0)) db = None" using assms(2) by (auto simp: seek_at_def split: option.splits)
  then show ?thesis by (simp add: queue_ctor_def Let_def)
qed

lemma assign_queue_cases:
  assumes "assign_queue L F n m = (Inr a, m')"
  obtains pdb fs1 q where "db_open F True (fs_append F (qm_data_path m) n) (qm_fs m) = (pdb, fs1)"
    "queue_ctor L pdb (fs_append F (qm_data_path m) n) = Inr q" "a = qm_next m"
    "m' = m\<lparr>qm_fs := fs1, qm_heap := (qm_heap m)(qm_next m \<mapsto> q), qm_next := Suc (qm_next m),
       qm_queues := map_insert n a (qm_queues m)\<rparr>"
  using assms by (auto simp: assign_queue_def make_queue_def Let_def split: prod.splits sum.splits)

lemma assign_queue_inv:
  assumes "queue_map_inv F m" "assign_queue L F n m = (Inr a, m')"
  shows "queue_map_inv F m'" "map_find (qm_queues m') n' = (if n' = n then Some a else map_find (qm_queues m) n')"
proof -
  obtain pdb fs1 q where q: "queue_ctor L pdb (fs_append F (qm_data_path m) n) = Inr q" and a: "a = qm_next m"
    and m': "m' = m\<lparr>qm_fs := fs1, qm_heap := (qm_heap m)(qm_next m \<mapsto> q), qm_next := Suc (qm_next m),
       qm_queues := map_insert n a (qm_queues m)\<rparr>"
    using assms(2) by (rule assign_queue_cases)
  note inv = queue_map_invD [OF assms(1)]
  have f: "map_find (map_insert n a (qm_queues m)) k = (if k = n then Some a else map_find (qm_queues m) k)" for k
    using om.find_insert [OF inv(1)] by simp
  then show "map_find (qm_queues m') n' = (if n' = n then Some a else map_find (qm_queues m) n')" by (simp add: m')
  have "\<exists>q. qm_heap m' b = Some q \<and> \<not> destroy_flag q \<and> path q = fs_append F (qm_data_path m') k"
    if "map_find (qm_queues m') k = Some b" for k b
    using that [unfolded m', simplified, unfolded f] inv(3) [of k b] map_address_bound [OF assms(1), of k b] queue_ctor_alive [OF q]
    by (auto simp: m' a split: if_splits)
  moreover have "b < qm_next m'" if "qm_heap m' b = Some r" for b r
    using that inv(2) [of b r] by (auto simp: m' split: if_splits)
  moreover have "k' = k" if "map_find (qm_queues m') k = Some b" "map_find (qm_queues m') k' = Some b" for k k' b
    using that [unfolded m', simplified, unfolded f] inv(4) [of k b k'] map_address_bound [OF assms(1), of _ b]
    by (auto simp: a split: if_splits)
  moreover have "map_sorted (qm_queues m')" using om.wf_insert [OF inv(1)] by (simp add: m')
  ultimately show "queue_map_inv F m'" unfolding queue_map_inv_def by blast
qed

text \<open>
  C33: after \<^verbatim>\<open>operator[]\<close> the name leads to the queue it returns, which is the one that was there or else a new one, and every
  other name leads where it did.
\<close>

theorem lookup_creates_once:
  assumes "queue_map_inv F m" "queue_map_get L F n m = (Inr a, m')"
  shows "queue_map_inv F m' \<and> map_find (qm_queues m') n = Some a \<and>
    (\<forall>n'. n' \<noteq> n \<longrightarrow> map_find (qm_queues m') n' = map_find (qm_queues m) n') \<and>
    (map_find (qm_queues m) n = Some a \<or> map_find (qm_queues m) n = None \<and> qm_heap m a = None) \<and>
    queue_map_get L F n m' = (Inr a, m')"
proof (cases "map_find (qm_queues m) n")
  case None
  then have as: "assign_queue L F n m = (Inr a, m')" using assms(2) by (simp add: queue_map_get_def)
  have "a = qm_next m" using as by (rule assign_queue_cases)
  then have "qm_heap m a = None" using queue_map_invD(2) [OF assms(1), of a] by (cases "qm_heap m a") auto
  then show ?thesis using assign_queue_inv [OF assms(1) as] None by (simp add: queue_map_get_def)
next
  case (Some b)
  then show ?thesis using assms by (auto simp: queue_map_get_def)
qed

text \<open>Erasing a name, before it is created again.\<close>

lemma release_queue_cases:
  assumes "release_queue F owned a m = (Inr (), m')" "qm_heap m a = Some q" "a \<notin> snd ` set (qm_queues m)"
  obtains (kept) "owned a \<or> waiters q \<noteq> []" "m' = m"
  | (freed) fs1 where "\<not> owned a" "waiters q = []" "queue_dtor F q (qm_fs m) = (Inr (), fs1)"
      "m' = m\<lparr>qm_fs := fs1, qm_heap := (qm_heap m)(a := None)\<rparr>"
  using assms by (auto simp: release_queue_def split: prod.splits if_splits)

lemma dtor_of_destroyed:
  assumes C: "fs_contract L F d view" and p: "journal_path F d (path q)" and "destroy_flag q"
    and dt: "queue_dtor F q fs = (Inr (), fs')"
  shows "\<not> fs_exists F (path q) fs'"
    "journal_path F d r \<Longrightarrow> r \<noteq> path q \<Longrightarrow> view fs' r = view fs r \<and> fs_exists F r fs' = fs_exists F r fs"
proof -
  have rm: "fs_remove_all F (path q) (db_close F (path q) (journal q) fs) = (True, fs')"
    using dt assms(3) by (auto simp: queue_dtor_def Let_def split: prod.splits if_splits)
  note r = remove_okD [OF fs_contractD(5) [OF C] p rm] and cl = close_okD [OF fs_contractD(3) [OF C] p]
  show "\<not> fs_exists F (path q) fs'" using r(2) .
  show "view fs' r = view fs r \<and> fs_exists F r fs' = fs_exists F r fs" if "journal_path F d r" "r \<noteq> path q"
    using that r(3,4) [of r] cl(2,3) [of r] by simp
qed

lemma erase_address:
  assumes "queue_map_inv F m" "map_find (qm_queues m) n = Some a"
  shows "a \<notin> snd ` set (map_erase n (qm_queues m))"
proof
  assume "a \<in> snd ` set (map_erase n (qm_queues m))"
  then obtain n' where "(n', a) \<in> set (map_erase n (qm_queues m))" by force
  then have "map_find (qm_queues m) n' = Some a" "n' \<noteq> n"
    using om.entries_erase [OF queue_map_invD(1) [OF assms(1)], of n] om.entry_iff [OF queue_map_invD(1) [OF assms(1)]] by auto
  then show False using queue_map_invD(4) [OF assms(1) assms(2)] by blast
qed

lemma queue_map_remove_cases:
  assumes "queue_map_inv F m" "map_find (qm_queues m) n = Some a" "queue_map_remove F owned n a m = (Inr (), m')"
  obtains q fs1 q1 where "qm_heap m a = Some q" "\<not> destroy_flag q" "path q = fs_append F (qm_data_path m) n"
    "queue_destroy F (qm_fs m) q = (Inr (), (fs1, q1))"
    "release_queue F owned a (m\<lparr>qm_fs := fs1, qm_heap := (qm_heap m)(a \<mapsto> q1), qm_queues := map_erase n (qm_queues m)\<rparr>) = (Inr (), m')"
proof -
  obtain q where q: "qm_heap m a = Some q" "\<not> destroy_flag q" "path q = fs_append F (qm_data_path m) n"
    using queue_map_invD(3) [OF assms(1,2)] by blast
  show thesis using assms(3) q that by (auto simp: queue_map_remove_def split: prod.splits sum.splits)
qed

lemma queue_map_remove_state:
  assumes C: "fs_contract L F (qm_data_path m) view" and inv: "queue_map_inv F m" and n: "file_name n"
    and f: "map_find (qm_queues m) n = Some a" and q: "qm_heap m a = Some q"
    and rem: "queue_map_remove F owned n a m = (Inr (), m')"
  shows "qm_queues m' = map_erase n (qm_queues m)" "qm_next m' = qm_next m" "qm_data_path m' = qm_data_path m"
    "b \<noteq> a \<Longrightarrow> qm_heap m' b = qm_heap m b" "\<not> fs_exists F (path q) (qm_fs m')" "view (qm_fs m') (path q) = None"
    "owned a \<Longrightarrow> \<exists>i db. (\<forall>k. ldb_Get L k db = ldb_Get L k (journal q)) \<and>
       qm_heap m' a = Some (q\<lparr>journal := db, path := suffixed (path q) i, destroy_flag := True\<rparr>)"
    "\<not> owned a \<Longrightarrow> waiters q = [] \<Longrightarrow> qm_heap m' a = None \<and>
       (\<forall>r. journal_path F (qm_data_path m) r \<longrightarrow> r \<noteq> path q \<longrightarrow> fs_exists F r (qm_fs m') = fs_exists F r (qm_fs m))"
proof -
  obtain fs1 q1 where alive: "\<not> destroy_flag q" "path q = fs_append F (qm_data_path m) n"
    and des: "queue_destroy F (qm_fs m) q = (Inr (), (fs1, q1))"
    and rel: "release_queue F owned a (m\<lparr>qm_fs := fs1, qm_heap := (qm_heap m)(a \<mapsto> q1), qm_queues := map_erase n (qm_queues m)\<rparr>) = (Inr (), m')"
    using inv f rem by (rule queue_map_remove_cases) (use q in auto)
  have p: "journal_path F (qm_data_path m) (path q)" using n alive(2) by (auto simp: journal_path_def)
  obtain i db where q1: "q1 = q\<lparr>journal := db, path := suffixed (path q) i, destroy_flag := True\<rparr>"
    and gets: "\<And>k. ldb_Get L k db = ldb_Get L k (journal q)" and free: "\<not> fs_exists F (suffixed (path q) i) (qm_fs m)"
    and gone: "\<not> fs_exists F (path q) fs1" "view fs1 (path q) = None"
    and other: "\<forall>r. journal_path F (qm_data_path m) r \<longrightarrow> r \<noteq> path q \<longrightarrow> r \<noteq> suffixed (path q) i \<longrightarrow>
       view fs1 r = view (qm_fs m) r \<and> fs_exists F r fs1 = fs_exists F r (qm_fs m)"
    using C p des alive(1) by (rule destroy_moves) blast
  have sp: "journal_path F (qm_data_path m) (path q1)" "destroy_flag q1" "path q1 = suffixed (path q) i" "waiters q1 = waiters q"
    using suffixed_journal_path [OF fs_contractD(1) [OF C] p] by (simp_all add: q1)
  consider (kept) "owned a \<or> waiters q \<noteq> []"
      "m' = m\<lparr>qm_fs := fs1, qm_heap := (qm_heap m)(a \<mapsto> q1), qm_queues := map_erase n (qm_queues m)\<rparr>"
    | (freed) fs2 where "\<not> owned a" "waiters q = []" "queue_dtor F q1 fs1 = (Inr (), fs2)"
      "m' = m\<lparr>qm_fs := fs2, qm_heap := (qm_heap m)(a := None), qm_queues := map_erase n (qm_queues m)\<rparr>"
    using rel by (rule release_queue_cases) (auto simp: erase_address [OF inv f] sp(4))
  then have "qm_queues m' = map_erase n (qm_queues m) \<and> qm_next m' = qm_next m \<and> qm_data_path m' = qm_data_path m \<and>
    (b \<noteq> a \<longrightarrow> qm_heap m' b = qm_heap m b) \<and> \<not> fs_exists F (path q) (qm_fs m') \<and> view (qm_fs m') (path q) = None \<and>
    (owned a \<longrightarrow> qm_heap m' a = Some q1) \<and>
    (\<not> owned a \<and> waiters q = [] \<longrightarrow> qm_heap m' a = None \<and>
       (\<forall>r. journal_path F (qm_data_path m) r \<longrightarrow> r \<noteq> path q \<longrightarrow> fs_exists F r (qm_fs m') = fs_exists F r (qm_fs m)))"
  proof cases
    case kept
    then show ?thesis using gone by auto
  next
    case freed
    note d = dtor_of_destroyed [OF C sp(1,2) freed(3), unfolded sp(3)]
    have "fs_exists F r fs2 = fs_exists F r (qm_fs m)" if "journal_path F (qm_data_path m) r" "r \<noteq> path q" for r
      using that d(1) d(2) [of r] other free by (cases "r = suffixed (path q) i") auto
    then show ?thesis using freed gone d(2) [OF p] suffixed_neq [of "path q" i] by auto
  qed
  then show "qm_queues m' = map_erase n (qm_queues m)" "qm_next m' = qm_next m" "qm_data_path m' = qm_data_path m"
    "b \<noteq> a \<Longrightarrow> qm_heap m' b = qm_heap m b" "\<not> fs_exists F (path q) (qm_fs m')" "view (qm_fs m') (path q) = None"
    "owned a \<Longrightarrow> \<exists>i db. (\<forall>k. ldb_Get L k db = ldb_Get L k (journal q)) \<and>
       qm_heap m' a = Some (q\<lparr>journal := db, path := suffixed (path q) i, destroy_flag := True\<rparr>)"
    "\<not> owned a \<Longrightarrow> waiters q = [] \<Longrightarrow> qm_heap m' a = None \<and>
       (\<forall>r. journal_path F (qm_data_path m) r \<longrightarrow> r \<noteq> path q \<longrightarrow> fs_exists F r (qm_fs m') = fs_exists F r (qm_fs m))"
    using q1 gets by blast+
qed

lemma queue_map_remove_inv:
  assumes C: "fs_contract L F (qm_data_path m) view" and inv: "queue_map_inv F m" and n: "file_name n"
    and f: "map_find (qm_queues m) n = Some a" and rem: "queue_map_remove F owned n a m = (Inr (), m')"
  shows "queue_map_inv F m'" "map_find (qm_queues m') n' = (if n' = n then None else map_find (qm_queues m) n')"
proof -
  obtain q where q: "qm_heap m a = Some q" using queue_map_invD(3) [OF inv f] by blast
  note st = queue_map_remove_state [OF C inv n f q rem]
  have g: "map_find (qm_queues m') k = (if k = n then None else map_find (qm_queues m) k)" for k
    using om.find_erase [OF queue_map_invD(1) [OF inv]] by (simp add: st(1))
  then show "map_find (qm_queues m') n' = (if n' = n then None else map_find (qm_queues m) n')" .
  have "b \<noteq> a" if "map_find (qm_queues m') k = Some b" for k b
    using that queue_map_invD(4) [OF inv f, of k] by (auto simp: g split: if_splits)
  then have "\<exists>q. qm_heap m' b = Some q \<and> \<not> destroy_flag q \<and> path q = fs_append F (qm_data_path m') k"
    if "map_find (qm_queues m') k = Some b" for k b
    using that queue_map_invD(3) [OF inv, of k b] st(4) [of b] by (auto simp: g st(3) split: if_splits)
  moreover have "b < qm_next m'" if "qm_heap m' b = Some r" for b r
    using that queue_map_invD(2) [OF inv, of b] q st(4) [of b] by (cases "b = a") (auto simp: st(2))
  moreover have "k' = k" if "map_find (qm_queues m') k = Some b" "map_find (qm_queues m') k' = Some b" for k k' b
    using that queue_map_invD(4) [OF inv, of k b k'] by (auto simp: g split: if_splits)
  moreover have "map_sorted (qm_queues m')" using om.wf_erase [OF queue_map_invD(1) [OF inv]] by (simp add: st(1))
  ultimately show "queue_map_inv F m'" unfolding queue_map_inv_def by blast
qed

text \<open>
  C31: deleting a queue frees its name at once, on disk too. If nobody reads from it, writes to it or waits for it, nothing of
  it is left: the object is gone and the directory holds what it held before except for its journal.
\<close>

theorem delete_frees_the_name:
  assumes C: "fs_contract L F (qm_data_path m) view" and inv: "queue_map_inv F m" and n: "file_name n"
    and f: "map_find (qm_queues m) n = Some a" "qm_heap m a = Some q"
    and er: "queue_map_erase L F owned n False m = (Inr (), m')"
  shows "queue_map_inv F m' \<and> map_find (qm_queues m') n = None \<and> \<not> fs_exists F (fs_append F (qm_data_path m) n) (qm_fs m') \<and>
    (\<forall>n'. n' \<noteq> n \<longrightarrow> map_find (qm_queues m') n' = map_find (qm_queues m) n') \<and>
    (\<not> owned a \<and> waiters q = [] \<longrightarrow> qm_heap m' a = None \<and>
       (\<forall>r. journal_path F (qm_data_path m) r \<longrightarrow> r \<noteq> fs_append F (qm_data_path m) n \<longrightarrow>
          fs_exists F r (qm_fs m') = fs_exists F r (qm_fs m)))"
proof -
  have rem: "queue_map_remove F owned n a m = (Inr (), m')"
    using er f by (auto simp: queue_map_erase_def split: prod.splits sum.splits)
  have "path q = fs_append F (qm_data_path m) n" using queue_map_invD(3) [OF inv f(1)] f(2) by auto
  then show ?thesis
    using queue_map_remove_state(5,8) [OF C inv n f rem] queue_map_remove_inv [OF C inv n f(1) rem] by simp
qed

text \<open>
  C30: flushing a queue puts a new and empty queue under the name, while a client that holds the old one goes on with exactly the
  items that it had.
\<close>

theorem flush_empties_the_queue:
  assumes L: "journal_contract L" and C: "fs_contract L F (qm_data_path m) view" and inv: "queue_map_inv F m" and n: "file_name n"
    and f: "map_find (qm_queues m) n = Some a" "qm_heap m a = Some q" and q: "queue_inv L Op W q"
    and er: "queue_map_erase L F owned n True m = (Inr (), m')"
  shows "queue_map_inv F m' \<and>
    (\<exists>b db. map_find (qm_queues m') n = Some b \<and> qm_heap m b = None \<and>
       qm_heap m' b = Some (queue_fresh db (fs_append F (qm_data_path m) n)) \<and> stored L db = {}) \<and>
    (\<forall>n'. n' \<noteq> n \<longrightarrow> map_find (qm_queues m') n' = map_find (qm_queues m) n') \<and>
    (owned a \<longrightarrow> (\<exists>q'. qm_heap m' a = Some q' \<and> queue_inv L Op W q' \<and> queue_abs L Op q' = queue_abs L Op q))"
proof -
  let ?p = "fs_append F (qm_data_path m) n"
  obtain m1 b where rem: "queue_map_remove F owned n a m = (Inr (), m1)" and asg: "assign_queue L F n m1 = (Inr b, m')"
    using er f by (auto simp: queue_map_erase_def split: prod.splits sum.splits)
  note st = queue_map_remove_state [OF C inv n f rem] and ri = queue_map_remove_inv [OF C inv n f(1) rem]
  have p: "path q = ?p" "journal_path F (qm_data_path m) ?p" using queue_map_invD(3) [OF inv f(1)] f(2) n by (auto simp: journal_path_def)
  obtain pdb fs1 q1 where op: "db_open F True ?p (qm_fs m1) = (pdb, fs1)" and ct: "queue_ctor L pdb ?p = Inr q1" and b: "b = qm_next m1"
    and m': "m' = m1\<lparr>qm_fs := fs1, qm_heap := (qm_heap m1)(qm_next m1 \<mapsto> q1), qm_next := Suc (qm_next m1),
       qm_queues := map_insert n b (qm_queues m1)\<rparr>"
    using asg unfolding st(3) [symmetric] by (rule assign_queue_cases) (simp add: st(3))
  obtain db where db: "pdb = Some db" using ct by (cases pdb) (simp_all add: queue_ctor_def)
  have "ldb_Get L k db = None" for k
    using open_okD(1) [OF fs_contractD(2) [OF C] p(2) op [unfolded db]] st(6) by (simp add: p(1))
  then have empty: "stored L db = {}" by (simp add: stored_def)
  then have q1: "q1 = queue_fresh db ?p" using ct by (simp add: db queue_ctor_empty [OF L empty])
  have ab: "a < qm_next m1" using queue_map_invD(2) [OF inv f(2)] by (simp add: st(2))
  have new: "qm_heap m b = None" using queue_map_invD(2) [OF inv, of b] by (cases "qm_heap m b") (auto simp: b st(2))
  have "\<exists>q'. qm_heap m' a = Some q' \<and> queue_inv L Op W q' \<and> queue_abs L Op q' = queue_abs L Op q" if o: "owned a"
  proof -
    obtain i db' where g: "\<And>k. ldb_Get L k db' = ldb_Get L k (journal q)"
      and h: "qm_heap m1 a = Some (q\<lparr>journal := db', path := suffixed (path q) i, destroy_flag := True\<rparr>)"
      using st(7) [OF o] by blast
    then show ?thesis using queue_inv_same_gets [OF q g] ab by (auto simp: m')
  qed
  then show ?thesis using assign_queue_inv [OF ri(1) asg] ri(2) new empty by (auto simp: m' b q1)
qed

section \<open>Witnesses\<close>

text \<open>A map with one queue that holds one item, loaded from an empty data directory.\<close>

definition disk_map :: "(disk, mem_db, nat) queue_map" where
  "disk_map = \<lparr>qm_fs = [(''data/q'', mem_empty [])], qm_heap = (\<lambda>a. if a = 0 then Some disk_queue else None), qm_next = 1,
     qm_queues = [(''q'', 0)], qm_data_path = ''data''\<rparr>"

lemma disk_map_inv: "queue_map_inv disk_fs disk_map" "file_name ''q''"
proof -
  have "path disk_queue = ''data/q''" "\<not> destroy_flag disk_queue" by code_simp+
  then show "queue_map_inv disk_fs disk_map"
    by (auto simp: queue_map_inv_def disk_map_def map_sorted_def map_find_def disk_fs_def split: if_splits)
  show "file_name ''q''" by code_simp
qed

lemma disk_map_facts: "map_find (qm_queues disk_map) ''q'' = Some 0" "qm_heap disk_map 0 = Some disk_queue"
  "qm_data_path disk_map = ''data''"
  by (simp_all add: disk_map_def map_find_def)

theorem lookup_creates_once_witness:
  "map_find (qm_queues (snd (queue_map_get mem_journal disk_fs ''r'' disk_map))) ''r'' = Some 1 \<and>
   map_find (qm_queues (snd (queue_map_get mem_journal disk_fs ''r'' disk_map))) ''q'' = Some 0"
proof -
  let ?r = "queue_map_get mem_journal disk_fs ''r'' disk_map"
  have "fst ?r = Inr 1" by code_simp
  then have r: "?r = (Inr 1, snd ?r)" by (metis prod.collapse)
  from lookup_creates_once [OF disk_map_inv(1) r] show ?thesis by (simp add: disk_map_facts)
qed

theorem delete_frees_the_name_witness:
  "map_find (qm_queues (snd (queue_map_erase mem_journal disk_fs (\<lambda>a. False) ''q'' False disk_map))) ''q'' = None \<and>
   qm_heap (snd (queue_map_erase mem_journal disk_fs (\<lambda>a. False) ''q'' False disk_map)) 0 = None"
proof -
  let ?r = "queue_map_erase mem_journal disk_fs (\<lambda>a. False) ''q'' False disk_map"
  have "fst ?r = Inr ()" and w: "waiters disk_queue = []" by code_simp+
  then have r: "?r = (Inr (), snd ?r)" by (metis prod.collapse)
  from delete_frees_the_name [OF disk_fs_contract disk_map_inv disk_map_facts(1,2) r] w show ?thesis by simp
qed

theorem flush_empties_the_queue_witness:
  "\<exists>b db. map_find (qm_queues (snd (queue_map_erase mem_journal disk_fs (\<lambda>a. True) ''q'' True disk_map))) ''q'' = Some b \<and>
     qm_heap (snd (queue_map_erase mem_journal disk_fs (\<lambda>a. True) ''q'' True disk_map)) b = Some (queue_fresh db ''data/q'')"
proof -
  let ?r = "queue_map_erase mem_journal disk_fs (\<lambda>a. True) ''q'' True disk_map"
  have "fst ?r = Inr ()" by code_simp
  then have r: "?r = (Inr (), snd ?r)" by (metis prod.collapse)
  have "fs_append disk_fs (qm_data_path disk_map) ''q'' = ''data/q''" by code_simp
  with flush_empties_the_queue [OF mem_journal_contract disk_fs_contract disk_map_inv disk_map_facts(1,2) disk_queue_inv(1) r]
  show ?thesis by auto
qed

end
