(* ===== verification/Handler_Set.thy ===== *)
theory Handler_Set
  imports Handler Clients_Step
begin

text \<open>
  The set loop of the handler: however the bytes of an item arrive, the item that is pushed is those bytes.
\<close>

section \<open>Queues of the map\<close>

definition mapped :: "nat \<Rightarrow> ('fs, 'db) shared \<Rightarrow> bool" where
  "mapped a w \<longleftrightarrow> a \<in> snd ` set (qm_queues (sh_queues w))"

lemma set_queue_sel [simp]:
  "qm_heap (sh_queues (set_queue a q w)) = (qm_heap (sh_queues w))(a \<mapsto> q)" "qm_queues (sh_queues (set_queue a q w)) = qm_queues (sh_queues w)"
  "sh_stats (set_queue a q w) = sh_stats w" "sh_cerr (set_queue a q w) = sh_cerr w" "sh_logs (set_queue a q w) = sh_logs w"
  "mapped b (set_queue a q w) = mapped b w"
  by (simp_all add: set_queue_def mapped_def)

lemma let_go_mapped: "mapped a w \<Longrightarrow> let_go X others a (s, w) = (Inr (), (s, w))"
  by (simp add: let_go_def release_queue_def mapped_def split: option.splits)

lemma push_stream_write_mapped:
  assumes "os_queue (hn_push_stream s) = Some a" "qm_heap (sh_queues w) a = Some q" "mapped a w"
  shows "push_stream_write X others chunk (s, w) = (case oq_write (x_ldb X) chunk q (hn_push_stream s) of
     (r, (q1, p)) \<Rightarrow> (r, (s\<lparr>hn_push_stream := p\<rparr>, set_queue a q1 w)))"
  using assms by (auto simp: push_stream_write_def let_go_mapped split: prod.splits sum.splits)

section \<open>Chunks of an item\<close>

lemma chunk_count:
  assumes "0 < C" "j * C < n"
  shows "n - j * C \<le> C \<longleftrightarrow> Suc j = (n + C - 1) div C" "Suc j \<le> (n + C - 1) div C"
proof -
  have eq: "(n + C - 1) div C = Suc ((n - 1) div C)"
  proof -
    have e: "n + C - 1 = (n - 1) + C" using assms(2) by linarith
    show ?thesis unfolding e using assms(1) by (subst div_add_self2) simp_all
  qed
  have "j * C \<le> n - 1" using assms(2) by linarith
  then have lo: "j \<le> (n - 1) div C" by (simp add: less_eq_div_iff_mult_less_eq [OF assms(1)])
  have "n - j * C \<le> C \<longleftrightarrow> n - 1 < j * C + C" using assms by linarith
  also have "\<dots> \<longleftrightarrow> n - 1 < Suc j * C" by (simp add: add.commute)
  also have "\<dots> \<longleftrightarrow> (n - 1) div C < Suc j" by (rule div_less_iff_less_mult [OF assms(1), symmetric])
  finally show "n - j * C \<le> C \<longleftrightarrow> Suc j = (n + C - 1) div C" "Suc j \<le> (n + C - 1) div C" using lo eq by auto
qed

lemma chunk_count_word:
  assumes "unat (C :: u64) < 2 ^ 32" "0 < unat C" "unat (n :: u64) < 2 ^ 32"
  shows "unat ((n + C - 1) div C) = (unat n + unat C - 1) div unat C"
proof -
  have s: "unat n + unat C < 2 ^ 64" using assms by simp
  then have a: "unat (n + C) = unat n + unat C" by (intro unat_add_lem [THEN iffD1]) simp
  then have "n + C \<noteq> 0" using assms(2) by auto
  then have "unat (n + C - 1) = unat n + unat C - 1" using a by (simp add: unat_minus_one)
  then show ?thesis by (simp add: unat_div)
qed

text \<open>
  Where the loop is: \<open>cs\<close> are the chunks written so far, each of the full size, and the stream was opened for as many chunks as the
  item needs.
\<close>

definition set_at :: "'db leveldb \<Rightarrow> u64 set \<Rightarrow> string \<Rightarrow> string list \<Rightarrow> ('db, 'cb) queue \<Rightarrow> handler \<Rightarrow> bool" where
  "set_at L W data cs q s \<longleftrightarrow>
     (let C = unat (hn_chunk_size s); p = hn_push_stream s in
      0 < C \<and> C < 2 ^ 32 \<and> length data < 2 ^ 32 \<and> unat (r_num_bytes (hn_req s)) = length data \<and> os_queue p \<noteq> None \<and>
      (\<forall>c \<in> set cs. length c = C) \<and> take (length cs * C) data = concat cs \<and> length cs * C < length data \<and>
      (if length data \<le> C then cs = [] \<and> os_header p = header_default \<and> os_chunk_pos p = 0
       else oq_inv L W cs q p \<and> unat (h_end (os_header p) - h_beg (os_header p)) = (length data + C - 1) div C))"

lemma length_concat_same: "\<forall>c \<in> set cs. length c = C \<Longrightarrow> length (concat cs) = length cs * C"
  by (induction cs) auto

lemma unat_of_small: "n < 2 ^ 64 \<Longrightarrow> unat (word_of_nat n :: u64) = n"
  by (simp add: unsigned_of_nat take_bit_nat_eq_self)

lemma set_at_tell:
  assumes "set_at L W data cs q s"
  shows "unat (oq_tell (hn_push_stream s)) = length cs * unat (hn_chunk_size s)"
    "unat (r_num_bytes (hn_req s) - oq_tell (hn_push_stream s)) = length data - length cs * unat (hn_chunk_size s)"
proof -
  let ?C = "unat (hn_chunk_size s)" and ?p = "hn_push_stream s"
  have d: "length cs * ?C < length data" "length data < 2 ^ 32" "unat (r_num_bytes (hn_req s)) = length data"
    "\<forall>c \<in> set cs. length c = ?C" using assms by (simp_all add: set_at_def Let_def)
  show t: "unat (oq_tell ?p) = length cs * ?C"
  proof (cases "length data \<le> ?C")
    case True
    then show ?thesis using assms by (simp add: set_at_def Let_def oq_tell_def header_default_def)
  next
    case False
    then have "h_size (os_header ?p) = word_of_nat (length (concat cs))" using assms by (simp add: set_at_def oq_inv_def Let_def)
    moreover have "unat (word_of_nat (length (concat cs)) :: u64) = length (concat cs)"
      by (rule unat_of_small) (use d(1,2) length_concat_same [OF d(4)] in simp)
    ultimately show ?thesis using length_concat_same [OF d(4)] by (simp add: oq_tell_def)
  qed
  then show "unat (r_num_bytes (hn_req s) - oq_tell ?p) = length data - length cs * ?C"
    using d by (simp add: unat_sub word_le_nat_alt)
qed

lemma unat_excess: "unat (if b < a then a - b else 0) = unat a - unat b" for a b :: u64
  by (simp add: unat_sub word_le_nat_alt word_less_nat_alt)

text \<open>How many bytes the handler still asks for; they always fit the input buffer.\<close>

lemma set_at_required:
  assumes s: "set_at L W data cs q s" and i: "length (hn_in s) \<le> unat (hn_chunk_size s) + 2"
    and r: "handler_read_chunk (s, w) = (Inr (), (s', w'))"
  defines "rest \<equiv> length data - length cs * unat (hn_chunk_size s)"
  defines "need \<equiv> if unat (hn_chunk_size s) < rest then unat (hn_chunk_size s) else rest + 2"
  obtains k where "hn_pending s' = P_read k" "unat k = need - length (hn_in s)" "need \<le> unat (hn_chunk_size s) + 2"
    "s' = s\<lparr>hn_pending := P_read k\<rparr>" "w' = w"
proof -
  let ?C = "hn_chunk_size s" and ?rem = "r_num_bytes (hn_req s) - oq_tell (hn_push_stream s)"
  let ?req = "if ?rem > ?C then ?C else ?rem + 2" and ?av = "word_of_nat (length (hn_in s)) :: u64"
  have C: "unat ?C < 2 ^ 32" "rest \<le> length data" "length data < 2 ^ 32"
    using s by (simp_all add: set_at_def Let_def rest_def)
  have rem: "unat ?rem = rest" using set_at_tell(2) [OF s] by (simp add: rest_def)
  have "unat (?rem + 2) = rest + 2" using C rem by (simp add: unat_word_ariths)
  then have req: "unat ?req = need" using rem by (simp add: need_def word_less_nat_alt)
  have av: "unat ?av = length (hn_in s)" using i C(1) by (intro unat_of_small) simp
  have "unat (if ?req > ?av then ?req - ?av else 0) = need - length (hn_in s)"
    unfolding unat_excess req av ..
  moreover have "need \<le> unat ?C + 2" using C by (simp add: need_def)
  moreover have "s' = s\<lparr>hn_pending := P_read (if ?req > ?av then ?req - ?av else 0)\<rparr>" "w' = w"
    using r by (simp_all add: handler_read_chunk_def Let_def)
  ultimately show thesis using that by simp
qed

section \<open>One turn of the loop\<close>

lemma take_chunk_next:
  assumes s: "set_at L W data cs q s" and "inp @ later = drop (length cs * unat (hn_chunk_size s)) data @ crlf @ rest"
  defines "C \<equiv> unat (hn_chunk_size s)"
  defines "left \<equiv> length data - length cs * C"
  defines "need \<equiv> if C < left then C else left + 2"
  assumes len: "need \<le> length inp"
  shows "take_chunk (r_num_bytes (hn_req s) - oq_tell (hn_push_stream s)) (hn_chunk_size s) inp =
    Inr (Some (take C (drop (length cs * C) data), drop need inp))"
    "drop need inp @ later = (if C < left then drop (Suc (length cs) * C) data @ crlf @ rest else rest)"
proof -
  let ?d = "drop (length cs * C) data"
  have d: "length ?d = left" by (simp add: left_def)
  have eq: "inp @ later = ?d @ crlf @ rest" using assms(2) by (simp add: C_def)
  have rem: "unat (r_num_bytes (hn_req s) - oq_tell (hn_push_stream s)) = left"
    using set_at_tell(2) [OF s] by (simp add: left_def C_def)
  have inp: "take k inp = take k (?d @ crlf @ rest)" if "k \<le> length inp" for k
    using that arg_cong [OF eq, of "take k"] by simp
  have dr: "drop k inp @ later = drop k (?d @ crlf @ rest)" if "k \<le> length inp" for k
    using that arg_cong [OF eq, of "drop k"] by simp
  have "take_chunk (r_num_bytes (hn_req s) - oq_tell (hn_push_stream s)) (hn_chunk_size s) inp =
      Inr (Some (take C ?d, drop need inp)) \<and>
    drop need inp @ later = (if C < left then drop (Suc (length cs) * C) data @ crlf @ rest else rest)"
  proof (cases "C < left")
    case True
    then have "need = C" by (simp add: need_def)
    then show ?thesis
      using True len inp [of C] dr [of C] d rem
      by (simp add: take_chunk_def word_le_nat_alt C_def [symmetric] not_less add.commute)
  next
    case False
    then have n: "need = left + 2" by (simp add: need_def)
    have "take (left + 2) inp = ?d @ crlf" using inp [of "left + 2"] len n d by (simp add: crlf_def)
    then have "take left inp = ?d" "take 2 (drop left inp) = crlf"
      using arg_cong [of _ _ "take left"] arg_cong [of _ _ "drop left"] d
      by (metis append_eq_conv_conj take_take min.absorb1 le_add1, metis append_eq_conv_conj drop_take add_diff_cancel_left')
    then show ?thesis
      using False len n dr [of "left + 2"] d rem
      by (simp add: take_chunk_def word_le_nat_alt C_def [symmetric] Let_def crlf_def)
  qed
  then show "take_chunk (r_num_bytes (hn_req s) - oq_tell (hn_push_stream s)) (hn_chunk_size s) inp =
      Inr (Some (take C ?d, drop need inp))"
    "drop need inp @ later = (if C < left then drop (Suc (length cs) * C) data @ crlf @ rest else rest)" by auto
qed

lemma failed_put_inv:
  assumes "failed_write_invisible L" "queue_inv L Op W q" "ldb_Put L sync k v (journal q) = (False, db)"
  shows "queue_inv L Op W (q\<lparr>journal := db\<rparr>)" "queue_abs L Op (q\<lparr>journal := db\<rparr>) = queue_abs L Op q"
proof -
  note same = same_gets [OF failed_journal_gets [OF assms(1,3)]]
  have "stored L db \<subseteq> Collect is_key_slice" using queue_inv_stored [OF assms(2)] by (simp add: same)
  from queue_inv_journal [OF assms(2) same(1) this subset_refl]
  show "queue_inv L Op W (q\<lparr>journal := db\<rparr>)" "queue_abs L Op (q\<lparr>journal := db\<rparr>) = queue_abs L Op q" by simp_all
qed

lemma put_failure: "push_item L x sync q = (Inl e, q') \<Longrightarrow> x \<noteq> [] \<Longrightarrow> e = Io_error"
  "push_header L h sync q = (Inl e, q') \<Longrightarrow> e = Io_error" "write_chunk L x d q = (Inl e, q') \<Longrightarrow> e = Io_error"
  by (auto simp: push_item_def push_header_def write_chunk_def queue_put_def split: prod.splits if_splits)

text \<open>A write that fails throws \<open>Io_error\<close> and changes nothing that a client of the queue can see.\<close>

definition write_failed :: "'db leveldb \<Rightarrow> u64 set \<Rightarrow> u64 set \<Rightarrow> ('db, 'cb) queue \<Rightarrow> error + unit \<Rightarrow> ('db, 'cb) queue \<Rightarrow> bool" where
  "write_failed L Op W q r q' \<longleftrightarrow> r = Inl Io_error \<and> queue_inv L Op W q' \<and> queue_abs L Op q' = queue_abs L Op q"

lemma write_single:
  assumes L: "journal_contract L" and F: "failed_write_invisible L" and inv: "queue_inv L Op W q"
    and room: "key_id (queue_head q) + 1 \<noteq> 0" and x: "x \<noteq> []"
    and p: "os_queue p \<noteq> None" "os_header p = header_default" "os_chunk_pos p = 0"
    and w: "oq_write L x q p = (r, (q', p'))"
  obtains (failed) "write_failed L Op W q r q'"
  | (stored) "r = Inr ()" "queue_inv L Op W q'" "queue_abs L Op q' = fifo_push (os_id p') (as_read x) (queue_abs L Op q)"
      "os_queue p' = None" "oq_tell p' = word_of_nat (length x)"
proof (cases "push_item L x (os_sync p) q")
  case (Pair r1 q1)
  show thesis
  proof (cases r1)
    case (Inl e)
    obtain db where "q1 = q\<lparr>journal := db\<rparr>" "ldb_Put L (os_sync p) (key_slice (queue_head q)) (encode_item x) (journal q) = (False, db)"
      by (rule push_item_failed [of L x "os_sync p" q e q1]) (use Pair Inl x in auto)
    note f = failed_put_inv [OF F inv this(2), folded this(1)]
    have "r = Inl Io_error" "q' = q1" using w Pair Inl p put_failure(1) [of L x "os_sync p" q e q1] x by (auto simp: oq_write_def)
    then show thesis using failed f by (simp add: write_failed_def)
  next
    case (Inr i)
    then have pi: "push_item L x (os_sync p) q = (Inr i, q1)" using Pair by simp
    show thesis
      by (rule stored) (use w p pi push_item_refines [OF L inv room pi] in \<open>auto simp: oq_write_def Let_def oq_tell_def\<close>)
  qed
qed

lemma write_multi:
  assumes L: "journal_contract L" and F: "failed_write_invisible L" and inv: "queue_inv L Op W q"
    and room: "key_id (queue_head q) + 1 \<noteq> 0" and p: "oq_inv L W cs q p" "length (concat (cs @ [x])) < 2 ^ 64"
  defines "n \<equiv> unat (h_end (os_header p) - h_beg (os_header p))"
  assumes lt: "length cs < n" and w: "oq_write L x q p = (r, (q', p'))"
  obtains (failed) "write_failed L Op W q r q'"
  | (continued) "r = Inr ()" "Suc (length cs) < n" "queue_inv L Op W q'" "queue_abs L Op q' = queue_abs L Op q" "oq_inv L W (cs @ [x]) q' p'"
      "queue_head q' = queue_head q" "h_beg (os_header p') = h_beg (os_header p)" "h_end (os_header p') = h_end (os_header p)"
  | (stored) "r = Inr ()" "Suc (length cs) = n" "queue_inv L Op (W - set (id_range (h_beg (os_header p)) (h_end (os_header p)))) q'"
      "queue_abs L Op q' = fifo_push (os_id p') (concat (cs @ [x])) (queue_abs L Op q)"
      "os_queue p' = None" "oq_tell p' = word_of_nat (length (concat (cs @ [x])))"
proof (cases r)
  case (Inr u)
  then have w: "oq_write L x q p = (Inr (), (q', p'))" using w by simp
  show thesis
  proof (cases "Suc (length cs) = n")
    case True
    then show thesis using oq_write_last [OF L inv p(1) _ room p(2) w] stored Inr by (simp add: n_def)
  next
    case False
    then have "Suc (length cs) < n" using lt by simp
    then show thesis using oq_write_more [OF L inv p(1) _ w] continued Inr by (simp add: n_def)
  qed
next
  case (Inl e)
  note lt' = lt [unfolded n_def]
  obtain r1 q1 where c: "write_chunk L x (os_chunk_pos p) q = (r1, q1)" by fastforce
  show thesis
  proof (cases r1)
    case (Inl e1)
    obtain db where "q1 = q\<lparr>journal := db\<rparr>" "ldb_Put L False (key_slice (Key KT_CHUNK (os_chunk_pos p))) x (journal q) = (False, db)"
      by (rule write_chunk_failed [of L x "os_chunk_pos p" q e1 q1]) (use c Inl in auto)
    note f = failed_put_inv [OF F inv this(2), folded this(1)]
    have "r = Inl Io_error" "q' = q1"
      using w c Inl put_failure(3) [of L x "os_chunk_pos p" q e1 q1] by (auto simp: oq_write_multi [OF p(1) lt'])
    then show thesis using failed f by (simp add: write_failed_def)
  next
    case (Inr u)
    then have c: "write_chunk L x (os_chunk_pos p) q = (Inr (), q1)" using c by simp
    define p1 where "p1 = p\<lparr>os_header := (os_header p)\<lparr>h_size := h_size (os_header p) + word_of_nat (length x)\<rparr>, os_chunk_pos := os_chunk_pos p + 1\<rparr>"
    note st = oq_write_chunk_step [OF L inv p(1) lt' c p1_def]
    have ph: "push_header L (os_header p1) (os_sync p1) q1 = (Inl e, q')"
      using w c Inl by (auto simp: oq_write_multi [OF p(1) lt'] p1_def [symmetric] Let_def split: prod.splits sum.splits if_splits)
    obtain db where "q' = q1\<lparr>journal := db\<rparr>" "ldb_Put L (os_sync p1) (key_slice (queue_head q1)) (header_str (os_header p1)) (journal q1) = (False, db)"
      by (rule push_header_failed [OF ph])
    note f = failed_put_inv [OF F st(1) this(2), folded this(1)]
    show thesis using failed f st(2) Inl put_failure(2) [OF ph] by (simp add: write_failed_def)
  qed
qed

lemma set_at_write:
  assumes L: "journal_contract L" and F: "failed_write_invisible L" and inv: "queue_inv L Op W q"
    and room: "key_id (queue_head q) + 1 \<noteq> 0" and s: "set_at L W data cs q s"
  defines "C \<equiv> unat (hn_chunk_size s)"
  defines "x \<equiv> take C (drop (length cs * C) data)"
  assumes w: "oq_write L x q (hn_push_stream s) = (r, (q', p'))"
  obtains (failed) "write_failed L Op W q r q'"
  | (continued) "r = Inr ()" "C < length data - length cs * C" "queue_inv L Op W q'" "queue_abs L Op q' = queue_abs L Op q"
      "queue_head q' = queue_head q" "set_at L W data (cs @ [x]) q' (s\<lparr>hn_push_stream := p'\<rparr>)"
  | (stored) W' where "r = Inr ()" "\<not> C < length data - length cs * C" "W' \<subseteq> W" "queue_inv L Op W' q'"
      "queue_abs L Op q' = fifo_push (os_id p') (as_read data) (queue_abs L Op q)" "os_queue p' = None" "oq_tell p' = r_num_bytes (hn_req s)"
proof -
  let ?p = "hn_push_stream s" and ?j = "length cs"
  have C: "0 < C" "C < 2 ^ 32" "length data < 2 ^ 32" "unat (r_num_bytes (hn_req s)) = length data" "os_queue ?p \<noteq> None"
    "\<forall>c \<in> set cs. length c = C" "take (?j * C) data = concat cs" "?j * C < length data"
    using s by (simp_all add: set_at_def Let_def C_def)
  have num: "word_of_nat (length data) = r_num_bytes (hn_req s)" using C(4) [symmetric] by simp
  show thesis
  proof (cases "length data \<le> C")
    case True
    then have one: "cs = []" "os_header ?p = header_default" "os_chunk_pos ?p = 0" using s by (simp_all add: set_at_def Let_def C_def)
    then have x: "x = data" "x \<noteq> []" using True C(8) by (auto simp: x_def)
    from L F inv room x(2) C(5) one(2,3) w show thesis
    proof (cases rule: write_single)
      case stored
      then show thesis using that(3) [OF _ _ subset_refl] True num x(1) by simp
    qed (rule that(1))
  next
    case False
    then have multi: "oq_inv L W cs q ?p" "unat (h_end (os_header ?p) - h_beg (os_header ?p)) = (length data + C - 1) div C"
      using s by (simp_all add: set_at_def Let_def C_def)
    note cc = chunk_count [OF C(1,8)]
    have all: "concat (cs @ [x]) = take (?j * C + C) data" by (simp add: x_def C(7) [symmetric] take_add)
    then have len: "length (concat (cs @ [x])) < 2 ^ 64" using C(3) by simp
    have "?j < unat (h_end (os_header ?p) - h_beg (os_header ?p))" using cc(2) multi(2) by simp
    from L F inv room multi(1) len this w show thesis
    proof (cases rule: write_multi)
      case continued
      have gt: "C < length data - ?j * C" using continued(2) cc(1) multi(2) by simp
      have op: "os_queue p' \<noteq> None" using continued(5) by (simp add: oq_inv_def Let_def)
      have "length x = C" using gt by (simp add: x_def)
      then have "set_at L W data (cs @ [x]) q' (s\<lparr>hn_push_stream := p'\<rparr>)"
        using continued(5,7,8) multi C False gt op all by (auto simp: set_at_def Let_def C_def [symmetric] add.commute)
      then show thesis using that(2) continued gt by blast
    next
      case stored
      have le: "\<not> C < length data - ?j * C" using stored(2) cc(1) multi(2) by simp
      then have "concat (cs @ [x]) = data" using all by simp
      moreover have "as_read data = data" using False C(1) by (cases data) (auto simp: as_read_def)
      ultimately show thesis using that(3) [OF stored(1) le _ stored(3)] stored num by simp
    qed (rule that(1))
  qed
qed

text \<open>
  One completion of \<^verbatim>\<open>async_read\<close> with the bytes \<open>b\<close>, and a sequence of them. Asio promises at least as many bytes as were asked for, and
  never to grow the buffer beyond its maximum size.
\<close>

definition set_turn :: "('fs, 'db) externs \<Rightarrow> (nat \<Rightarrow> bool) \<Rightarrow> nat \<Rightarrow> string \<Rightarrow> ('fs, 'db) conn \<Rightarrow> (('fs, 'db) conn, unit) outcome" where
  "set_turn X others self b = (\<lambda>(s, w).
     handler_set_on_read_chunk X others self None (s\<lparr>hn_in := hn_in s @ b, hn_pending := P_none\<rparr>, w))"

fun set_run :: "('fs, 'db) externs \<Rightarrow> (nat \<Rightarrow> bool) \<Rightarrow> nat \<Rightarrow> string list \<Rightarrow> ('fs, 'db) conn \<Rightarrow> (('fs, 'db) conn, unit) outcome" where
  "set_run X others self [] c = (Inr (), c)"
| "set_run X others self (b # bs) c = (case hn_pending (fst c) of
     P_read k \<Rightarrow> (case set_turn X others self b c of (Inl e, c1) \<Rightarrow> (Inl e, c1) | (Inr _, c1) \<Rightarrow> set_run X others self bs c1)
   | _ \<Rightarrow> (Inr (), c))"

fun read_ok :: "string \<Rightarrow> handler \<Rightarrow> bool" where
  "read_ok b s \<longleftrightarrow> (case hn_pending s of
     P_read k \<Rightarrow> unat k \<le> length b \<and> length (hn_in s @ b) \<le> unat (hn_chunk_size s) + 2
   | _ \<Rightarrow> False)"

fun reads_ok :: "('fs, 'db) externs \<Rightarrow> (nat \<Rightarrow> bool) \<Rightarrow> nat \<Rightarrow> string list \<Rightarrow> ('fs, 'db) conn \<Rightarrow> bool" where
  "reads_ok X others self [] c = True"
| "reads_ok X others self (b # bs) c = (case hn_pending (fst c) of
     P_read k \<Rightarrow> read_ok b (fst c) \<and> reads_ok X others self bs (snd (set_turn X others self b c))
   | _ \<Rightarrow> True)"

text \<open>How a set ends: with the item stored, or with the client told that it was not.\<close>

definition set_done :: "('fs, 'db) externs \<Rightarrow> u64 set \<Rightarrow> nat \<Rightarrow> string \<Rightarrow> string \<Rightarrow> string \<Rightarrow> u64 \<Rightarrow> ('db, nat) queue \<Rightarrow> ('fs, 'db) conn \<Rightarrow> bool" where
  "set_done X Op a item rest out enqueued q = (\<lambda>(s', w'). \<exists>q' W'. qm_heap (sh_queues w') a = Some q' \<and> queue_inv (x_ldb X) Op W' q' \<and>
     (hn_pending s' = P_write K_read_request \<and> hn_out s' = out @ ''STORED'' @ crlf \<and> hn_in s' = rest \<and>
        os_queue (hn_push_stream s') = None \<and> items_enqueued (sh_stats w') = enqueued + 1 \<and>
        queue_abs (x_ldb X) Op q' = fifo_push (os_id (hn_push_stream s')) item (queue_abs (x_ldb X) Op q)
      \<or> hn_pending s' = P_write K_hang_up \<and> hn_out s' = out @ ''SERVER_ERROR '' @ x_message X Io_error @ crlf \<and>
        items_enqueued (sh_stats w') = enqueued \<and> queue_abs (x_ldb X) Op q' = queue_abs (x_ldb X) Op q))"

lemma set_done_abs:
  "queue_abs (x_ldb X) Op q1 = queue_abs (x_ldb X) Op q \<Longrightarrow> set_done X Op a item rest out n q1 c = set_done X Op a item rest out n q c"
  by (simp add: set_done_def)

lemma oq_write_queue: "oq_write L x q p = (r, (q', p')) \<Longrightarrow> os_queue p' = os_queue p \<or> os_queue p' = None"
  by (auto simp: oq_write_def Let_def split: if_splits prod.splits sum.splits)

definition bytes_needed :: "string \<Rightarrow> string list \<Rightarrow> handler \<Rightarrow> nat" where
  "bytes_needed data cs s =
     (let C = unat (hn_chunk_size s); left = length data - length cs * C in if C < left then C else left + 2)"

text \<open>The loop between two completions.\<close>

definition set_reading :: "('fs, 'db) externs \<Rightarrow> u64 set \<Rightarrow> u64 set \<Rightarrow> nat \<Rightarrow> string \<Rightarrow> string list \<Rightarrow> ('db, nat) queue \<Rightarrow> ('fs, 'db) conn \<Rightarrow> bool" where
  "set_reading X Op W a data cs q = (\<lambda>(s, w). queue_inv (x_ldb X) Op W q \<and> key_id (queue_head q) + 1 \<noteq> 0 \<and> set_at (x_ldb X) W data cs q s \<and>
     os_queue (hn_push_stream s) = Some a \<and> qm_heap (sh_queues w) a = Some q \<and> mapped a w \<and> length (hn_in s) \<le> unat (hn_chunk_size s) + 2 \<and>
     (\<exists>k. hn_pending s = P_read k \<and> unat k = bytes_needed data cs s - length (hn_in s)))"

lemma set_turn_cases:
  assumes L: "journal_contract (x_ldb X)" and F: "failed_write_invisible (x_ldb X)"
    and at: "set_reading X Op W a data cs q (s, w)" and b: "read_ok b s"
  defines "C \<equiv> unat (hn_chunk_size s)"
  defines "x \<equiv> take C (drop (length cs * C) data)"
  assumes data: "hn_in s @ b @ later = drop (length cs * C) data @ crlf @ rest"
  obtains (continued) q1 s1 w1 where "set_turn X others self b (s, w) = (Inr (), (s1, w1))" "C < length data - length cs * C"
      "set_reading X Op W a data (cs @ [x]) q1 (s1, w1)" "queue_abs (x_ldb X) Op q1 = queue_abs (x_ldb X) Op q"
      "hn_in s1 @ later = drop (Suc (length cs) * C) data @ crlf @ rest" "hn_out s1 = hn_out s" "hn_chunk_size s1 = hn_chunk_size s"
      "sh_stats w1 = sh_stats w"
  | (ended) c1 rest' where "set_turn X others self b (s, w) = (Inr (), c1)"
      "set_done X Op a (as_read data) rest' (hn_out s) (items_enqueued (sh_stats w)) q c1"
      "hn_pending (fst c1) = P_write K_read_request \<longrightarrow> \<not> C < length data - length cs * C \<and> rest' @ later = rest"
      "\<And>k. hn_pending (fst c1) \<noteq> P_read k"
proof -
  let ?L = "x_ldb X" and ?s = "s\<lparr>hn_in := hn_in s @ b, hn_pending := P_none\<rparr>" and ?need = "bytes_needed data cs s"
  have r: "queue_inv ?L Op W q" "key_id (queue_head q) + 1 \<noteq> 0" "set_at ?L W data cs q s" "os_queue (hn_push_stream s) = Some a"
    "qm_heap (sh_queues w) a = Some q" "mapped a w"
    using at by (simp_all add: set_reading_def)
  have need: "?need \<le> length (hn_in s @ b)" and len: "length (hn_in s @ b) \<le> C + 2" using at b by (auto simp: set_reading_def C_def)
  have at': "set_at ?L W data cs q ?s" using r(3) by (simp add: set_at_def)
  define inp where "inp = drop ?need (hn_in s @ b)"
  have tc: "take_chunk (r_num_bytes (hn_req s) - oq_tell (hn_push_stream s)) (hn_chunk_size s) (hn_in s @ b) = Inr (Some (x, inp))"
    and inp: "inp @ later = (if C < length data - length cs * C then drop (Suc (length cs) * C) data @ crlf @ rest else rest)"
    unfolding inp_def using take_chunk_next [OF r(3), of "hn_in s @ b" later rest] data need
    by (simp_all add: bytes_needed_def Let_def C_def x_def)
  have inplen: "length inp \<le> C + 2" using len by (simp add: inp_def)
  define s1 where "s1 = s\<lparr>hn_pending := P_none, hn_buf := x, hn_in := inp\<rparr>"
  obtain res q1 p1 where w1: "oq_write ?L x q (hn_push_stream s) = (res, (q1, p1))" by (metis prod.collapse)
  have pw: "push_stream_write X others x (s1, w) = (res, (s1\<lparr>hn_push_stream := p1\<rparr>, set_queue a q1 w))"
    using r w1 by (subst push_stream_write_mapped [of _ a _ q]) (simp_all add: s1_def)
  define s2 where "s2 = s1\<lparr>hn_push_stream := p1\<rparr>"
  have turn: "set_turn X others self b (s, w) = try_then (res, (s2, set_queue a q1 w))
      (handler_error_exn X self ''set_on_read_chunk'' True)
      (\<lambda>c. if oq_tell (hn_push_stream (fst c)) = r_num_bytes (hn_req (fst c))
           then handler_end (''STORED'' @ crlf) (update_stats (\<lambda>st. st\<lparr>items_enqueued := items_enqueued st + 1\<rparr>) c)
           else handler_read_chunk c)"
    using pw by (simp add: set_turn_def handler_set_on_read_chunk_def tc s1_def s2_def)
  have s2: "hn_push_stream s2 = p1" "hn_req s2 = hn_req s" "hn_out s2 = hn_out s" "hn_in s2 = inp" "hn_chunk_size s2 = hn_chunk_size s"
    by (simp_all add: s2_def s1_def)
  from L F r(1,2) r(3) w1 [unfolded x_def C_def] show thesis
  proof (cases rule: set_at_write)
    case failed
    then have res: "res = Inl Io_error" and q1: "queue_inv ?L Op W q1" "queue_abs ?L Op q1 = queue_abs ?L Op q" by (simp_all add: write_failed_def)
    show thesis
    proof (rule ended)
      show "set_turn X others self b (s, w) = (Inr (), snd (set_turn X others self b (s, w)))"
        "set_done X Op a (as_read data) inp (hn_out s) (items_enqueued (sh_stats w)) q (snd (set_turn X others self b (s, w)))"
        "hn_pending (fst (snd (set_turn X others self b (s, w)))) \<noteq> P_read k" for k
        using q1 unfolding turn by (auto simp: res try_then_def handler_error_exn_def handler_async_write_def set_done_def log_handler_error_def Let_def s2)
      show "hn_pending (fst (snd (set_turn X others self b (s, w)))) = P_write K_read_request \<longrightarrow>
          \<not> C < length data - length cs * C \<and> inp @ later = rest"
        unfolding turn by (auto simp: res try_then_def handler_error_exn_def handler_async_write_def Let_def)
    qed
  next
    case continued
    note c = continued [folded C_def]
    have at2: "set_at ?L W data (cs @ [x]) q1 s2" using c(6) by (simp add: set_at_def s2_def s1_def x_def C_def)
    have ne: "oq_tell p1 \<noteq> r_num_bytes (hn_req s)"
    proof
      assume "oq_tell p1 = r_num_bytes (hn_req s)"
      moreover have "length (cs @ [x]) * unat (hn_chunk_size s2) < length data" "unat (r_num_bytes (hn_req s)) = length data"
        using at2 unfolding set_at_def Let_def s2 by blast+
      ultimately show False using set_at_tell(1) [OF at2] by (simp add: s2)
    qed
    obtain s3 w3 where rc: "handler_read_chunk (s2, set_queue a q1 w) = (Inr (), (s3, w3))"
      by (simp add: handler_read_chunk_def Let_def)
    obtain k where k: "hn_pending s3 = P_read k" "unat k = bytes_needed data (cs @ [x]) s2 - length (hn_in s2)"
      "s3 = s2\<lparr>hn_pending := P_read k\<rparr>" "w3 = set_queue a q1 w"
      using at2 _ rc by (rule set_at_required) (use inplen in \<open>auto simp: s2 C_def bytes_needed_def Let_def\<close>)
    have opn: "os_queue p1 = Some a" using oq_write_queue [OF w1] r(4) at2 by (auto simp: set_at_def Let_def s2)
    show thesis
    proof (rule that(1) [of s3 w3 q1])
      show "set_turn X others self b (s, w) = (Inr (), (s3, w3))" using turn c(1) ne rc by (simp add: try_then_def s2)
      have "set_at ?L W data (cs @ [x]) q1 s3" using at2 by (simp add: k(3) set_at_def)
      then show "set_reading X Op W a data (cs @ [x]) q1 (s3, w3)"
        using c(3,5) r(2,6) opn k inplen by (simp add: set_reading_def s2 C_def bytes_needed_def)
      show "hn_in s3 @ later = drop (Suc (length cs) * C) data @ crlf @ rest" using inp c(2) by (simp add: k(3) s2)
    qed (use c in \<open>simp_all add: k s2\<close>)
  next
    case (stored W')
    note c = stored [folded C_def]
    show thesis
    proof (rule ended)
      show "set_turn X others self b (s, w) = (Inr (), snd (set_turn X others self b (s, w)))"
        "set_done X Op a (as_read data) inp (hn_out s) (items_enqueued (sh_stats w)) q (snd (set_turn X others self b (s, w)))"
        "hn_pending (fst (snd (set_turn X others self b (s, w)))) \<noteq> P_read k" for k
        using c unfolding turn by (auto simp: try_then_def handler_end_def handler_async_write_def set_done_def update_stats_def s2)
      show "hn_pending (fst (snd (set_turn X others self b (s, w)))) = P_write K_read_request \<longrightarrow>
          \<not> C < length data - length cs * C \<and> inp @ later = rest" using inp c(2) by simp
    qed
  qed
qed

lemma set_run_done:
  assumes L: "journal_contract (x_ldb X)" and F: "failed_write_invisible (x_ldb X)"
    and "set_reading X Op W a data cs q (s, w)" "reads_ok X others self bs (s, w)"
    and "hn_in s @ concat bs = drop (length cs * unat (hn_chunk_size s)) data @ crlf @ rest"
    and "length cs + length bs = (length data + unat (hn_chunk_size s) - 1) div unat (hn_chunk_size s)"
  shows "\<exists>c rest'. set_run X others self bs (s, w) = (Inr (), c) \<and> set_done X Op a (as_read data) rest' (hn_out s) (items_enqueued (sh_stats w)) q c \<and>
    (hn_pending (fst c) = P_write K_read_request \<longrightarrow> rest' = rest)"
  using assms(3-)
proof (induction bs arbitrary: cs q s w)
  case Nil
  then have "0 < unat (hn_chunk_size s)" "length cs * unat (hn_chunk_size s) < length data"
    by (simp_all add: set_reading_def set_at_def Let_def)
  from chunk_count(2) [OF this] Nil(4) show ?case by simp
next
  case (Cons b bs)
  let ?C = "unat (hn_chunk_size s)"
  obtain k where k: "hn_pending s = P_read k" using Cons.prems(1) by (auto simp: set_reading_def)
  have C: "0 < ?C" "length cs * ?C < length data" using Cons.prems(1) by (simp_all add: set_reading_def set_at_def Let_def)
  have b: "read_ok b s" and bs: "reads_ok X others self bs (snd (set_turn X others self b (s, w)))" using Cons.prems(2) k by simp_all
  have inp: "hn_in s @ b @ concat bs = drop (length cs * ?C) data @ crlf @ rest" using Cons.prems(3) by simp
  from L F Cons.prems(1) b inp show ?case
  proof (cases rule: set_turn_cases [where others = others and self = self])
    case (continued q1 s1 w1)
    have "reads_ok X others self bs (s1, w1)" using bs continued(1) by simp
    from Cons.IH [OF continued(3) this] obtain c rest' where c: "set_run X others self bs (s1, w1) = (Inr (), c)"
      "set_done X Op a (as_read data) rest' (hn_out s) (items_enqueued (sh_stats w)) q1 c" "hn_pending (fst c) = P_write K_read_request \<longrightarrow> rest' = rest"
      using continued(5-8) Cons.prems(4) by auto
    then have "set_done X Op a (as_read data) rest' (hn_out s) (items_enqueued (sh_stats w)) q c" using set_done_abs [OF continued(4)] by simp
    moreover have "set_run X others self (b # bs) (s, w) = (Inr (), c)" using c(1) continued(1) k by simp
    ultimately show ?thesis using c(3) by blast
  next
    case (ended c1 rest')
    have "set_run X others self bs c1 = (Inr (), c1)" using ended(4) by (cases bs) (auto split: pending.splits)
    then have run: "set_run X others self (b # bs) (s, w) = (Inr (), c1)" using ended(1) k by simp
    have "rest' = rest" if p: "hn_pending (fst c1) = P_write K_read_request"
    proof -
      have "\<not> ?C < length data - length cs * ?C" and r: "rest' @ concat bs = rest" using ended(3) p by simp_all
      then have "Suc (length cs) = (length data + ?C - 1) div ?C" using chunk_count(1) [OF C] by simp
      then have "length cs + length (b # bs) = Suc (length cs)" using Cons.prems(4) by (rule trans [OF _ sym, rotated])
      then have "bs = []" by simp
      then show ?thesis using r by simp
    qed
    then show ?thesis using ended(2) run by blast
  qed
qed

text \<open>Starting the loop.\<close>

lemma handler_set_starts:
  assumes inv: "queue_inv (x_ldb X) Op W q" and f: "map_find (qm_queues (sh_queues w)) (r_queue (hn_req s)) = Some a" "qm_heap (sh_queues w) a = Some q"
    and closed: "os_queue (hn_push_stream s) = None" and n: "unat (r_num_bytes (hn_req s)) = length data" "data \<noteq> []" "length data < 2 ^ 32"
    and C: "0 < unat (hn_chunk_size s)" "unat (hn_chunk_size s) < 2 ^ 32" "length (hn_in s) \<le> unat (hn_chunk_size s) + 2"
    and room: "key_id (queue_head q) + 1 \<noteq> 0" "uint (key_id (chunks_head q)) + 2 ^ 32 < 2 ^ 64"
  obtains s1 w1 W1 q1 where "handler_set X (s, w) = (Inr (), (s1, w1))" "set_reading X Op W1 a data [] q1 (s1, w1)"
    "queue_abs (x_ldb X) Op q1 = queue_abs (x_ldb X) Op q" "hn_in s1 = hn_in s" "hn_out s1 = hn_out s" "hn_chunk_size s1 = hn_chunk_size s"
    "sh_stats w1 = sh_stats w"
proof -
  let ?L = "x_ldb X" and ?C = "unat (hn_chunk_size s)" and ?n = "(r_num_bytes (hn_req s) + hn_chunk_size s - 1) div hn_chunk_size s"
  have cnt: "unat ?n = (length data + ?C - 1) div ?C" using chunk_count_word [OF C(2,1)] n by simp
  have one: "length data \<le> ?C \<longleftrightarrow> unat ?n = 1" "1 \<le> unat ?n"
    using chunk_count [OF C(1), of 0 "length data"] n(2) by (simp_all add: cnt eq_commute)
  have mapped: "mapped a w" using map_of_SomeD [OF f(1) [unfolded map_find_def]] by (force simp: mapped_def)
  obtain r q1 p1 where op: "oq_open a ?n (r_set_sync (hn_req s)) q (hn_push_stream s) = (r, (q1, p1))" by (metis prod.collapse)
  have p1: "r = Inr ()" "os_queue p1 = Some a" using op closed by (auto simp: oq_open_def Let_def split: prod.splits if_splits)
  define s1 where "s1 = s\<lparr>hn_push_stream := p1\<rparr>"
  have st: "handler_set X (s, w) = handler_read_chunk (s1, set_queue a q1 w)"
    using f op p1 by (simp add: handler_set_def push_stream_open_def find_queue_def queue_map_get_def s1_def)
  have "\<exists>W1. queue_inv ?L Op W1 q1 \<and> queue_abs ?L Op q1 = queue_abs ?L Op q \<and> queue_head q1 = queue_head q \<and> set_at ?L W1 data [] q1 s1"
  proof (cases "length data \<le> ?C")
    case True
    then have "\<not> ?n > 1" using one(1) by (simp add: word_less_nat_alt)
    then have "q1 = q" "os_header p1 = header_default" "os_chunk_pos p1 = h_beg header_default"
      using op closed by (auto simp: oq_open_def)
    then show ?thesis using inv True C n p1 by (auto simp: set_at_def Let_def s1_def header_default_def)
  next
    case False
    then have gt: "?n > 1" using one by (simp add: word_less_nat_alt)
    obtain h where h: "reserve_chunks ?n q = (h, q1)" "os_header p1 = h" "os_chunk_pos p1 = h_beg h"
      using op closed gt by (auto simp: oq_open_def Let_def split: prod.splits)
    have "length data \<le> length data * ?C" using C(1) by (cases ?C) simp_all
    then have "length data + ?C - 1 < Suc (length data) * ?C" unfolding mult_Suc using C(1) by linarith
    then have "unat ?n < Suc (length data)" unfolding cnt by (simp add: div_less_iff_less_mult [OF C(1)])
    then have "unat ?n \<le> 4294967296" using n(3) by simp
    moreover have "int (unat (key_id (chunks_head q))) + 4294967296 < 18446744073709551616" using room(2) by simp
    ultimately have "unat (key_id (chunks_head q)) + unat ?n < 18446744073709551616" by linarith
    then have rm: "unat (key_id (chunks_head q)) + unat ?n < 2 ^ 64" by simp
    note rc = reserve_chunks_inv [OF inv h(1) rm]
    have "unat (h_end h) = unat ?n + unat (h_beg h)" using rc(6,7) by (simp add: unat_sub word_le_nat_alt)
    then have "1 < h_end h" using gt by (simp add: word_less_nat_alt)
    then have "set_at ?L (W \<union> set (id_range (h_beg h) (h_end h))) data [] q1 s1"
      using rc C n p1 False h cnt by (simp add: set_at_def Let_def s1_def oq_inv_def)
    then show ?thesis using rc by blast
  qed
  then obtain W1 where W1: "queue_inv ?L Op W1 q1" "queue_abs ?L Op q1 = queue_abs ?L Op q" "queue_head q1 = queue_head q" "set_at ?L W1 data [] q1 s1" by blast
  obtain s2 w2 where rd: "handler_read_chunk (s1, set_queue a q1 w) = (Inr (), (s2, w2))" by (simp add: handler_read_chunk_def Let_def)
  obtain k where k: "hn_pending s2 = P_read k" "unat k = bytes_needed data [] s1 - length (hn_in s1)" "s2 = s1\<lparr>hn_pending := P_read k\<rparr>"
    "w2 = set_queue a q1 w"
    using W1(4) _ rd by (rule set_at_required) (use C(3) in \<open>auto simp: s1_def bytes_needed_def Let_def\<close>)
  have at2: "set_at ?L W1 data [] q1 s2" using W1(4) by (simp add: k(3) set_at_def)
  show thesis
  proof (rule that [of s2 w2 W1 q1])
    show "set_reading X Op W1 a data [] q1 (s2, w2)"
      using W1 at2 mapped room(1) p1 k C(3) by (simp add: set_reading_def s1_def bytes_needed_def)
  qed (use st rd W1(2) in \<open>simp_all add: k s1_def\<close>)
qed

end
