(* ===== verification/Server_Sim.thy ===== *)
theory Server_Sim
  imports Server Destroy Handler_Set
begin

text \<open>
  Every run of the server is, on each queue, a run of that queue's clients: the methods of the handlers, the map of queues and the timers
  call nothing on a queue but what the theory of its clients has. The other queues and the other
  handlers do not matter.
\<close>

section \<open>Paths\<close>

text \<open>A queue's path changes only when it is destroyed.\<close>

lemma wake_up_path [simp]: "path (wake_up q) = path q"
  by (simp add: wake_up_def split: option.splits)

lemma queue_put_path: "queue_put L k v sync q = (r, q') \<Longrightarrow> path q' = path q"
  by (auto simp: queue_put_def split: prod.splits if_splits)

lemma queue_write_path: "queue_write L b q = (r, q') \<Longrightarrow> path q' = path q"
  by (auto simp: queue_write_def split: prod.splits if_splits)

lemma compact_path: "compact L q = (r, q') \<Longrightarrow> path q' = path q"
  by (auto simp: compact_def Let_def split: option.splits)

lemma push_item_path: "push_item L x sync q = (r, q') \<Longrightarrow> path q' = path q"
  by (auto simp: push_item_def split: if_splits prod.splits sum.splits dest: queue_put_path)

lemma push_header_path: "push_header L h sync q = (r, q') \<Longrightarrow> path q' = path q"
  by (auto simp: push_header_def split: if_splits prod.splits sum.splits dest: queue_put_path)

lemma pop_begin_path: "pop_begin q = (r, q') \<Longrightarrow> path q' = path q"
  by (auto simp: pop_begin_def split: list.splits if_splits)

lemma pop_end_path: "pop_end L e i h q = (r, q') \<Longrightarrow> path q' = path q"
  by (auto simp: pop_end_def Let_def split: if_splits prod.splits sum.splits dest!: queue_write_path compact_path)

lemma waiter_wakeup_path: "waiter_wakeup it q = (r, q') \<Longrightarrow> path q' = path q"
  by (auto simp: waiter_wakeup_def Let_def split: option.splits)

lemma erase_chunks_path: "erase_chunks L h q = (r, q') \<Longrightarrow> path q' = path q"
  by (simp add: erase_chunks_def queue_write_path)

lemma oq_write_path: "oq_write L x q s = (r, (q', s')) \<Longrightarrow> path q' = path q"
  by (auto simp: oq_write_def write_chunk_def Let_def split: if_splits prod.splits sum.splits
      dest!: push_item_path push_header_path queue_put_path)

lemma oq_cancel_path: "oq_cancel L q s = (r, (q', s')) \<Longrightarrow> path q' = path q"
  by (auto simp: oq_cancel_def split: if_splits prod.splits sum.splits dest!: erase_chunks_path)

lemma client_step_path: "client_step L act c = (ev, c') \<Longrightarrow> path (c_queue c') = path (c_queue c)"
proof (cases act)
  case (Drop_in k)
  obtain r q' where "pop_end L False (is_id (c_in c k)) (is_header (c_in c k)) (c_queue c) = (r, q')" by fastforce
  then show "client_step L act c = (ev, c') \<Longrightarrow> ?thesis" using Drop_in by (auto simp: iq_dtor_def dest: pop_end_path split: if_splits)
next
  case (Drop_out k)
  obtain r q' s' where "oq_cancel L (c_queue c) (c_out c k) = (r, (q', s'))" by (metis prod.exhaust)
  then show "client_step L act c = (ev, c') \<Longrightarrow> ?thesis" using Drop_out by (auto simp: oq_dtor_def dest: oq_cancel_path split: if_splits)
qed (auto simp: iq_open_def iq_close_def oq_open_def reserve_chunks_def wait_def Let_def split: prod.splits sum.splits if_splits option.splits
    dest!: pop_begin_path pop_end_path oq_write_path oq_cancel_path waiter_wakeup_path)

section \<open>Streams at another address\<close>

text \<open>The streams' methods do not look at the address of their queue.\<close>

lemma iq_open_moved:
  assumes "iq_open a q s = (r, (q', s'))" "is_queue s = None" "is_queue s2 = None"
  shows "iq_open b q s2 = (r, (q', if r = Inr True then s'\<lparr>is_queue := Some b\<rparr> else s2))" "r \<in> {Inr True, Inr False}"
    "r = Inr True \<Longrightarrow> is_queue s' = Some a" "r = Inr False \<Longrightarrow> s' = s"
  using assms by (auto simp: iq_open_def split: option.splits prod.splits)

lemma iq_first_moved:
  assumes "iq_first L q res s = (r, (res1, s1))"
  shows "\<exists>res2. iq_first L q res' (s\<lparr>is_queue := b\<rparr>) = (r, (res2, s1\<lparr>is_queue := b\<rparr>)) \<and>
      (r = Inr () \<and> is_chunk_pos s = 0 \<and> h_end (is_header s1) \<le> 1 \<longrightarrow> res2 = res1)"
    "is_queue s1 = is_queue s" "is_chunk_pos s \<noteq> 0 \<Longrightarrow> s1 = s"
proof -
  have "\<exists>res2. pop_read L (is_id s) q (res', is_header s) = (r', (res2, h1)) \<and> (r' = Inr () \<longrightarrow> res2 = res1')"
    if "pop_read L (is_id s) q (res, is_header s) = (r', (res1', h1))" for r' res1' h1
    using that by (auto simp: pop_read_def split: if_splits sum.splits option.splits)
  then show "\<exists>res2. iq_first L q res' (s\<lparr>is_queue := b\<rparr>) = (r, (res2, s1\<lparr>is_queue := b\<rparr>)) \<and>
      (r = Inr () \<and> is_chunk_pos s = 0 \<and> h_end (is_header s1) \<le> 1 \<longrightarrow> res2 = res1)"
    using assms by (fastforce simp: iq_first_def split: if_splits prod.splits sum.splits)
  show "is_queue s1 = is_queue s" "is_chunk_pos s \<noteq> 0 \<Longrightarrow> s1 = s"
    using assms by (auto simp: iq_first_def split: if_splits prod.splits sum.splits)
qed

lemma iq_read_moved:
  assumes rd: "iq_read L q res s = (r, (res1, s1))" and op: "is_queue s \<noteq> None"
  shows "\<exists>res2. iq_read L q [] (s\<lparr>is_queue := Some b\<rparr>) = (r, (res2, s1\<lparr>is_queue := Some b\<rparr>))" "is_queue s1 = is_queue s"
proof -
  obtain r0 res0 s0 where f: "iq_first L q res s = (r0, (res0, s0))" by (metis prod.exhaust)
  obtain res2 where f': "iq_first L q [] (s\<lparr>is_queue := Some b\<rparr>) = (r0, (res2, s0\<lparr>is_queue := Some b\<rparr>))"
    "r0 = Inr () \<and> is_chunk_pos s = 0 \<and> h_end (is_header s0) \<le> 1 \<longrightarrow> res2 = res0"
    using iq_first_moved(1) [OF f, of "[]" "Some b"] by blast
  have same: "is_queue s0 = is_queue s" "is_chunk_pos s \<noteq> 0 \<Longrightarrow> s0 = s" using iq_first_moved [OF f] by auto
  have end_pos: "is_chunk_pos s = 0" if "is_chunk_pos s < h_end (is_header s)" "\<not> 1 < h_end (is_header s)"
    using that by (simp add: word_less_nat_alt word_le_nat_alt unat_eq_zero [symmetric])
  show "\<exists>res2. iq_read L q [] (s\<lparr>is_queue := Some b\<rparr>) = (r, (res2, s1\<lparr>is_queue := Some b\<rparr>))"
    using rd op f f' same end_pos
    by (cases "is_chunk_pos s = 0") (auto simp: iq_read_def read_chunk_def not_le split: if_splits sum.splits)
  show "is_queue s1 = is_queue s"
    using rd f same by (auto simp: iq_read_def split: if_splits sum.splits)
qed

lemma iq_close_moved:
  assumes "iq_close L erase q s = (r, (q', s'))" "is_queue s = Some a"
  shows "iq_close L erase q (s\<lparr>is_queue := Some b\<rparr>) = (r, (q', if is_queue s' = None then s' else s'\<lparr>is_queue := Some b\<rparr>))"
    "is_queue s' \<in> {None, Some a}" "is_queue s' = Some a \<Longrightarrow> s' = s"
  using assms by (auto simp: iq_close_def split: prod.splits sum.splits)

lemma iq_dtor_moved: "is_queue s \<noteq> None \<Longrightarrow> iq_dtor L q (s\<lparr>is_queue := Some b\<rparr>) = iq_dtor L q s"
  by (simp add: iq_dtor_def)

definition same_out :: "oqstream \<Rightarrow> oqstream \<Rightarrow> bool" where
  "same_out s p \<longleftrightarrow> os_header s = os_header p \<and> os_chunk_pos s = os_chunk_pos p \<and> os_sync s = os_sync p"

lemma oq_open_moved:
  assumes "oq_open a n sync q s = (r, (q', s'))" "os_queue s = None" "os_queue s2 = None"
  shows "\<exists>s2'. oq_open b n sync q s2 = (r, (q', s2')) \<and> same_out s2' s' \<and> os_queue s2' = Some b" "r = Inr ()" "os_queue s' = Some a"
  using assms by (auto simp: oq_open_def same_out_def split: prod.splits if_splits)

lemma oq_write_moved:
  assumes "oq_write L x q s = (r, (q', s'))" "os_queue s = Some a" "same_out s2 s" "os_queue s2 = Some b"
  shows "\<exists>s2'. oq_write L x q s2 = (r, (q', s2')) \<and> same_out s2' s' \<and> os_queue s2' = (if os_queue s' = None then None else Some b)"
    "os_queue s' \<in> {None, Some a}" "h_beg (os_header s') = h_beg (os_header s)" "h_end (os_header s') = h_end (os_header s)"
  using assms by (auto simp: oq_write_def same_out_def Let_def split: if_splits prod.splits sum.splits)

lemma oq_dtor_moved: "os_queue s \<noteq> None \<Longrightarrow> os_queue s2 \<noteq> None \<Longrightarrow> same_out s2 s \<Longrightarrow> oq_dtor L q s2 = oq_dtor L q s"
  by (auto simp: oq_dtor_def oq_cancel_def same_out_def split: prod.splits sum.splits)

section \<open>The simulation\<close>

text \<open>
  A handler's streams as the clients of the queue at address \<open>a\<close> see them: a stream that is open on another queue is closed for this one. The
  bounds on chunks come from the default chunk size.
\<close>

definition in_sim :: "nat \<Rightarrow> iqstream \<Rightarrow> iqstream \<Rightarrow> bool" where
  "in_sim a p s \<longleftrightarrow> (if is_queue p = Some a then s = p\<lparr>is_queue := Some 0\<rparr> else is_queue s = None)"

definition out_sim :: "nat \<Rightarrow> oqstream \<Rightarrow> oqstream \<Rightarrow> string list \<Rightarrow> bool" where
  "out_sim a p s put \<longleftrightarrow> (if os_queue p = Some a
     then same_out s p \<and> os_queue s = Some 0 \<and> (\<forall>x \<in> set put. length x \<le> 1024) \<and> unat (h_end (os_header p) - h_beg (os_header p)) < 2 ^ 54
     else os_queue s = None)"

definition conn_sim :: "nat \<Rightarrow> handler \<Rightarrow> nat \<Rightarrow> ('db, nat) clients \<Rightarrow> bool" where
  "conn_sim a s k c \<longleftrightarrow> hn_chunk_size s = default_chunk_size \<and> in_sim a (hn_pop_stream s) (c_in c k) \<and>
     out_sim a (hn_push_stream s) (c_out c k) (c_put c k)"

definition queue_sim :: "('fs, 'db) externs \<Rightarrow> string \<Rightarrow> nat \<Rightarrow> ('fs, 'db) shared \<Rightarrow> ('db, nat) clients \<Rightarrow> bool" where
  "queue_sim X d a w c \<longleftrightarrow> a < qm_next (sh_queues w) \<and> qm_heap (sh_queues w) a = Some (c_queue c) \<and>
     journal_path (x_fs X) d (path (c_queue c)) \<and> clients_inv (x_ldb X) c"

definition lost :: "nat \<Rightarrow> ('fs, 'db) shared \<Rightarrow> bool" where
  "lost a w \<longleftrightarrow> a < qm_next (sh_queues w) \<and> qm_heap (sh_queues w) a = None"

text \<open>Only client \<open>k\<close> has moved.\<close>

definition only_client :: "nat \<Rightarrow> ('db, 'cb) clients \<Rightarrow> ('db, 'cb) clients \<Rightarrow> bool" where
  "only_client k c c' \<longleftrightarrow> (\<forall>j. j \<noteq> k \<longrightarrow> c_in c' j = c_in c j \<and> c_out c' j = c_out c j \<and> c_put c' j = c_put c j)"

text \<open>
  What a handler's method does to the queue at \<open>a\<close> is a run of its clients, unless the queue is freed.
\<close>

definition tracks :: "('fs, 'db) externs \<Rightarrow> string \<Rightarrow> nat \<Rightarrow> nat \<Rightarrow> ('fs, 'db) conn \<Rightarrow> ('fs, 'db) conn \<Rightarrow> bool" where
  "tracks X d a k x y \<longleftrightarrow> hn_chunk_size (fst y) = hn_chunk_size (fst x) \<and> (hn_chunk_size (fst x) = default_chunk_size \<longrightarrow>
     (lost a (snd x) \<longrightarrow> lost a (snd y)) \<and>
     (\<forall>c. conn_sim a (fst x) k c \<longrightarrow> queue_sim X d a (snd x) c \<longrightarrow> lost a (snd y) \<or>
        (\<exists>tr c'. reaches (x_ldb X) c tr c' \<and> conn_sim a (fst y) k c' \<and> queue_sim X d a (snd y) c' \<and> only_client k c c')))"

lemma tracks_sized:
  assumes "hn_chunk_size (fst y) = hn_chunk_size (fst x)" "hn_chunk_size (fst x) = default_chunk_size \<Longrightarrow> tracks X d a k x y"
  shows "tracks X d a k x y"
  using assms unfolding tracks_def by blast

lemma tracks_size: "tracks X d a k x y \<Longrightarrow> hn_chunk_size (fst y) = hn_chunk_size (fst x)"
  by (simp add: tracks_def)

lemma tracksI:
  assumes "hn_chunk_size s' = hn_chunk_size s" "lost a w \<Longrightarrow> lost a w'"
    and "\<And>c. conn_sim a s k c \<Longrightarrow> queue_sim X d a w c \<Longrightarrow> lost a w' \<or>
      (\<exists>tr c'. reaches (x_ldb X) c tr c' \<and> conn_sim a s' k c' \<and> queue_sim X d a w' c' \<and> only_client k c c')"
  shows "tracks X d a k (s, w) (s', w')"
  using assms by (simp add: tracks_def)

lemma tracks_refl [simp]: "tracks X d a k x x"
  unfolding tracks_def only_client_def by (blast intro: reaches.start)

lemma tracks_trans:
  assumes "tracks X d a k x y" "tracks X d a k y z"
  shows "tracks X d a k x z"
proof -
  have "\<exists>tr c2. reaches (x_ldb X) c tr c2 \<and> conn_sim a (fst z) k c2 \<and> queue_sim X d a (snd z) c2 \<and> only_client k c c2"
    if c: "conn_sim a (fst x) k c" "queue_sim X d a (snd x) c" and z: "\<not> lost a (snd z)" for c
  proof -
    have size: "hn_chunk_size (fst x) = default_chunk_size" "hn_chunk_size (fst y) = default_chunk_size"
      using c(1) tracks_size [OF assms(1)] by (simp_all add: conn_sim_def)
    have y: "\<not> lost a (snd y)" using z assms(2) size by (auto simp: tracks_def)
    obtain tr c1 where c1: "reaches (x_ldb X) c tr c1" "conn_sim a (fst y) k c1" "queue_sim X d a (snd y) c1" "only_client k c c1"
      using assms(1) c y size unfolding tracks_def by blast
    obtain tr' c2 where c2: "reaches (x_ldb X) c1 tr' c2" "conn_sim a (fst z) k c2" "queue_sim X d a (snd z) c2" "only_client k c1 c2"
      using assms(2) c1(2,3) z size unfolding tracks_def by blast
    have "reaches (x_ldb X) c (tr @ tr') c2" by (rule reaches_trans [OF c2(1) c1(1)])
    moreover have "only_client k c c2" using c1(4) c2(4) by (simp add: only_client_def)
    ultimately show ?thesis using c2(2,3) by blast
  qed
  then show ?thesis using assms by (auto simp: tracks_def)
qed

text \<open>Changes that the clients of the queue do not see.\<close>

lemma tracks_unseen:
  assumes "a < qm_next (sh_queues w) \<Longrightarrow> qm_heap (sh_queues w') a = qm_heap (sh_queues w) a" "qm_next (sh_queues w) \<le> qm_next (sh_queues w')"
    and "hn_chunk_size s' = hn_chunk_size s"
    and "hn_pop_stream s' = hn_pop_stream s \<or> is_queue (hn_pop_stream s) \<noteq> Some a \<and> is_queue (hn_pop_stream s') \<noteq> Some a"
    and "hn_push_stream s' = hn_push_stream s \<or> os_queue (hn_push_stream s) \<noteq> Some a \<and> os_queue (hn_push_stream s') \<noteq> Some a"
  shows "tracks X d a k (s, w) (s', w')"
proof (rule tracksI [OF assms(3)])
  show "lost a w \<Longrightarrow> lost a w'" using assms(1,2) by (simp add: lost_def)
  fix c assume c: "conn_sim a s k c" "queue_sim X d a w c"
  have "in_sim a (hn_pop_stream s') (c_in c k)" using c(1) assms(4) by (auto simp: conn_sim_def in_sim_def split: if_splits)
  moreover have "out_sim a (hn_push_stream s') (c_out c k) (c_put c k)"
    using c(1) assms(5) by (auto simp: conn_sim_def out_sim_def split: if_splits)
  ultimately have "conn_sim a s' k c" using c(1) assms(3) by (simp add: conn_sim_def)
  moreover have "queue_sim X d a w' c" using c(2) assms(1,2) by (auto simp: queue_sim_def)
  ultimately show "lost a w' \<or> (\<exists>tr c'. reaches (x_ldb X) c tr c' \<and> conn_sim a s' k c' \<and> queue_sim X d a w' c' \<and> only_client k c c')"
    using reaches.start [of "x_ldb X" c] by (auto simp: only_client_def)
qed

lemma set_queue_next [simp]: "qm_next (sh_queues (set_queue a q w)) = qm_next (sh_queues w)"
  by (simp add: set_queue_def)

text \<open>One call of a client.\<close>

definition world :: "('fs, 'db) externs \<Rightarrow> string \<Rightarrow> ('fs \<Rightarrow> string \<Rightarrow> (slice \<Rightarrow> string option) option) \<Rightarrow> bool" where
  "world X d view \<longleftrightarrow> journal_contract (x_ldb X) \<and> failed_write_invisible (x_ldb X) \<and> fs_contract (x_ldb X) (x_fs X) d view"

lemma tracks_call:
  assumes W: "world X d view" and q: "qm_heap (sh_queues w) a = Some q \<and> hn_chunk_size s' = hn_chunk_size s"
    and step: "\<And>c. conn_sim a s k c \<Longrightarrow> queue_sim X d a w c \<Longrightarrow> c_queue c = q \<Longrightarrow> conn_sim a s' k c \<and> q' = q \<or>
      (\<exists>act ev c'. allowed act c \<and> client_step (x_ldb X) act c = (ev, c') \<and> c_queue c' = q' \<and> conn_sim a s' k c' \<and> only_client k c c')"
  shows "tracks X d a k (s, w) (s', set_queue a q' w)"
proof (rule tracksI)
  show "hn_chunk_size s' = hn_chunk_size s" using q ..
  show "lost a w \<Longrightarrow> lost a (set_queue a q' w)" using q by (simp add: lost_def)
  fix c assume c: "conn_sim a s k c" "queue_sim X d a w c"
  have cq: "c_queue c = q" using c(2) q by (simp add: queue_sim_def)
  from step [OF c cq] consider (stay) "conn_sim a s' k c" "q' = q"
    | (call) act ev c' where "allowed act c" "client_step (x_ldb X) act c = (ev, c')" "c_queue c' = q'" "conn_sim a s' k c'" "only_client k c c'"
    by blast
  then have "\<exists>tr c'. reaches (x_ldb X) c tr c' \<and> conn_sim a s' k c' \<and> queue_sim X d a (set_queue a q' w) c' \<and> only_client k c c'"
  proof cases
    case stay
    then have "queue_sim X d a (set_queue a q' w) c" using c(2) cq by (simp add: queue_sim_def)
    with stay show ?thesis using reaches.start by (auto simp: only_client_def)
  next
    case call
    have inv: "clients_inv (x_ldb X) c" using c(2) by (simp add: queue_sim_def)
    have "clients_inv (x_ldb X) c'"
      using client_step_good [OF _ _ inv call(1,2)] W by (simp add: good_step_def world_def)
    then have "queue_sim X d a (set_queue a q' w) c'"
      using c(2) call(3) client_step_path [OF call(2)] by (simp add: queue_sim_def)
    moreover have "reaches (x_ldb X) c ([] @ [ev]) c'" by (rule reaches.step [OF reaches.start call(1,2)])
    ultimately show ?thesis using call(4,5) by blast
  qed
  then show "lost a (set_queue a q' w) \<or>
      (\<exists>tr c'. reaches (x_ldb X) c tr c' \<and> conn_sim a s' k c' \<and> queue_sim X d a (set_queue a q' w) c' \<and> only_client k c c')" by blast
qed

section \<open>Calls on the streams\<close>

lemma release_queue_frame:
  assumes "release_queue F owned b m = (r, m')"
  shows "qm_next m' = qm_next m" "qm_heap m' = qm_heap m \<or> qm_heap m' = (qm_heap m)(b := None)" "qm_queues m' = qm_queues m"
    "qm_data_path m' = qm_data_path m"
  using assms by (auto simp: release_queue_def split: option.splits prod.splits if_splits)

lemma tracks_freed:
  assumes "qm_next (sh_queues w') = qm_next (sh_queues w)"
    and "qm_heap (sh_queues w') = qm_heap (sh_queues w) \<or> qm_heap (sh_queues w') = (qm_heap (sh_queues w))(b := None)"
  shows "tracks X d a k (s, w) (s, w')"
proof (cases "qm_heap (sh_queues w') a = qm_heap (sh_queues w) a")
  case True
  then show ?thesis using assms(1) by (intro tracks_unseen) simp_all
next
  case False
  then have "qm_heap (sh_queues w') a = None" using assms(2) by (auto split: if_splits)
  then show ?thesis using assms(1) by (intro tracksI) (auto simp: lost_def queue_sim_def)
qed

lemma let_go_tracks: "tracks X d a k x (snd (let_go X others b x))"
proof -
  obtain s w where x: "x = (s, w)" by fastforce
  obtain r m where "release_queue (x_fs X) (\<lambda>b. others b \<or> owned_by s b) b (sh_queues w) = (r, m)" by fastforce
  from release_queue_frame [OF this] this show ?thesis by (simp add: x let_go_def tracks_freed [where b = b])
qed

lemma set_queue_same: "qm_heap (sh_queues w) a = Some q \<Longrightarrow> set_queue a q w = w"
  by (simp add: set_queue_def fun_upd_idem)

lemma pop_stream_read_tracks:
  assumes W: "world X d view"
  shows "tracks X d a k x (snd (pop_stream_read X x))"
proof -
  obtain s w where x: "x = (s, w)" by fastforce
  consider (no) "snd (pop_stream_read X x) = x" | (yes) b q where "is_queue (hn_pop_stream s) = Some b" "qm_heap (sh_queues w) b = Some q"
    by (cases "is_queue (hn_pop_stream s)"; cases "qm_heap (sh_queues w) (the (is_queue (hn_pop_stream s)))") (auto simp: x pop_stream_read_def)
  then show ?thesis
  proof cases
    case no
    then show ?thesis by simp
  next
    case yes
    obtain r res p where rd: "iq_read (x_ldb X) q (hn_buf s) (hn_pop_stream s) = (r, (res, p))" by (metis prod.exhaust)
    let ?s = "s\<lparr>hn_buf := res, hn_pop_stream := p\<rparr>"
    have y: "snd (pop_stream_read X x) = (?s, w)" using yes rd by (simp add: x pop_stream_read_def)
    have p: "is_queue p = Some b" using iq_read_moved(2) [OF rd] yes(1) by simp
    show ?thesis
    proof (cases "b = a")
      case False
      then show ?thesis unfolding x y [unfolded x] by (intro tracks_unseen) (simp_all add: p yes)
    next
      case True
      have "tracks X d a k (s, w) (?s, set_queue a q w)"
      proof (rule tracks_call [OF W])
        show "qm_heap (sh_queues w) a = Some q \<and> hn_chunk_size ?s = hn_chunk_size s" using yes True by simp
        fix c assume c: "conn_sim a s k c" "c_queue c = q"
        then have ci: "c_in c k = (hn_pop_stream s)\<lparr>is_queue := Some 0\<rparr>" using yes True by (simp add: conn_sim_def in_sim_def)
        obtain res2 where rd2: "iq_read (x_ldb X) q [] (c_in c k) = (r, (res2, p\<lparr>is_queue := Some 0\<rparr>))"
          using iq_read_moved(1) [OF rd, of 0] yes(1) by (auto simp: ci)
        obtain ev c' where st: "client_step (x_ldb X) (Read_in k) c = (ev, c')" by fastforce
        have "c_queue c' = q" "conn_sim a ?s k c'" "only_client k c c'"
          using st rd2 c True p by (auto simp: conn_sim_def in_sim_def only_client_def split: sum.splits)
        then show "conn_sim a ?s k c \<and> q = q \<or> (\<exists>act ev c'. allowed act c \<and> client_step (x_ldb X) act c = (ev, c') \<and>
            c_queue c' = q \<and> conn_sim a ?s k c' \<and> only_client k c c')"
          using st by (intro disjI2 exI [of _ "Read_in k"]) auto
      qed
      then show ?thesis using yes True by (simp add: x y [unfolded x] set_queue_same)
    qed
  qed
qed

lemma pop_stream_close_tracks:
  assumes W: "world X d view"
  shows "tracks X d a k x (snd (pop_stream_close X others erase x))"
proof -
  obtain s w where x: "x = (s, w)" by fastforce
  consider (no) "snd (pop_stream_close X others erase x) = x" | (yes) b q where "is_queue (hn_pop_stream s) = Some b" "qm_heap (sh_queues w) b = Some q"
    by (cases "is_queue (hn_pop_stream s)"; cases "qm_heap (sh_queues w) (the (is_queue (hn_pop_stream s)))") (auto simp: x pop_stream_close_def)
  then show ?thesis
  proof cases
    case no
    then show ?thesis by simp
  next
    case yes
    obtain r q' p where cl: "iq_close (x_ldb X) erase q (hn_pop_stream s) = (r, (q', p))" by (metis prod.exhaust)
    let ?s = "s\<lparr>hn_pop_stream := p\<rparr>"
    note mv = iq_close_moved [OF cl yes(1)]
    have "tracks X d a k (s, w) (?s, set_queue b q' w)"
    proof (cases "b = a")
      case False
      then show ?thesis using mv(2) by (intro tracks_unseen) (auto simp: yes)
    next
      case True
      show ?thesis unfolding True
      proof (rule tracks_call [OF W])
        show "qm_heap (sh_queues w) a = Some q \<and> hn_chunk_size ?s = hn_chunk_size s" using yes True by simp
        fix c assume c: "conn_sim a s k c" "c_queue c = q"
        then have ci: "c_in c k = (hn_pop_stream s)\<lparr>is_queue := Some 0\<rparr>" using yes True by (simp add: conn_sim_def in_sim_def)
        obtain ev c' where st: "client_step (x_ldb X) (Close_in k erase) c = (ev, c')" by fastforce
        have "c_queue c' = q'" "conn_sim a ?s k c'" "only_client k c c'"
          using st mv(1) [of 0] mv(2) c True ci by (auto simp: conn_sim_def in_sim_def only_client_def split: sum.splits)
        then show "conn_sim a ?s k c \<and> q' = q \<or> (\<exists>act ev c'. allowed act c \<and> client_step (x_ldb X) act c = (ev, c') \<and>
            c_queue c' = q' \<and> conn_sim a ?s k c' \<and> only_client k c c')"
          using st by (intro disjI2 exI [of _ "Close_in k erase"]) auto
      qed
    qed
    moreover have "snd (pop_stream_close X others erase x) = (?s, set_queue b q' w) \<or>
        snd (pop_stream_close X others erase x) = snd (let_go X others b (?s, set_queue b q' w))"
      using yes cl by (cases r) (simp_all add: x pop_stream_close_def)
    ultimately show ?thesis using let_go_tracks tracks_trans unfolding x by metis
  qed
qed

text \<open>Looking a queue up makes at most a new one.\<close>

lemma make_queue_frame:
  assumes "make_queue L F n m = (r, m')"
  shows "qm_next m \<le> qm_next m'" "b < qm_next m \<Longrightarrow> qm_heap m' b = qm_heap m b"
  using assms by (auto simp: make_queue_def Let_def split: prod.splits sum.splits)

lemma assign_queue_frame:
  assumes "assign_queue L F n m = (r, m')"
  shows "qm_next m \<le> qm_next m'" "b < qm_next m \<Longrightarrow> qm_heap m' b = qm_heap m b"
  using assms by (auto simp: assign_queue_def split: prod.splits sum.splits dest: make_queue_frame)

lemma find_queue_frame:
  assumes "find_queue X n (s, w) = (r, (s', w'))"
  shows "s' = s" "qm_next (sh_queues w) \<le> qm_next (sh_queues w')"
    "b < qm_next (sh_queues w) \<Longrightarrow> qm_heap (sh_queues w') b = qm_heap (sh_queues w) b"
    "r = Inr (b, q) \<Longrightarrow> qm_heap (sh_queues w') b = Some q"
  using assms by (auto simp: find_queue_def queue_map_get_def split: prod.splits sum.splits option.splits dest: assign_queue_frame)

lemma find_queue_same:
  obtains r w1 where "find_queue X n (s, w) = (r, (s, w1))"
proof -
  obtain r s1 w1 where f: "find_queue X n (s, w) = (r, (s1, w1))" by (metis prod.exhaust)
  with find_queue_frame(1) [OF f] that show thesis by simp
qed

lemma find_queue_tracks: "tracks X d a k x (snd (find_queue X n x))"
proof -
  obtain s w where x: "x = (s, w)" by fastforce
  obtain r s' w' where f: "find_queue X n x = (r, (s', w'))" by (metis prod.exhaust)
  show ?thesis unfolding x f [unfolded x] snd_conv
    using find_queue_frame [OF f [unfolded x]] by (intro tracks_unseen) auto
qed

lemma pop_stream_open_tracks:
  assumes W: "world X d view"
  shows "tracks X d a k x (snd (pop_stream_open X x))"
proof -
  obtain s w where x: "x = (s, w)" by fastforce
  obtain r w1 where f: "find_queue X (r_queue (hn_req s)) (s, w) = (r, (s, w1))" by (rule find_queue_same)
  have fw: "tracks X d a k x (s, w1)" using find_queue_tracks [of X d a k x "r_queue (hn_req s)"] f by (simp add: x)
  show ?thesis
  proof (cases r)
    case (Inl e)
    then show ?thesis using fw f by (simp add: x pop_stream_open_def)
  next
    case (Inr bq)
    obtain b q where bq: "bq = (b, q)" by fastforce
    have hb: "qm_heap (sh_queues w1) b = Some q" using find_queue_frame(4) [OF f] Inr bq by simp
    obtain r1 q1 p where op: "iq_open b q (hn_pop_stream s) = (r1, (q1, p))" by (metis prod.exhaust)
    let ?s = "s\<lparr>hn_pop_stream := p\<rparr>"
    have y: "snd (pop_stream_open X x) = (?s, set_queue b q1 w1)" using f Inr bq op by (simp add: x pop_stream_open_def)
    have "tracks X d a k (s, w1) (?s, set_queue b q1 w1)"
    proof (cases "is_queue (hn_pop_stream s) = None")
      case False
      then have "q1 = q" "p = hn_pop_stream s" using op by (auto simp: iq_open_def)
      then show ?thesis using hb by (simp add: set_queue_same)
    next
      case closed: True
      show ?thesis
      proof (cases "b = a")
        case False
        then show ?thesis using iq_open_moved(2,3,4) [OF op closed closed] closed by (intro tracks_unseen) auto
      next
        case True
        show ?thesis unfolding True
        proof (rule tracks_call [OF W])
          show "qm_heap (sh_queues w1) a = Some q \<and> hn_chunk_size ?s = hn_chunk_size s" using hb True by simp
          fix c assume c: "conn_sim a s k c" "c_queue c = q"
          then have ci: "is_queue (c_in c k) = None" using closed by (simp add: conn_sim_def in_sim_def)
          note mv = iq_open_moved [OF op closed ci]
          obtain ev c' where st: "client_step (x_ldb X) (Open_in k) c = (ev, c')" by fastforce
          have "c_queue c' = q1" "conn_sim a ?s k c'" "only_client k c c'"
            using st mv(1) [of 0] mv(2-4) c True closed ci by (auto simp: conn_sim_def in_sim_def only_client_def split: sum.splits if_splits)
          then show "conn_sim a ?s k c \<and> q1 = q \<or> (\<exists>act ev c'. allowed act c \<and> client_step (x_ldb X) act c = (ev, c') \<and>
              c_queue c' = q1 \<and> conn_sim a ?s k c' \<and> only_client k c c')"
            using st by (intro disjI2 exI [of _ "Open_in k"]) auto
        qed
      qed
    qed
    then show ?thesis using fw y tracks_trans by metis
  qed
qed

text \<open>The numbers of items and chunks do not run out while they are below half of their range.\<close>

definition room :: "('db, 'cb) queue \<Rightarrow> bool" where
  "room q \<longleftrightarrow> key_id (queue_head q) < 2 ^ 63 \<and> key_id (chunks_head q) < 2 ^ 63"

definition roomy :: "nat \<Rightarrow> ('fs, 'db) shared \<Rightarrow> bool" where
  "roomy a w \<longleftrightarrow> a < qm_next (sh_queues w) \<longrightarrow> (case qm_heap (sh_queues w) a of None \<Rightarrow> True | Some q \<Rightarrow> room q)"

lemma room_head: "room q \<Longrightarrow> key_id (queue_head q) + 1 \<noteq> 0"
  unfolding room_def using less_plus_one by blast

lemma room_chunks:
  assumes "room q" "unat n < 2 ^ 54"
  shows "uint (key_id (chunks_head q)) + uint n < 2 ^ 64"
proof -
  have "unat (key_id (chunks_head q)) < 2 ^ 63" using assms(1) by (simp add: room_def word_less_nat_alt)
  then have "int (unat (key_id (chunks_head q)) + unat n) < int (2 ^ 63 + 2 ^ 54)" using assms(2) by (simp only: of_nat_less_iff)
  then show ?thesis unfolding uint_nat by simp
qed

lemma oq_open_header:
  assumes "oq_open b n sync q s = (Inr (), (q1, p))" "unat n < 2 ^ 54"
  shows "unat (h_end (os_header p) - h_beg (os_header p)) < 2 ^ 54"
  using assms by (auto simp: oq_open_def reserve_chunks_def header_default_def split: if_splits)

lemma push_stream_open_tracks:
  assumes W: "world X d view" and n: "unat n < 2 ^ 54" and room: "roomy a (snd x)"
  shows "tracks X d a k x (snd (push_stream_open X n sync x))"
proof -
  obtain s w where x: "x = (s, w)" by fastforce
  obtain r w1 where f: "find_queue X (r_queue (hn_req s)) (s, w) = (r, (s, w1))" by (rule find_queue_same)
  show ?thesis
  proof (cases r)
    case (Inl e)
    then show ?thesis using find_queue_tracks [of X d a k x "r_queue (hn_req s)"] f by (simp add: x push_stream_open_def)
  next
    case (Inr bq)
    obtain b q where bq: "bq = (b, q)" by fastforce
    have hb: "qm_heap (sh_queues w1) b = Some q" using find_queue_frame(4) [OF f] Inr bq by simp
    obtain r1 q1 p where op: "oq_open b n sync q (hn_push_stream s) = (r1, (q1, p))" by (metis prod.exhaust)
    let ?s = "s\<lparr>hn_push_stream := p\<rparr>"
    have y: "snd (push_stream_open X n sync x) = (?s, set_queue b q1 w1)" using f Inr bq op by (simp add: x push_stream_open_def)
    show ?thesis
    proof (cases "a < qm_next (sh_queues w)")
      case False
      then show ?thesis unfolding y unfolding x by (intro tracksI) (auto simp: lost_def queue_sim_def)
    next
      case below: True
      have "tracks X d a k (s, w1) (?s, set_queue b q1 w1)"
      proof (cases "os_queue (hn_push_stream s) = None")
        case False
        then have "q1 = q" "p = hn_push_stream s" using op by (auto simp: oq_open_def)
        then show ?thesis using hb by (simp add: set_queue_same)
      next
        case closed: True
        show ?thesis
        proof (cases "b = a")
          case False
          then show ?thesis using oq_open_moved(3) [OF op closed closed] closed by (intro tracks_unseen) auto
        next
          case True
          show ?thesis unfolding True
          proof (rule tracks_call [OF W])
            show "qm_heap (sh_queues w1) a = Some q \<and> hn_chunk_size ?s = hn_chunk_size s" using hb True by simp
            fix c assume c: "conn_sim a s k c" "c_queue c = q"
            then have co: "os_queue (c_out c k) = None" using closed by (simp add: conn_sim_def out_sim_def)
            obtain s2 where s2: "oq_open 0 n sync q (c_out c k) = (r1, (q1, s2))" "same_out s2 p" "os_queue s2 = Some 0" "r1 = Inr ()"
              "os_queue p = Some a"
              using oq_open_moved [OF op closed co] True by blast
            obtain ev c' where st: "client_step (x_ldb X) (Open_out k n sync) c = (ev, c')" by fastforce
            have hd: "unat (h_end (os_header p) - h_beg (os_header p)) < 2 ^ 54" using oq_open_header [OF _ n] op s2(4) by simp
            have rq: "room q" using room below hb True find_queue_frame(3) [OF f below] by (simp add: roomy_def x)
            have al: "allowed (Open_out k n sync) c" using room_chunks [OF rq n] c(2) by simp
            have "c_queue c' = q1" "conn_sim a ?s k c'" "only_client k c c'"
              using st s2 c hd by (auto simp: conn_sim_def out_sim_def only_client_def)
            then show "conn_sim a ?s k c \<and> q1 = q \<or> (\<exists>act ev c'. allowed act c \<and> client_step (x_ldb X) act c = (ev, c') \<and>
                c_queue c' = q1 \<and> conn_sim a ?s k c' \<and> only_client k c c')"
              using st al by (intro disjI2 exI [of _ "Open_out k n sync"]) auto
          qed
        qed
      qed
      moreover have "tracks X d a k x (s, w1)" using find_queue_tracks [of X d a k x "r_queue (hn_req s)"] f by (simp add: x)
      ultimately show ?thesis using y tracks_trans by metis
    qed
  qed
qed

text \<open>A chunk of at most the chunk size either does nothing to the queue or is within its limits.\<close>

lemma length_concat_bound: "\<forall>x \<in> set xs. length x \<le> n \<Longrightarrow> length (concat xs) \<le> length xs * n"
  by (induction xs) auto

lemma write_allowed:
  assumes c: "clients_inv L c" "room (c_queue c)" and op: "os_queue (c_out c k) \<noteq> None"
    and put: "\<forall>x \<in> set (c_put c k). length x \<le> 1024" "unat (h_end (os_header (c_out c k)) - h_beg (os_header (c_out c k))) < 2 ^ 54"
    and x: "length x \<le> 1024"
  shows "allowed (Write_out k x) c \<or> oq_write L x (c_queue c) (c_out c k) = (Inl Undefined, (c_queue c, c_out c k)) \<or>
    oq_write L x (c_queue c) (c_out c k) = (Inl Eof, (c_queue c, c_out c k))"
proof (cases "os_chunk_pos (c_out c k) = h_end (os_header (c_out c k)) \<or> x = [] \<and> h_end (os_header (c_out c k)) \<le> 1")
  case True
  then show ?thesis by (auto simp: oq_write_def push_item_def)
next
  case False
  let ?s = "c_out c k"
  have ok: "oq_ok L (reserved c) (c_put c k) (c_queue c) ?s"
    using clients_invD(3) [OF c(1)] op by (simp add: outs_inv_def)
  have "length (c_put c k) < 2 ^ 54"
  proof (cases "1 < h_end (os_header ?s)")
    case True
    then have inv: "oq_inv L (reserved c) (c_put c k) (c_queue c) ?s" using ok by (simp add: oq_ok_def)
    then have "length (c_put c k) \<le> unat (h_end (os_header ?s) - h_beg (os_header ?s))" by (simp add: oq_inv_def Let_def)
    then show ?thesis using put(2) by simp
  next
    case False
    then show ?thesis using ok by (simp add: oq_ok_def)
  qed
  moreover have "length (c_put c k) \<noteq> 2 ^ 54 - 1"
  proof
    assume l: "length (c_put c k) = 2 ^ 54 - 1"
    then have inv: "oq_inv L (reserved c) (c_put c k) (c_queue c) ?s" using ok by (auto simp: oq_ok_def split: if_splits)
    then have "length (c_put c k) \<le> unat (h_end (os_header ?s) - h_beg (os_header ?s))" by (simp add: oq_inv_def Let_def)
    then have "length (c_put c k) = unat (h_end (os_header ?s) - h_beg (os_header ?s))" using put(2) l by simp
    then have "os_chunk_pos ?s = h_end (os_header ?s)"
      using inv offset_end [of "length (c_put c k)" "h_end (os_header ?s)" "h_beg (os_header ?s)"] by (simp add: oq_inv_def Let_def)
    then show False using False by simp
  qed
  ultimately have "length (c_put c k) + 1 < 2 ^ 54" by linarith
  moreover have "length (concat (c_put c k @ [x])) \<le> length (c_put c k @ [x]) * 1024"
    by (rule length_concat_bound) (use put(1) x in auto)
  ultimately have "length (concat (c_put c k @ [x])) < 2 ^ 64" by simp
  then have "int (length (concat (c_put c k @ [x]))) < 2 ^ 64" by (simp del: length_concat concat_append)
  then have "allowed (Write_out k x) c"
    using False room_head [OF c(2)] unfolding allowed.simps by (auto simp: not_le)
  then show ?thesis ..
qed

lemma push_stream_write_tracks:
  assumes W: "world X d view" and l: "length chunk \<le> 1024" and room: "roomy a (snd x)"
  shows "tracks X d a k x (snd (push_stream_write X others chunk x))"
proof -
  obtain s w where x: "x = (s, w)" by fastforce
  consider (no) "snd (push_stream_write X others chunk x) = x" | (yes) b q where "os_queue (hn_push_stream s) = Some b" "qm_heap (sh_queues w) b = Some q"
    by (cases "os_queue (hn_push_stream s)"; cases "qm_heap (sh_queues w) (the (os_queue (hn_push_stream s)))") (auto simp: x push_stream_write_def)
  then show ?thesis
  proof cases
    case no
    then show ?thesis by simp
  next
    case yes
    obtain r q' p where wr: "oq_write (x_ldb X) chunk q (hn_push_stream s) = (r, (q', p))" by (metis prod.exhaust)
    let ?s = "s\<lparr>hn_push_stream := p\<rparr>"
    have mv: "os_queue p \<in> {None, Some b}" "h_beg (os_header p) = h_beg (os_header (hn_push_stream s))"
      "h_end (os_header p) = h_end (os_header (hn_push_stream s))"
      using oq_write_moved(2-4) [OF wr yes(1), of "hn_push_stream s" b] yes(1) by (simp_all add: same_out_def)
    have "tracks X d a k (s, w) (?s, set_queue b q' w)"
    proof (cases "b = a")
      case False
      then show ?thesis using mv(1) by (intro tracks_unseen) (auto simp: yes)
    next
      case True
      show ?thesis unfolding True
      proof (rule tracks_call [OF W])
        show "qm_heap (sh_queues w) a = Some q \<and> hn_chunk_size ?s = hn_chunk_size s" using yes True by simp
        fix c assume c: "conn_sim a s k c" "queue_sim X d a w c" "c_queue c = q"
        then have co: "same_out (c_out c k) (hn_push_stream s)" "os_queue (c_out c k) = Some 0" "\<forall>x \<in> set (c_put c k). length x \<le> 1024"
          "unat (h_end (os_header (hn_push_stream s)) - h_beg (os_header (hn_push_stream s))) < 2 ^ 54"
          using yes True by (simp_all add: conn_sim_def out_sim_def)
        obtain s2 where s2: "oq_write (x_ldb X) chunk q (c_out c k) = (r, (q', s2))" "same_out s2 p"
          "os_queue s2 = (if os_queue p = None then None else Some 0)"
          using oq_write_moved(1) [OF wr yes(1) co(1,2)] by blast
        have rq: "room q" using room c(2) yes True by (simp add: roomy_def queue_sim_def x)
        have hd: "os_header (c_out c k) = os_header (hn_push_stream s)" using co(1) by (simp add: same_out_def)
        have inv: "clients_inv (x_ldb X) c" using c(2) by (simp add: queue_sim_def)
        consider (call) "allowed (Write_out k chunk) c" | (none) "q' = q" "s2 = c_out c k"
          using write_allowed [OF inv _ _ co(3) _ l] rq co(2,4) s2(1) c(3) by (auto simp: hd)
        then show "conn_sim a ?s k c \<and> q' = q \<or> (\<exists>act ev c'. allowed act c \<and> client_step (x_ldb X) act c = (ev, c') \<and>
            c_queue c' = q' \<and> conn_sim a ?s k c' \<and> only_client k c c')"
        proof cases
          case call
          obtain ev c' where st: "client_step (x_ldb X) (Write_out k chunk) c = (ev, c')" by fastforce
          have "c_queue c' = q'" "conn_sim a ?s k c'" "only_client k c c'"
            using st s2 c co mv l True by (auto simp: conn_sim_def out_sim_def only_client_def split: sum.splits if_splits)
          then show ?thesis using st call by (intro disjI2 exI [of _ "Write_out k chunk"]) auto
        next
          case none
          then have "conn_sim a ?s k c" using c(1) co s2 mv True by (auto simp: conn_sim_def out_sim_def split: if_splits)
          then show ?thesis using none by simp
        qed
      qed
    qed
    moreover have "snd (push_stream_write X others chunk x) = (?s, set_queue b q' w) \<or>
        snd (push_stream_write X others chunk x) = snd (let_go X others b (?s, set_queue b q' w))"
      using yes wr by (cases r) (simp_all add: x push_stream_write_def)
    ultimately show ?thesis using let_go_tracks tracks_trans unfolding x by metis
  qed
qed

end
