(* ===== verification/Server_Methods.thy ===== *)
theory Server_Methods
  imports Server_Sim
begin

text \<open>
  The methods of the handler, one lemma for each: what it does to a queue is a run of that queue's clients.
\<close>

section \<open>Waiting, dropping, destroying\<close>

lemma handler_wait_tracks:
  assumes W: "world X d view"
  shows "tracks X d a k x (snd (handler_wait X self x))"
proof -
  obtain s w where x: "x = (s, w)" by fastforce
  obtain r w1 where f: "find_queue X (r_queue (hn_req s)) (s, w) = (r, (s, w1))" by (rule find_queue_same)
  have fw: "tracks X d a k x (s, w1)" using find_queue_tracks [of X d a k x "r_queue (hn_req s)"] f by (simp add: x)
  show ?thesis
  proof (cases r)
    case (Inl e)
    then show ?thesis using fw f by (simp add: x handler_wait_def)
  next
    case (Inr bq)
    obtain b q where bq: "bq = (b, q)" by fastforce
    have hb: "qm_heap (sh_queues w1) b = Some q" using find_queue_frame(4) [OF f] Inr bq by simp
    let ?s = "s\<lparr>hn_pending := P_wait\<rparr>" and ?q = "wait (r_wait_ms (hn_req s)) self q"
    have y: "snd (handler_wait X self x) = (?s, set_queue b ?q w1)" using f Inr bq by (simp add: x handler_wait_def)
    have "tracks X d a k (s, w1) (?s, set_queue b ?q w1)"
    proof (cases "b = a")
      case False
      then show ?thesis by (intro tracks_unseen) auto
    next
      case True
      show ?thesis unfolding True
      proof (rule tracks_call [OF W])
        show "qm_heap (sh_queues w1) a = Some q \<and> hn_chunk_size ?s = hn_chunk_size s" using hb True by simp
        fix c assume c: "conn_sim a s k c" "c_queue c = q"
        then show "conn_sim a ?s k c \<and> ?q = q \<or> (\<exists>act ev c'. allowed act c \<and> client_step (x_ldb X) act c = (ev, c') \<and>
            c_queue c' = ?q \<and> conn_sim a ?s k c' \<and> only_client k c c')"
          by (intro disjI2 exI [of _ "Wait (r_wait_ms (hn_req s)) self"]) (auto simp: conn_sim_def only_client_def)
      qed
    qed
    then show ?thesis using fw y tracks_trans by metis
  qed
qed

lemma drop_push_stream_tracks:
  assumes W: "world X d view"
  shows "tracks X d a k x (snd (drop_push_stream X others x))"
proof -
  obtain s w where x: "x = (s, w)" by fastforce
  consider (no) "snd (drop_push_stream X others x) = x" | (yes) b q where "os_queue (hn_push_stream s) = Some b" "qm_heap (sh_queues w) b = Some q"
    by (cases "os_queue (hn_push_stream s)"; cases "qm_heap (sh_queues w) (the (os_queue (hn_push_stream s)))") (auto simp: x drop_push_stream_def)
  then show ?thesis
  proof cases
    case no
    then show ?thesis by simp
  next
    case yes
    let ?s = "s\<lparr>hn_push_stream := oq_new\<rparr>" and ?q = "oq_dtor (x_ldb X) q (hn_push_stream s)"
    have "tracks X d a k (s, w) (?s, set_queue b ?q w)"
    proof (cases "b = a")
      case False
      then show ?thesis by (intro tracks_unseen) (auto simp: yes oq_new_def)
    next
      case True
      show ?thesis unfolding True
      proof (rule tracks_call [OF W])
        show "qm_heap (sh_queues w) a = Some q \<and> hn_chunk_size ?s = hn_chunk_size s" using yes True by simp
        fix c assume c: "conn_sim a s k c" "c_queue c = q"
        then have "same_out (c_out c k) (hn_push_stream s)" "os_queue (c_out c k) = Some 0" using yes True by (simp_all add: conn_sim_def out_sim_def)
        then have "oq_dtor (x_ldb X) q (c_out c k) = ?q" using yes by (intro oq_dtor_moved) simp_all
        then show "conn_sim a ?s k c \<and> ?q = q \<or> (\<exists>act ev c'. allowed act c \<and> client_step (x_ldb X) act c = (ev, c') \<and>
            c_queue c' = ?q \<and> conn_sim a ?s k c' \<and> only_client k c c')"
          using c by (intro disjI2 exI [of _ "Drop_out k"]) (auto simp: conn_sim_def out_sim_def only_client_def oq_new_def)
      qed
    qed
    moreover have "snd (drop_push_stream X others x) = snd (let_go X others b (?s, set_queue b ?q w))"
      using yes by (simp add: x drop_push_stream_def)
    ultimately show ?thesis using let_go_tracks tracks_trans unfolding x by metis
  qed
qed

lemma drop_pop_stream_tracks:
  assumes W: "world X d view"
  shows "tracks X d a k x (snd (drop_pop_stream X others x))"
proof -
  obtain s w where x: "x = (s, w)" by fastforce
  consider (no) "snd (drop_pop_stream X others x) = x" | (yes) b q where "is_queue (hn_pop_stream s) = Some b" "qm_heap (sh_queues w) b = Some q"
    by (cases "is_queue (hn_pop_stream s)"; cases "qm_heap (sh_queues w) (the (is_queue (hn_pop_stream s)))") (auto simp: x drop_pop_stream_def)
  then show ?thesis
  proof cases
    case no
    then show ?thesis by simp
  next
    case yes
    let ?s = "s\<lparr>hn_pop_stream := iq_new\<rparr>" and ?q = "iq_dtor (x_ldb X) q (hn_pop_stream s)"
    have "tracks X d a k (s, w) (?s, set_queue b ?q w)"
    proof (cases "b = a")
      case False
      then show ?thesis by (intro tracks_unseen) (auto simp: yes iq_new_def)
    next
      case True
      show ?thesis unfolding True
      proof (rule tracks_call [OF W])
        show "qm_heap (sh_queues w) a = Some q \<and> hn_chunk_size ?s = hn_chunk_size s" using yes True by simp
        fix c assume c: "conn_sim a s k c" "c_queue c = q"
        then have "c_in c k = (hn_pop_stream s)\<lparr>is_queue := Some 0\<rparr>" using yes True by (simp add: conn_sim_def in_sim_def)
        then have "iq_dtor (x_ldb X) q (c_in c k) = ?q" using yes by (simp add: iq_dtor_moved)
        then show "conn_sim a ?s k c \<and> ?q = q \<or> (\<exists>act ev c'. allowed act c \<and> client_step (x_ldb X) act c = (ev, c') \<and>
            c_queue c' = ?q \<and> conn_sim a ?s k c' \<and> only_client k c c')"
          using c by (intro disjI2 exI [of _ "Drop_in k"]) (auto simp: conn_sim_def in_sim_def only_client_def iq_new_def)
      qed
    qed
    moreover have "snd (drop_pop_stream X others x) = snd (let_go X others b (?s, set_queue b ?q w))"
      using yes by (simp add: x drop_pop_stream_def)
    ultimately show ?thesis using let_go_tracks tracks_trans unfolding x by metis
  qed
qed

text \<open>Destroying the queue opens its journal again; whoever reads or writes it goes on.\<close>

lemma queue_destroy_failed: "queue_destroy F fs q = (Inl e, (fs', q')) \<Longrightarrow> q' = q"
  by (simp add: queue_destroy_def Let_def split: if_split_asm option.split_asm prod.split_asm bool.split_asm)

lemma destroyed_tracks:
  assumes W: "world X d view" and q: "qm_heap (sh_queues w) b = Some q"
    and des: "queue_destroy (x_fs X) fs q = (r, (fs', q'))"
    and w': "qm_heap (sh_queues w') = (qm_heap (sh_queues w))(b \<mapsto> q')" "qm_next (sh_queues w') = qm_next (sh_queues w)"
  shows "tracks X d a k (s, w) (s, w')"
proof (cases "b = a \<and> r = Inr () \<and> \<not> destroy_flag q")
  case False
  have "q' = q" if "b = a"
  proof (cases r)
    case (Inl e)
    then have "queue_destroy (x_fs X) fs q = (Inl e, (fs', q'))" using des by simp
    then show ?thesis by (rule queue_destroy_failed)
  next
    case (Inr u)
    then show ?thesis using that des False by (auto simp: queue_destroy_def)
  qed
  then show ?thesis using w' q by (intro tracks_unseen) auto
next
  case True
  have C: "fs_contract (x_ldb X) (x_fs X) d view" using W by (simp add: world_def)
  show ?thesis
  proof (rule tracksI [OF refl])
    show "lost a w \<Longrightarrow> lost a w'" using True q by (simp add: lost_def)
    fix c assume c: "conn_sim a s k c" "queue_sim X d a w c"
    then have cq: "c_queue c = q" and jp: "journal_path (x_fs X) d (path q)" and inv: "clients_inv (x_ldb X) c"
      using q True by (simp_all add: queue_sim_def)
    obtain i db where q': "q' = q\<lparr>journal := db, path := suffixed (path q) i, destroy_flag := True\<rparr>"
      and gets: "\<And>k. ldb_Get (x_ldb X) k db = ldb_Get (x_ldb X) k (journal q)"
      using destroy_moves [OF C jp, of fs fs' q'] des True by metis
    let ?c = "c\<lparr>c_queue := (c_queue c)\<lparr>journal := db, path := suffixed (path q) i, destroy_flag := True\<rparr>\<rparr>"
    have g: "\<forall>k. ldb_Get (x_ldb X) k db = ldb_Get (x_ldb X) k (journal (c_queue c))" using gets cq by simp
    have "reaches (x_ldb X) c ([] @ [Quiet]) ?c" by (rule reaches.reopen [OF reaches.start g])
    moreover have "clients_inv (x_ldb X) ?c" using reopen_good [OF inv g] by (simp add: good_step_def)
    then have "queue_sim X d a w' ?c"
      using c(2) w' True cq q' suffixed_journal_path [OF fs_contractD(1) [OF C] jp] by (simp add: queue_sim_def)
    moreover have "conn_sim a s k ?c" "only_client k c ?c" using c(1) by (simp_all add: conn_sim_def only_client_def)
    ultimately show "lost a w' \<or> (\<exists>tr c'. reaches (x_ldb X) c tr c' \<and> conn_sim a s k c' \<and> queue_sim X d a w' c' \<and> only_client k c c')" by blast
  qed
qed

text \<open>A step on the map, seen by a handler that does nothing itself.\<close>

definition with_map :: "('fs, 'db, nat) queue_map \<Rightarrow> ('fs, 'db) conn \<Rightarrow> ('fs, 'db) conn" where
  "with_map m = (\<lambda>(s, w). (s, w\<lparr>sh_queues := m\<rparr>))"

lemma with_map_same [simp]: "with_map (sh_queues w) (s, w) = (s, w)"
  by (simp add: with_map_def)

lemma queue_map_remove_tracks:
  assumes W: "world X d view" and rm: "queue_map_remove (x_fs X) owned n b (sh_queues w) = (r, m)"
  shows "tracks X d a k (s, w) (with_map m (s, w))"
proof (cases "qm_heap (sh_queues w) b")
  case None
  then show ?thesis using rm by (auto simp: queue_map_remove_def)
next
  case (Some q)
  obtain r1 fs1 q1 where des: "queue_destroy (x_fs X) (qm_fs (sh_queues w)) q = (r1, (fs1, q1))" by (metis prod.exhaust)
  let ?m = "(sh_queues w)\<lparr>qm_fs := fs1, qm_heap := (qm_heap (sh_queues w))(b \<mapsto> q1)\<rparr>"
  show ?thesis
  proof (cases r1)
    case (Inl e)
    then have "m = ?m" using rm Some des by (simp add: queue_map_remove_def)
    then show ?thesis unfolding with_map_def using destroyed_tracks [OF W Some des] by simp
  next
    case (Inr u)
    let ?m1 = "?m\<lparr>qm_queues := map_erase n (qm_queues (sh_queues w))\<rparr>"
    have rl: "release_queue (x_fs X) owned b ?m1 = (r, m)" using rm Some des Inr by (simp add: queue_map_remove_def)
    have "tracks X d a k (s, w) (s, w\<lparr>sh_queues := ?m1\<rparr>)" by (rule destroyed_tracks [OF W Some des]) simp_all
    moreover have "tracks X d a k (s, w\<lparr>sh_queues := ?m1\<rparr>) (s, w\<lparr>sh_queues := m\<rparr>)"
      using release_queue_frame(1,2) [OF rl] by (intro tracks_freed [where b = b]) simp_all
    ultimately show ?thesis using tracks_trans by (simp add: with_map_def) blast
  qed
qed

lemma queue_map_erase_tracks:
  assumes W: "world X d view" and er: "queue_map_erase (x_ldb X) (x_fs X) owned n recreate (sh_queues w) = (r, m)"
  shows "tracks X d a k (s, w) (with_map m (s, w))"
proof (cases "map_find (qm_queues (sh_queues w)) n")
  case None
  then show ?thesis using er by (auto simp: queue_map_erase_def)
next
  case (Some b)
  obtain r1 m1 where rm: "queue_map_remove (x_fs X) owned n b (sh_queues w) = (r1, m1)" by fastforce
  note t1 = queue_map_remove_tracks [OF W rm, of a k s]
  have "m = m1 \<or> (\<exists>r2. assign_queue (x_ldb X) (x_fs X) n m1 = (r2, m))"
    using er Some rm by (auto simp: queue_map_erase_def split: sum.splits if_splits prod.splits)
  then show ?thesis
  proof
    assume "m = m1"
    then show ?thesis using t1 by simp
  next
    assume "\<exists>r2. assign_queue (x_ldb X) (x_fs X) n m1 = (r2, m)"
    then obtain r2 where "assign_queue (x_ldb X) (x_fs X) n m1 = (r2, m)" ..
    from assign_queue_frame [OF this] have "tracks X d a k (with_map m1 (s, w)) (with_map m (s, w))"
      unfolding with_map_def prod.case by (intro tracks_unseen) simp_all
    with t1 show ?thesis by (rule tracks_trans)
  qed
qed

section \<open>The methods\<close>

text \<open>Methods that touch neither streams nor queues.\<close>

lemma quiet_tracks:
  assumes "hn_chunk_size s' = hn_chunk_size s" "hn_pop_stream s' = hn_pop_stream s" "hn_push_stream s' = hn_push_stream s" "sh_queues w' = sh_queues w"
  shows "tracks X d a k (s, w) (s', w')"
  using assms by (intro tracks_unseen) simp_all

lemmas quiet_defs = handler_end_def handler_error_reply_def handler_error_code_def handler_error_exn_def handler_async_write_def
  log_handler_error_def handler_read_request_def handler_start_def update_stats_def count_dequeued_def handler_write_stats_def
  handler_write_version_def handler_read_chunk_def handler_hang_up_def Let_def

lemma quiet_methods [simp]:
  "tracks X d a k x (snd (handler_end msg x))" "tracks X d a k x (snd (handler_error_reply msg ty x))"
  "tracks X d a k x (snd (handler_error_code X self loc err x))" "tracks X d a k x (snd (handler_error_exn X self loc echo ex x))"
  "tracks X d a k x (snd (handler_read_request X self e x))" "tracks X d a k x (snd (handler_start X self x))"
  "tracks X d a k x (update_stats f x)" "tracks X d a k x (count_dequeued x)" "tracks X d a k x (snd (handler_write_stats X x))"
  "tracks X d a k x (snd (handler_write_version X x))" "tracks X d a k x (snd (handler_read_chunk x))" "tracks X d a k x (snd (handler_hang_up x))"
  by (cases x; auto simp: quiet_defs split: option.splits intro: quiet_tracks)+

lemma try_then_tracks:
  assumes "tracks X d a k x (snd r)" "\<And>e. tracks X d a k (snd r) (snd (on_error e (snd r)))" "tracks X d a k (snd r) (snd (rest (snd r)))"
  shows "tracks X d a k x (snd (try_then r on_error rest))"
  using assms(1) tracks_trans [OF assms(1) assms(2)] tracks_trans [OF assms(1,3)] unfolding try_then_def
  by (auto split: prod.splits sum.splits)

lemma handler_erase_tracks:
  assumes W: "world X d view"
  shows "tracks X d a k x (snd (handler_erase X others recreate msg x))"
proof -
  obtain s w where x: "x = (s, w)" by fastforce
  obtain r m where e: "queue_map_erase (x_ldb X) (x_fs X) (\<lambda>b. others b \<or> owned_by s b) (r_queue (hn_req s)) recreate (sh_queues w) = (r, m)" by fastforce
  note t1 = queue_map_erase_tracks [OF W e, of a k s]
  then show ?thesis
    using e tracks_trans [OF t1 quiet_methods(1) [of X d a k "with_map m (s, w)" msg]]
    by (cases r) (simp_all add: x handler_erase_def with_map_def)
qed

lemma handler_flush_all_tracks:
  assumes W: "world X d view"
  shows "tracks X d a k x (snd (handler_flush_all X others x))"
proof -
  obtain s w where x: "x = (s, w)" by fastforce
  show ?thesis
  proof (cases "qm_queues (sh_queues w)")
    case Nil
    then show ?thesis by (simp add: x handler_flush_all_def)
  next
    case (Cons e es)
    obtain n b where e: "e = (n, b)" by fastforce
    obtain r m where rm: "queue_map_remove (x_fs X) (\<lambda>b. others b \<or> owned_by s b) n b (sh_queues w) = (r, m)" by fastforce
    from queue_map_remove_tracks [OF W rm, of a k s] show ?thesis
      using Cons e rm by (cases r) (simp_all add: x handler_flush_all_def with_map_def)
  qed
qed

text \<open>A set needs room for its chunks, a chunk for its item.\<close>

lemma chunk_count_bound: "unat ((n + default_chunk_size - 1) div default_chunk_size) < 2 ^ 54"
proof -
  have "unat ((n + 1024 - 1) div 1024 :: u64) = unat (n + 1024 - 1) div 1024" by (simp add: unat_div)
  also have "\<dots> < 2 ^ 54" using u64_bound [of "n + 1024 - 1"] by (simp add: div_less_iff_less_mult)
  finally show ?thesis by (simp add: default_chunk_size_def)
qed

lemma push_stream_open_size: "hn_chunk_size (fst (snd (push_stream_open X n sync x))) = hn_chunk_size (fst x)"
proof -
  obtain s w where x: "x = (s, w)" by fastforce
  obtain r w1 where "find_queue X (r_queue (hn_req s)) (s, w) = (r, (s, w1))" by (rule find_queue_same)
  then show ?thesis by (auto simp: x push_stream_open_def split: sum.splits prod.splits)
qed

lemma handler_read_chunk_size [simp]: "hn_chunk_size (fst (snd (handler_read_chunk x))) = hn_chunk_size (fst x)"
  by (cases x) (simp add: handler_read_chunk_def Let_def)

lemma handler_set_tracks:
  assumes W: "world X d view" and room: "roomy a (snd x)"
  shows "tracks X d a k x (snd (handler_set X x))"
proof (rule tracks_sized)
  let ?n = "(r_num_bytes (hn_req (fst x)) + hn_chunk_size (fst x) - 1) div hn_chunk_size (fst x)"
  let ?o = "push_stream_open X ?n (r_set_sync (hn_req (fst x))) x"
  have y: "snd (handler_set X x) = snd ?o \<or> snd (handler_set X x) = snd (handler_read_chunk (snd ?o))"
    by (auto simp: handler_set_def Let_def split: prod.splits sum.splits)
  then show "hn_chunk_size (fst (snd (handler_set X x))) = hn_chunk_size (fst x)"
    using push_stream_open_size [of X ?n "r_set_sync (hn_req (fst x))" x] by auto
  assume "hn_chunk_size (fst x) = default_chunk_size"
  then have t: "tracks X d a k x (snd ?o)"
    using chunk_count_bound [of "r_num_bytes (hn_req (fst x))"] by (intro push_stream_open_tracks [OF W _ room]) simp
  from y show "tracks X d a k x (snd (handler_set X x))"
    by (elim disjE) (simp_all only: t tracks_trans [OF t quiet_methods(11)])
qed

lemma take_chunk_length: "take_chunk n C inp = Inr (Some (chunk, rest)) \<Longrightarrow> length chunk \<le> unat C"
  by (auto simp: take_chunk_def Let_def word_le_nat_alt split: if_splits)

lemma push_stream_write_size: "hn_chunk_size (fst (snd (push_stream_write X others chunk x))) = hn_chunk_size (fst x)"
  by (cases x) (auto simp: push_stream_write_def let_go_def split: option.splits prod.splits sum.splits)

lemma handler_set_on_read_chunk_tracks:
  assumes W: "world X d view" and room: "roomy a (snd x)"
  shows "tracks X d a k x (snd (handler_set_on_read_chunk X others self e x))"
proof (cases e)
  case (Some err)
  then show ?thesis by (simp add: handler_set_on_read_chunk_def)
next
  case None
  obtain s w where x: "x = (s, w)" by fastforce
  let ?t = "take_chunk (r_num_bytes (hn_req s) - oq_tell (hn_push_stream s)) (hn_chunk_size s) (hn_in s)"
  consider (bad) "snd (handler_set_on_read_chunk X others self e x) = x \<or>
      snd (handler_set_on_read_chunk X others self e x) = snd (handler_error_reply ''bad data chunk'' ''CLIENT_ERROR'' x)"
    | (good) chunk rest where "?t = Inr (Some (chunk, rest))"
    using None by (cases ?t; cases "projr ?t") (auto simp: x handler_set_on_read_chunk_def)
  then show ?thesis
  proof cases
    case bad
    then show ?thesis using tracks_refl [of X d a k x] quiet_methods(2) [of X d a k x "''bad data chunk''" "''CLIENT_ERROR''"] by metis
  next
    case good
    let ?s = "s\<lparr>hn_buf := chunk, hn_in := rest\<rparr>"
    have q: "tracks X d a k (s, w) (?s, w)" by (rule quiet_tracks) simp_all
    have pw: "tracks X d a k (?s, w) (snd (push_stream_write X others chunk (?s, w)))"
    proof (rule tracks_sized)
      show "hn_chunk_size (fst (snd (push_stream_write X others chunk (?s, w)))) = hn_chunk_size (fst (?s, w))" by (rule push_stream_write_size)
      assume "hn_chunk_size (fst (?s, w)) = default_chunk_size"
      then have "length chunk \<le> 1024" using take_chunk_length [OF good] by (simp add: default_chunk_size_def)
      then show "tracks X d a k (?s, w) (snd (push_stream_write X others chunk (?s, w)))"
        using room by (intro push_stream_write_tracks [OF W]) (simp_all add: x)
    qed
    have "tracks X d a k y (snd (if oq_tell (hn_push_stream (fst y)) = r_num_bytes (hn_req (fst y))
        then handler_end (''STORED'' @ crlf) (update_stats (\<lambda>st. st\<lparr>items_enqueued := items_enqueued st + 1\<rparr>) y) else handler_read_chunk y))" for y
      by (auto intro: tracks_trans [OF quiet_methods(7) quiet_methods(1)])
    then show ?thesis
      unfolding handler_set_on_read_chunk_def x using None good tracks_trans [OF q pw]
      by (simp add: x) (rule try_then_tracks, simp_all)
  qed
qed

section \<open>The get loop\<close>

lemma finish_item_tracks:
  assumes W: "world X d view" and rest: "\<And>y. tracks X d a k y (snd (rest y))"
  shows "tracks X d a k x (snd (finish_item X others self rest x))"
proof -
  have "tracks X d a k y (snd (rest (count_dequeued y)))" for y using tracks_trans [OF quiet_methods(8) rest] .
  note t = this
  show ?thesis
  proof (cases "r_get_open (hn_req (fst x))")
    case True
    then show ?thesis using t by (simp only: finish_item_def if_True)
  next
    case False
    then show ?thesis unfolding finish_item_def
      by (simp only: if_False) (rule try_then_tracks, rule pop_stream_close_tracks [OF W], rule quiet_methods(4), rule t)
  qed
qed

lemma async_write_tracks: "tracks X d a k (s, w) (handler_async_write bytes kont s, w)"
  by (rule quiet_tracks) (simp_all add: handler_async_write_def)

lemma handler_get_reply_tracks:
  assumes W: "world X d view"
  shows "tracks X d a k x (snd (handler_get_reply X others self x))"
proof -
  obtain s w where x: "x = (s, w)" by fastforce
  let ?s = "s\<lparr>hn_header_buf := value_header (r_queue (hn_req s)) (iq_size (hn_pop_stream s))\<rparr>"
  have q: "tracks X d a k (s, w) (?s, w)" by (rule quiet_tracks) simp_all
  have "tracks X d a k (?s, w) (snd (finish_item X others self
      (\<lambda>(s2, w2). (Inr (), (handler_async_write (hn_header_buf s2 @ hn_buf s2 @ crlf @ ''END'' @ crlf) K_read_request s2, w2))) (?s, w)))"
    by (rule finish_item_tracks [OF W]) (auto intro: async_write_tracks split: prod.splits)
  with tracks_trans [OF q this] tracks_trans [OF q async_write_tracks] show ?thesis by (simp add: x handler_get_reply_def Let_def)
qed

lemma handler_get_next_tracks:
  assumes W: "world X d view"
  shows "tracks X d a k x (snd (handler_get_next X others self x))"
proof -
  obtain r c1 where op: "pop_stream_open X x = (r, c1)" by (metis surj_pair)
  have t1: "tracks X d a k x c1" using pop_stream_open_tracks [OF W, of a k x] op by simp
  have "tracks X d a k c1 (snd (try_then (pop_stream_read X c1) (handler_error_exn X self ''get'' True) (handler_get_reply X others self)))"
    by (rule try_then_tracks) (simp_all add: pop_stream_read_tracks [OF W] handler_get_reply_tracks [OF W])
  note t2 = tracks_trans [OF t1 this] tracks_trans [OF t1 handler_wait_tracks [OF W]] tracks_trans [OF t1 quiet_methods(1)]
  show ?thesis using t1 t2 op by (auto simp: handler_get_next_def Let_def split: sum.splits)
qed

lemma handler_get_tracks:
  assumes W: "world X d view"
  shows "tracks X d a k x (snd (handler_get X others self x))"
  by (auto simp: handler_get_def Let_def handler_get_next_tracks [OF W] intro!: try_then_tracks pop_stream_close_tracks [OF W])

lemma handler_get_on_queue_return_tracks:
  assumes W: "world X d view"
  shows "tracks X d a k x (snd (handler_get_on_queue_return X others self e x))"
  by (simp add: handler_get_on_queue_return_def handler_get_tracks [OF W] split: wait_result.split)

lemma handler_get_on_write_chunk_tracks:
  assumes W: "world X d view"
  shows "tracks X d a k x (snd (handler_get_on_write_chunk X others self e x))"
proof (cases e)
  case (Some err)
  then show ?thesis by (simp add: handler_get_on_write_chunk_def)
next
  case None
  have "tracks X d a k x (snd (finish_item X others self (handler_end (crlf @ ''END'' @ crlf)) x))" by (rule finish_item_tracks [OF W]) simp
  moreover have "tracks X d a k x (snd (try_then (pop_stream_read X x) (handler_error_exn X self ''get_on_write_chunk'' False)
      (\<lambda>(s, w). (Inr (), (handler_async_write (hn_buf s) K_get_on_write_chunk s, w)))))"
    by (rule try_then_tracks) (auto simp: pop_stream_read_tracks [OF W] intro: async_write_tracks split: prod.splits)
  ultimately show ?thesis using None by (simp add: handler_get_on_write_chunk_def)
qed

section \<open>Requests\<close>

lemma handler_route_tracks:
  assumes W: "world X d view" and room: "roomy a (snd x)"
  shows "tracks X d a k x (snd (handler_route X others self x))"
proof -
  have "roomy a (snd (update_stats f x))" for f using room by (cases x) (simp add: update_stats_def roomy_def)
  then have "tracks X d a k x (snd (handler_set X (update_stats f x)))" for f
    using tracks_trans [OF quiet_methods(7) handler_set_tracks [OF W]] by blast
  moreover have "tracks X d a k x (snd (handler_get X others self (update_stats f x)))" for f
    using tracks_trans [OF quiet_methods(7) handler_get_tracks [OF W]] .
  ultimately show ?thesis
    by (simp add: handler_route_def handler_destroy_def handler_flush_def handler_erase_tracks [OF W] handler_flush_all_tracks [OF W]
        split: option.split request_type.split)
qed

lemma handler_parse_request_tracks:
  assumes W: "world X d view" and room: "roomy a (snd x)"
  shows "tracks X d a k x (snd (handler_parse_request X others self e n x))"
proof -
  obtain s w where x: "x = (s, w)" by fastforce
  obtain ok r where p: "request_parse (x_qi X) (take n (hn_in s)) (hn_req s) = (ok, r)" by fastforce
  let ?s = "\<lambda>inp. s\<lparr>hn_buf := take n (hn_in s), hn_req := r, hn_in := inp\<rparr>"
  have q: "tracks X d a k (s, w) (?s inp, w)" for inp by (rule quiet_tracks) simp_all
  have "tracks X d a k (s, w) (snd (handler_route X others self (?s inp, w)))" for inp
    by (rule tracks_trans [OF q handler_route_tracks [OF W]]) (use room in \<open>simp add: x\<close>)
  moreover have "tracks X d a k (s, w) (snd (handler_error_reply [] ''ERROR'' (s\<lparr>hn_buf := take n (hn_in s), hn_req := r\<rparr>, w)))"
    by (rule tracks_trans [OF quiet_tracks quiet_methods(2)]) simp_all
  ultimately show ?thesis by (cases ok; cases e) (simp_all add: x p handler_parse_request_def Let_def)
qed

lemma handler_dtor_tracks:
  assumes W: "world X d view"
  shows "tracks X d a k x (snd (handler_dtor X others x))"
proof -
  let ?x = "update_stats (\<lambda>st. st\<lparr>conns_closed := conns_closed st + 1\<rparr>) x"
  have t1: "tracks X d a k x (snd (drop_push_stream X others ?x))"
    by (rule tracks_trans [OF quiet_methods(7) drop_push_stream_tracks [OF W]])
  have "snd (handler_dtor X others x) = snd (drop_push_stream X others ?x) \<or>
      snd (handler_dtor X others x) = snd (drop_pop_stream X others (snd (drop_push_stream X others ?x)))"
    by (auto simp: handler_dtor_def split: prod.splits sum.splits)
  then show ?thesis by (elim disjE) (simp_all only: t1 tracks_trans [OF t1 drop_pop_stream_tracks [OF W]])
qed

end
