(* ===== verification/Method_Relation.thy ===== *)
theory Method_Relation
  imports Server_Methods
begin

text \<open>
  What all methods of a handler have in common, as a locale: a relation that the calls on a queue and on the map of queues respect is respected by every method that neither waits
  nor erases a queue. It is used for the connections and for the wakeups of the server.
\<close>

text \<open>
  A relation between what a method finds and what it leaves is one that all methods respect if it is reflexive and transitive, does not look at what the handlers keep to
  themselves, and is respected by the map of queues and by the calls on a queue; \<open>step\<close> relates the queue before and after such a call.
\<close>

definition same_counts :: "('fs, 'db) shared \<Rightarrow> ('fs, 'db) shared \<Rightarrow> bool" where
  "same_counts w w' \<longleftrightarrow> conns_opened (sh_stats w') = conns_opened (sh_stats w) \<and> conns_closed (sh_stats w') = conns_closed (sh_stats w)"

lemma set_queue_stats [simp]: "sh_stats (set_queue a q w) = sh_stats w"
  by (simp add: set_queue_def)

locale method_relation =
  fixes X :: "('fs, 'db) externs"
    and R :: "('fs, 'db) conn \<Rightarrow> ('fs, 'db) conn \<Rightarrow> bool"
    and step :: "('db, nat) queue \<Rightarrow> ('db, nat) queue \<Rightarrow> bool"
  assumes refl_rel: "R x x"
    and trans_rel: "R x y \<Longrightarrow> R y z \<Longrightarrow> R x z"
    and quiet_rel: "sh_queues w' = sh_queues w \<Longrightarrow> same_counts w w' \<Longrightarrow> (hn_pending s' = P_wait \<longrightarrow> hn_pending s = P_wait) \<Longrightarrow> R (s, w) (s', w')"
    and call_rel: "qm_heap (sh_queues w) a = Some q \<Longrightarrow> step q q' \<Longrightarrow> hn_pending s' = hn_pending s \<Longrightarrow> R (s, w) (s', set_queue a q' w)"
    and release_rel: "release_queue (x_fs X) owned a (sh_queues w) = (r, m) \<Longrightarrow> R (s, w) (s, w\<lparr>sh_queues := m\<rparr>)"
    and lookup_rel: "queue_map_get (x_ldb X) (x_fs X) n (sh_queues w) = (r', m) \<Longrightarrow> R (s, w) (s, w\<lparr>sh_queues := m\<rparr>)"
    and iq_open_step: "iq_open a q i = (rb, (q', i')) \<Longrightarrow> step q q'"
    and iq_close_step: "iq_close (x_ldb X) e q i = (r, (q', i')) \<Longrightarrow> step q q'"
    and iq_dtor_step: "step q (iq_dtor (x_ldb X) q i)"
    and oq_open_step: "oq_open a c b q p = (r, (q', p')) \<Longrightarrow> step q q'"
    and oq_write_step: "oq_write (x_ldb X) v q p = (r, (q', p')) \<Longrightarrow> step q q'"
    and oq_dtor_step: "step q (oq_dtor (x_ldb X) q p)"
begin

lemma let_go_rel: "R x (snd (let_go X others a x))"
proof -
  obtain s w where x: "x = (s, w)" by fastforce
  obtain r m where "release_queue (x_fs X) (\<lambda>b. others b \<or> owned_by s b) a (sh_queues w) = (r, m)" by fastforce
  then show ?thesis using release_rel by (simp add: x let_go_def)
qed

lemma find_queue_rel: "R x (snd (find_queue X n x))"
proof -
  obtain s w where x: "x = (s, w)" by fastforce
  obtain r m where g: "queue_map_get (x_ldb X) (x_fs X) n (sh_queues w) = (r, m)" by fastforce
  then show ?thesis using lookup_rel [OF g] by (auto simp: x find_queue_def split: sum.split option.split)
qed

text \<open>The streams.\<close>

lemma pop_stream_read_rel: "R x (snd (pop_stream_read X x))"
  by (cases x) (auto simp: pop_stream_read_def same_counts_def refl_rel intro!: quiet_rel split: option.split prod.split)

lemma pop_stream_close_rel: "R x (snd (pop_stream_close X others erase x))"
proof -
  obtain s w where x: "x = (s, w)" by fastforce
  have "R (s, w) (snd (let_go X others a (s\<lparr>hn_pop_stream := p\<rparr>, set_queue a q' w)))" "R (s, w) (s\<lparr>hn_pop_stream := p\<rparr>, set_queue a q' w)"
    if "qm_heap (sh_queues w) a = Some q" "iq_close (x_ldb X) erase q (hn_pop_stream s) = (r, (q', p))" for a q r q' p
  proof -
    show k: "R (s, w) (s\<lparr>hn_pop_stream := p\<rparr>, set_queue a q' w)" by (rule call_rel [OF that(1) iq_close_step [OF that(2)]]) simp
    show "R (s, w) (snd (let_go X others a (s\<lparr>hn_pop_stream := p\<rparr>, set_queue a q' w)))" by (rule trans_rel [OF k let_go_rel])
  qed
  then show ?thesis by (auto simp: x pop_stream_close_def refl_rel split: option.split prod.split sum.split)
qed

lemma push_stream_write_rel: "R x (snd (push_stream_write X others chunk x))"
proof -
  obtain s w where x: "x = (s, w)" by fastforce
  have "R (s, w) (snd (let_go X others a (s\<lparr>hn_push_stream := p\<rparr>, set_queue a q' w)))" "R (s, w) (s\<lparr>hn_push_stream := p\<rparr>, set_queue a q' w)"
    if "qm_heap (sh_queues w) a = Some q" "oq_write (x_ldb X) chunk q (hn_push_stream s) = (r, (q', p))" for a q r q' p
  proof -
    show k: "R (s, w) (s\<lparr>hn_push_stream := p\<rparr>, set_queue a q' w)" by (rule call_rel [OF that(1) oq_write_step [OF that(2)]]) simp
    show "R (s, w) (snd (let_go X others a (s\<lparr>hn_push_stream := p\<rparr>, set_queue a q' w)))" by (rule trans_rel [OF k let_go_rel])
  qed
  then show ?thesis by (auto simp: x push_stream_write_def refl_rel split: option.split prod.split sum.split)
qed

lemma pop_stream_open_rel: "R x (snd (pop_stream_open X x))"
proof -
  obtain s w where x: "x = (s, w)" by fastforce
  obtain r w1 where f: "find_queue X (r_queue (hn_req s)) (s, w) = (r, (s, w1))" by (rule find_queue_same)
  have k: "R (s, w) (s, w1)" using find_queue_rel [of "(s, w)" "r_queue (hn_req s)"] f by simp
  have "R (s, w) (s\<lparr>hn_pop_stream := p\<rparr>, set_queue a q' w1)"
    if "r = Inr (a, q)" "iq_open a q (hn_pop_stream s) = (r1, (q', p))" for a q r1 q' p
  proof (rule trans_rel [OF k call_rel])
    show "qm_heap (sh_queues w1) a = Some q" using find_queue_frame(4) [OF f] that(1) by simp
  qed (use iq_open_step [OF that(2)] in simp_all)
  then show ?thesis using f k by (auto simp: x pop_stream_open_def split: sum.split prod.split)
qed

lemma push_stream_open_rel: "R x (snd (push_stream_open X n sync x))"
proof -
  obtain s w where x: "x = (s, w)" by fastforce
  obtain r w1 where f: "find_queue X (r_queue (hn_req s)) (s, w) = (r, (s, w1))" by (rule find_queue_same)
  have k: "R (s, w) (s, w1)" using find_queue_rel [of "(s, w)" "r_queue (hn_req s)"] f by simp
  have "R (s, w) (s\<lparr>hn_push_stream := p\<rparr>, set_queue a q' w1)"
    if "r = Inr (a, q)" "oq_open a n sync q (hn_push_stream s) = (r1, (q', p))" for a q r1 q' p
  proof (rule trans_rel [OF k call_rel])
    show "qm_heap (sh_queues w1) a = Some q" using find_queue_frame(4) [OF f] that(1) by simp
  qed (use oq_open_step [OF that(2)] in simp_all)
  then show ?thesis using f k by (auto simp: x push_stream_open_def split: sum.split prod.split)
qed

lemma drop_push_stream_rel: "R x (snd (drop_push_stream X others x))"
proof -
  obtain s w where x: "x = (s, w)" by fastforce
  have "R (s, w) (snd (let_go X others a (s\<lparr>hn_push_stream := oq_new\<rparr>, set_queue a (oq_dtor (x_ldb X) q (hn_push_stream s)) w)))"
    if "qm_heap (sh_queues w) a = Some q" for a q by (rule trans_rel [OF call_rel [OF that oq_dtor_step] let_go_rel]) simp
  then show ?thesis by (auto simp: x drop_push_stream_def refl_rel split: option.split)
qed

lemma drop_pop_stream_rel: "R x (snd (drop_pop_stream X others x))"
proof -
  obtain s w where x: "x = (s, w)" by fastforce
  have "R (s, w) (snd (let_go X others a (s\<lparr>hn_pop_stream := iq_new\<rparr>, set_queue a (iq_dtor (x_ldb X) q (hn_pop_stream s)) w)))"
    if "qm_heap (sh_queues w) a = Some q" for a q by (rule trans_rel [OF call_rel [OF that iq_dtor_step] let_go_rel]) simp
  then show ?thesis by (auto simp: x drop_pop_stream_def refl_rel split: option.split)
qed

text \<open>The methods that neither wait nor erase.\<close>

lemma quiet_methods_rel:
  "R x (snd (handler_end msg x))" "R x (snd (handler_error_reply msg ty x))"
  "R x (snd (handler_error_code X self loc err x))" "R x (snd (handler_error_exn X self loc echo ex x))"
  "R x (snd (handler_read_request X self e x))" "R x (count_dequeued x)" "R x (snd (handler_write_stats X x))"
  "R x (snd (handler_write_version X x))" "R x (snd (handler_read_chunk x))" "R x (snd (handler_hang_up x))"
  by (cases x; auto simp: quiet_defs same_counts_def refl_rel split: option.splits intro!: quiet_rel)+

lemma update_stats_rel:
  assumes "\<And>st. conns_opened (f st) = conns_opened st \<and> conns_closed (f st) = conns_closed st"
  shows "R x (update_stats f x)"
  using assms by (cases x) (auto simp: update_stats_def same_counts_def intro!: quiet_rel)

lemma async_write_rel: "R (s, w) (handler_async_write bytes kont s, w)"
  by (rule quiet_rel) (simp_all add: handler_async_write_def same_counts_def)

lemma try_then_rel:
  assumes "R x (snd r)" "\<And>e. R (snd r) (snd (on_error e (snd r)))" "R (snd r) (snd (rest (snd r)))"
  shows "R x (snd (try_then r on_error rest))"
  using assms(1) trans_rel [OF assms(1,2)] trans_rel [OF assms(1,3)] unfolding try_then_def by (auto split: prod.splits sum.splits)

lemma handler_set_rel: "R x (snd (handler_set X x))"
proof -
  let ?o = "push_stream_open X ((r_num_bytes (hn_req (fst x)) + hn_chunk_size (fst x) - 1) div hn_chunk_size (fst x)) (r_set_sync (hn_req (fst x))) x"
  have "snd (handler_set X x) = snd ?o \<or> snd (handler_set X x) = snd (handler_read_chunk (snd ?o))"
    by (auto simp: handler_set_def Let_def split: prod.splits sum.splits)
  then show ?thesis by (elim disjE) (simp_all only: push_stream_open_rel trans_rel [OF push_stream_open_rel quiet_methods_rel(9)])
qed

lemma handler_set_on_read_chunk_rel: "R x (snd (handler_set_on_read_chunk X others self e x))"
proof (cases e)
  case (Some err)
  then show ?thesis by (simp add: handler_set_on_read_chunk_def quiet_methods_rel)
next
  case None
  obtain s w where x: "x = (s, w)" by fastforce
  have q: "R (s, w) (s\<lparr>hn_buf := chunk, hn_in := rest\<rparr>, w)" for chunk rest by (rule quiet_rel) (simp_all add: same_counts_def)
  have st: "R y (update_stats (\<lambda>st. st\<lparr>items_enqueued := items_enqueued st + 1\<rparr>) y)" for y by (rule update_stats_rel) simp
  have e: "R y (snd (if oq_tell (hn_push_stream (fst y)) = r_num_bytes (hn_req (fst y))
      then handler_end (''STORED'' @ crlf) (update_stats (\<lambda>st. st\<lparr>items_enqueued := items_enqueued st + 1\<rparr>) y) else handler_read_chunk y))" for y
    using trans_rel [OF st quiet_methods_rel(1)] by (auto simp: quiet_methods_rel)
  have "R (s, w) (snd (try_then (push_stream_write X others chunk (s\<lparr>hn_buf := chunk, hn_in := rest\<rparr>, w)) (handler_error_exn X self ''set_on_read_chunk'' True)
     (\<lambda>c. if oq_tell (hn_push_stream (fst c)) = r_num_bytes (hn_req (fst c))
        then handler_end (''STORED'' @ crlf) (update_stats (\<lambda>st. st\<lparr>items_enqueued := items_enqueued st + 1\<rparr>) c) else handler_read_chunk c)))" for chunk rest
    by (rule try_then_rel, rule trans_rel [OF q push_stream_write_rel], rule quiet_methods_rel(4), rule e)
  then show ?thesis using None by (auto simp: x handler_set_on_read_chunk_def quiet_methods_rel refl_rel split: sum.split option.split)
qed

lemma finish_item_rel:
  assumes rest: "\<And>y. R y (snd (rest y))"
  shows "R x (snd (finish_item X others self rest x))"
proof -
  have t: "R y (snd (rest (count_dequeued y)))" for y using trans_rel [OF quiet_methods_rel(6) rest] .
  show ?thesis
  proof (cases "r_get_open (hn_req (fst x))")
    case True
    then show ?thesis using t by (simp only: finish_item_def if_True)
  next
    case False
    then show ?thesis unfolding finish_item_def
      by (simp only: if_False) (rule try_then_rel, rule pop_stream_close_rel, rule quiet_methods_rel(4), rule t)
  qed
qed

lemma handler_get_reply_rel: "R x (snd (handler_get_reply X others self x))"
proof -
  obtain s w where x: "x = (s, w)" by fastforce
  let ?s = "s\<lparr>hn_header_buf := value_header (r_queue (hn_req s)) (iq_size (hn_pop_stream s))\<rparr>"
  have q: "R (s, w) (?s, w)" by (rule quiet_rel) (simp_all add: same_counts_def)
  have "R (?s, w) (snd (finish_item X others self
      (\<lambda>(s2, w2). (Inr (), (handler_async_write (hn_header_buf s2 @ hn_buf s2 @ crlf @ ''END'' @ crlf) K_read_request s2, w2))) (?s, w)))"
    by (rule finish_item_rel) (auto intro: async_write_rel split: prod.splits)
  with trans_rel [OF q this] trans_rel [OF q async_write_rel] show ?thesis by (simp add: x handler_get_reply_def Let_def refl_rel)
qed

lemma handler_get_on_write_chunk_rel: "R x (snd (handler_get_on_write_chunk X others self e x))"
proof (cases e)
  case (Some err)
  then show ?thesis by (simp add: handler_get_on_write_chunk_def quiet_methods_rel)
next
  case None
  have "R x (snd (finish_item X others self (handler_end (crlf @ ''END'' @ crlf)) x))" by (rule finish_item_rel) (rule quiet_methods_rel)
  moreover have "R x (snd (try_then (pop_stream_read X x) (handler_error_exn X self ''get_on_write_chunk'' False)
      (\<lambda>(s, w). (Inr (), (handler_async_write (hn_buf s) K_get_on_write_chunk s, w)))))"
    by (rule try_then_rel) (auto simp: pop_stream_read_rel quiet_methods_rel intro: async_write_rel split: prod.splits)
  ultimately show ?thesis using None by (simp add: handler_get_on_write_chunk_def)
qed

end

end
