(* ===== verification/Handler_Get.thy ===== *)
theory Handler_Get
  imports Handler_Set
begin

text \<open>
  The get loop of the handler: a client that asks for an item gets its size, its bytes and the end mark, and the item is erased, put
  back or kept open as the options say.
\<close>

section \<open>Where a reader is\<close>

definition chunk_total :: "'db leveldb \<Rightarrow> 'db \<Rightarrow> u64 \<Rightarrow> nat" where
  "chunk_total L db i = (case map_option classify (get_item L db i) of Some (Multi h) \<Rightarrow> unat (h_end h - h_beg h) | _ \<Rightarrow> 1)"

lemma iq_inv_position:
  assumes s: "iq_inv L db s got" "got \<noteq> []" and ok: "item_ok L db hi (is_id s)" and x: "item_of L db (is_id s) = Some x" "length x < 2 ^ 64"
  shows "is_tell s = word_of_nat (length (concat got))" "iq_size s = word_of_nat (length x)" "\<exists>y. x = concat got @ y"
    "length got \<le> chunk_total L db (is_id s)" "is_tell s = iq_size s \<longleftrightarrow> concat got = x"
proof -
  have "is_tell s = word_of_nat (length (concat got)) \<and> iq_size s = word_of_nat (length x) \<and> (\<exists>y. x = concat got @ y) \<and>
    length got \<le> chunk_total L db (is_id s)"
  proof (cases "map_option classify (get_item L db (is_id s))")
    case (Some v)
    show ?thesis
    proof (cases v)
      case (Multi h)
      obtain cs k where cs: "chunks_of L db h = Some cs" and k: "k \<le> length cs" "got = take k cs" "s = iq_at h cs k s"
        using s Some Multi by (auto simp: iq_inv_def)
      have h: "header_ok L db hi h" using ok Some Multi by (simp add: item_ok_def)
      then have sz: "length (concat cs) = unat (h_size h)" using cs by (simp add: header_ok_def)
      have xc: "x = concat cs" using x(1) Some Multi cs by (simp add: item_of_def)
      have "is_tell s = word_of_nat (length (concat got))" "is_header s = h" by (subst k(3), simp add: iq_at_def k(2))+
      moreover have "x = concat got @ concat (drop k cs)" unfolding xc k(2) by (metis append_take_drop_id concat_append)
      moreover have "length got \<le> chunk_total L db (is_id s)" unfolding chunk_total_def Some Multi using k cs by (simp add: chunks_of_eq)
      ultimately show ?thesis using sz xc by (auto simp: iq_size_def)
    next
      case (Single y)
      then show ?thesis using s x Some by (auto simp: iq_inv_def item_of_def iq_size_def chunk_total_def)
    next
      case Corrupt
      then show ?thesis using ok Some by (simp add: item_ok_def)
    qed
  qed (use ok in \<open>simp add: item_ok_def\<close>)
  then show pos: "is_tell s = word_of_nat (length (concat got))" "iq_size s = word_of_nat (length x)" "\<exists>y. x = concat got @ y"
    "length got \<le> chunk_total L db (is_id s)" by blast+
  obtain y where y: "x = concat got @ y" using pos(3) by blast
  then have "length (concat got) < 2 ^ 64" using x(2) by simp
  then have "is_tell s = iq_size s \<longleftrightarrow> length (concat got) = length x"
    unfolding pos word_unat_eq_iff using x(2) by (simp add: unat_of_small)
  then show "is_tell s = iq_size s \<longleftrightarrow> concat got = x" using y by auto
qed

section \<open>Ending an item\<close>

lemma pop_stream_close_mapped:
  assumes "is_queue (hn_pop_stream s) = Some a" "qm_heap (sh_queues w) a = Some q" "mapped a w"
  shows "pop_stream_close X others erase (s, w) = (case iq_close (x_ldb X) erase q (hn_pop_stream s) of
     (r, (q1, p)) \<Rightarrow> (r, (s\<lparr>hn_pop_stream := p\<rparr>, set_queue a q1 w)))"
  using assms by (auto simp: pop_stream_close_def let_go_mapped split: prod.splits sum.splits)

lemma failed_delete_inv:
  assumes "failed_write_invisible L" "queue_inv L Op W q" "ldb_Write L ks (journal q) = (False, db)"
  shows "queue_inv L Op W (q\<lparr>journal := db\<rparr>)" "queue_abs L Op (q\<lparr>journal := db\<rparr>) = queue_abs L Op q"
proof -
  have gets: "ldb_Get L k db = ldb_Get L k (journal q)" for k using assms(1,3) unfolding failed_write_invisible_def by blast
  note same = same_gets [OF gets]
  have "stored L db \<subseteq> Collect is_key_slice" using queue_inv_stored [OF assms(2)] by (simp add: same)
  from queue_inv_journal [OF assms(2) same(1) this subset_refl]
  show "queue_inv L Op W (q\<lparr>journal := db\<rparr>)" "queue_abs L Op (q\<lparr>journal := db\<rparr>) = queue_abs L Op q" by simp_all
qed

text \<open>What has become of the item at the end of a get with its options.\<close>

definition item_after :: "'db leveldb \<Rightarrow> u64 set \<Rightarrow> u64 set \<Rightarrow> u64 \<Rightarrow> request \<Rightarrow> (u64, string) fifo \<Rightarrow> ('db, 'cb) queue \<Rightarrow> iqstream \<Rightarrow> nat \<Rightarrow> bool" where
  "item_after L Op W i r f q p a \<longleftrightarrow>
     (if r_get_open r then queue_inv L Op W q \<and> queue_abs L Op q = f \<and> is_queue p = Some a \<and> is_id p = i
      else queue_inv L (Op - {i}) W q \<and> queue_abs L (Op - {i}) q = (if r_get_peek r then fifo_return i f else fifo_erase i f) \<and> is_queue p = None)"

text \<open>Closing fails only when the journal does not take the deletion; the item stays popped.\<close>

lemma finish_item_cases:
  assumes L: "journal_contract (x_ldb X)" and F: "failed_write_invisible (x_ldb X)" and inv: "queue_inv (x_ldb X) Op W q"
    and p: "is_queue (hn_pop_stream s) = Some a" "is_id (hn_pop_stream s) = i" "i \<in> Op"
    and h: "iq_inv (x_ldb X) (journal q) (hn_pop_stream s) got"
    and q: "qm_heap (sh_queues w) a = Some q" "mapped a w"
  obtains (finished) p1 q1 where "finish_item X others self rest (s, w) = rest (count_dequeued (s\<lparr>hn_pop_stream := p1\<rparr>, set_queue a q1 w))"
      "item_after (x_ldb X) Op W i (hn_req s) (queue_abs (x_ldb X) Op q) q1 p1 a"
  | (failed) q1 w1 where "finish_item X others self rest (s, w) = (Inr (), (s, w1))"
      "qm_heap (sh_queues w1) a = Some q1" "queue_inv (x_ldb X) Op W q1" "queue_abs (x_ldb X) Op q1 = queue_abs (x_ldb X) Op q"
      "\<not> r_get_open (hn_req s)" "\<not> r_get_peek (hn_req s)" "sh_stats w1 = sh_stats w"
proof (cases "r_get_open (hn_req s)")
  case True
  have "s\<lparr>hn_pop_stream := hn_pop_stream s\<rparr> = s" by simp
  moreover have "set_queue a q w = w" using q(1) by (simp add: set_queue_def fun_upd_idem)
  ultimately show thesis
    using finished [of "hn_pop_stream s" q] True inv p by (simp add: finish_item_def item_after_def)
next
  case False
  let ?L = "x_ldb X" and ?p = "hn_pop_stream s" and ?e = "\<not> r_get_peek (hn_req s)"
  obtain r q1 where pe: "pop_end ?L ?e i (is_header ?p) q = (r, q1)" by fastforce
  have fin: "finish_item X others self rest (s, w) = try_then (pop_stream_close X others ?e (s, w))
      (handler_error_exn X self ''get_on_write_chunk'' False) (\<lambda>c1. rest (count_dequeued c1))"
    using False by (simp add: finish_item_def)
  have cl: "pop_stream_close X others ?e (s, w) = (case r of
      Inl err \<Rightarrow> (Inl err, (s, set_queue a q1 w)) | Inr _ \<Rightarrow> (Inr (), (s\<lparr>hn_pop_stream := ?p\<lparr>is_queue := None\<rparr>\<rparr>, set_queue a q1 w)))"
    using p pe by (simp add: pop_stream_close_mapped [OF p(1) q] iq_close_def split: sum.split)
  have eh: "erase_header ?L (journal q) i (is_header ?p)" using iq_inv_erase_header [OF h] p(2) by simp
  show thesis
  proof (cases r)
    case (Inr u)
    have "item_after ?L Op W i (hn_req s) (queue_abs ?L Op q) q1 (?p\<lparr>is_queue := None\<rparr>) a"
    proof (cases "r_get_peek (hn_req s)")
      case True
      then show ?thesis using pop_return_refines [OF inv p(3)] pe False by (simp add: item_after_def)
    next
      case np: False
      have "pop_end ?L True i (is_header ?p) q = (Inr (), q1)" using pe Inr np by simp
      from pop_erase_refines [OF L inv p(3) eh this] np False show ?thesis by (simp add: item_after_def)
    qed
    moreover have "finish_item X others self rest (s, w) = rest (count_dequeued (s\<lparr>hn_pop_stream := ?p\<lparr>is_queue := None\<rparr>\<rparr>, set_queue a q1 w))"
      using Inr by (simp add: fin cl try_then_def)
    ultimately show thesis using finished by blast
  next
    case (Inl err)
    have np: "\<not> r_get_peek (hn_req s)" using pe Inl pop_return_refines(1) [OF inv p(3)] by (cases "r_get_peek (hn_req s)") auto
    then have pe: "pop_end ?L True i (is_header ?p) q = (Inl err, q1)" using pe Inl by simp
    obtain db where e: "err = Io_error" "q1 = q\<lparr>journal := db\<rparr>" and wr: "ldb_Write ?L (map key_slice (erase_keys i (is_header ?p))) (journal q) = (False, db)"
      using L queue_inv_stored [OF inv] pe by (rule pop_erase_failed)
    note qi = failed_delete_inv [OF F inv wr]
    have cl: "pop_stream_close X others True (s, w) = (Inl Io_error, (s, set_queue a q1 w))" using cl Inl e(1) np by simp
    show thesis
      by (rule failed [of "log_handler_error X self ''get_on_write_chunk'' (x_message X Io_error) (set_queue a q1 w)" q1])
        (use Inl e qi False np in \<open>simp_all add: fin cl try_then_def handler_error_exn_def log_handler_error_def\<close>)
  qed
qed

section \<open>The loop\<close>

text \<open>One completion of the write of a chunk, and \<open>n\<close> of them, as long as the handler is in the loop.\<close>

definition get_turn :: "('fs, 'db) externs \<Rightarrow> (nat \<Rightarrow> bool) \<Rightarrow> nat \<Rightarrow> ('fs, 'db) conn \<Rightarrow> (('fs, 'db) conn, unit) outcome" where
  "get_turn X others self = (\<lambda>(s, w). handler_get_on_write_chunk X others self None (s\<lparr>hn_pending := P_none\<rparr>, w))"

fun get_run :: "('fs, 'db) externs \<Rightarrow> (nat \<Rightarrow> bool) \<Rightarrow> nat \<Rightarrow> nat \<Rightarrow> ('fs, 'db) conn \<Rightarrow> (('fs, 'db) conn, unit) outcome" where
  "get_run X others self 0 c = (Inr (), c)"
| "get_run X others self (Suc n) c =
     (if hn_pending (fst c) = P_write K_get_on_write_chunk
      then (case get_turn X others self c of (Inl e, c1) \<Rightarrow> (Inl e, c1) | (Inr _, c1) \<Rightarrow> get_run X others self n c1)
      else (Inr (), c))"

text \<open>
  How a get of the item \<open>x\<close> with the ticket \<open>i\<close> ends; \<open>f\<close> is the queue after the pop. Either the client has the whole answer, or the journal did not
  take the deletion and the connection is closed.
\<close>

definition get_done :: "('fs, 'db) externs \<Rightarrow> u64 set \<Rightarrow> u64 set \<Rightarrow> nat \<Rightarrow> u64 \<Rightarrow> string \<Rightarrow> string \<Rightarrow> u64 \<Rightarrow> request \<Rightarrow> (u64, string) fifo \<Rightarrow> ('fs, 'db) conn \<Rightarrow> bool" where
  "get_done X Op W a i x out dequeued r f = (\<lambda>(s', w'). \<exists>q'. qm_heap (sh_queues w') a = Some q' \<and>
     (hn_pending s' = P_write K_read_request \<and>
        hn_out s' = out @ value_header (r_queue r) (word_of_nat (length x)) @ x @ crlf @ ''END'' @ crlf \<and>
        items_dequeued (sh_stats w') = dequeued + 1 \<and> item_after (x_ldb X) Op W i r f q' (hn_pop_stream s') a
      \<or> hn_pending s' = P_none \<and> \<not> r_get_open r \<and> \<not> r_get_peek r \<and> items_dequeued (sh_stats w') = dequeued \<and>
        queue_inv (x_ldb X) Op W q' \<and> queue_abs (x_ldb X) Op q' = f \<and> is_queue (hn_pop_stream s') = Some a \<and> is_id (hn_pop_stream s') = i))"

text \<open>The loop between two completions: the client has got the header and the chunks \<open>got\<close>.\<close>

definition get_reading :: "('fs, 'db) externs \<Rightarrow> u64 set \<Rightarrow> u64 set \<Rightarrow> nat \<Rightarrow> u64 \<Rightarrow> string \<Rightarrow> string list \<Rightarrow> string \<Rightarrow> ('db, nat) queue \<Rightarrow> ('fs, 'db) conn \<Rightarrow> bool" where
  "get_reading X Op W a i x got out q = (\<lambda>(s, w). let p = hn_pop_stream s in
     queue_inv (x_ldb X) Op W q \<and> i \<in> Op \<and> is_queue p = Some a \<and> is_id p = i \<and> qm_heap (sh_queues w) a = Some q \<and> mapped a w \<and>
     item_of (x_ldb X) (journal q) i = Some x \<and> length x < 2 ^ 64 \<and> iq_inv (x_ldb X) (journal q) p got \<and> got \<noteq> [] \<and>
     hn_out s = out @ value_header (r_queue (hn_req s)) (word_of_nat (length x)) @ concat got)"

lemma item_not_over:
  assumes "item_ok L (journal q) hi (is_id s)" "is_queue s \<noteq> None" "iq_inv L (journal q) s got" "item_of L (journal q) (is_id s) = Some x" "concat got \<noteq> x"
  obtains r s' where "iq_read L q res s = (Inr (), (r, s'))" "iq_inv L (journal q) s' (got @ [r])" "is_queue s' = is_queue s" "is_id s' = is_id s"
  using iq_inv_read [OF assms(2,3,1), of res] assms(4,5) by auto

lemma get_turn_cases:
  assumes L: "journal_contract (x_ldb X)" and F: "failed_write_invisible (x_ldb X)" and at: "get_reading X Op W a i x got out q (s, w)"
  obtains (ended) c1 where "get_turn X others self (s, w) = (Inr (), c1)" "hn_pending (fst c1) \<noteq> P_write K_get_on_write_chunk"
      "get_done X Op W a i x out (items_dequeued (sh_stats w)) (hn_req s) (queue_abs (x_ldb X) Op q) c1"
  | (continued) s1 w1 r where "get_turn X others self (s, w) = (Inr (), (s1, w1))" "hn_pending s1 = P_write K_get_on_write_chunk"
      "get_reading X Op W a i x (got @ [r]) out q (s1, w1)" "hn_req s1 = hn_req s" "sh_stats w1 = sh_stats w"
proof -
  let ?L = "x_ldb X" and ?s = "s\<lparr>hn_pending := P_none\<rparr>" and ?p = "hn_pop_stream s"
  have r: "queue_inv ?L Op W q" "is_queue ?p = Some a" "is_id ?p = i" "i \<in> Op" "iq_inv ?L (journal q) ?p got"
    "qm_heap (sh_queues w) a = Some q" "mapped a w" "item_of ?L (journal q) i = Some x" "length x < 2 ^ 64" "got \<noteq> []"
    "hn_out s = out @ value_header (r_queue (hn_req s)) (word_of_nat (length x)) @ concat got"
    using at by (simp_all add: get_reading_def Let_def)
  have ok: "item_ok ?L (journal q) (key_id (chunks_head q)) (is_id ?p)" using queue_inv_item_ok [OF r(1,4)] r(3) by simp
  note pos = iq_inv_position [OF r(5,10) ok _ r(9), unfolded r(3), OF r(8)]
  show thesis
  proof (cases "concat got = x")
    case True
    have turn: "get_turn X others self (s, w) = finish_item X others self (handler_end (crlf @ ''END'' @ crlf)) (?s, w)"
      using pos(5) True by (simp add: get_turn_def handler_get_on_write_chunk_def)
    have s: "is_queue (hn_pop_stream ?s) = Some a" "is_id (hn_pop_stream ?s) = i" "iq_inv ?L (journal q) (hn_pop_stream ?s) got" using r by simp_all
    from L F r(1) s(1,2) r(4) s(3) r(6,7) show thesis
    proof (cases rule: finish_item_cases [where rest = "handler_end (crlf @ ''END'' @ crlf)" and others = others and self = self])
      case (finished p1 q1)
      show thesis
        by (rule ended [of "snd (get_turn X others self (s, w))"])
          (use finished(2) r(11) True in \<open>simp_all add: turn [unfolded finished(1)] get_done_def handler_end_def handler_async_write_def count_dequeued_def update_stats_def\<close>)
    next
      case (failed q1 w1)
      show thesis
        by (rule ended [OF turn [unfolded failed(1)]]) (use failed r in \<open>simp_all add: get_done_def\<close>)
    qed
  next
    case False
    obtain res p1 where rd: "iq_read ?L q (hn_buf s) ?p = (Inr (), (res, p1))" and p1: "iq_inv ?L (journal q) p1 (got @ [res])"
      "is_queue p1 = is_queue ?p" "is_id p1 = is_id ?p"
      using ok _ r(5) by (rule item_not_over [where res = "hn_buf s" and x = x]) (use r False in auto)
    have turn: "get_turn X others self (s, w) =
        (Inr (), (handler_async_write res K_get_on_write_chunk (?s\<lparr>hn_buf := res, hn_pop_stream := p1\<rparr>), w))"
      using pos(5) False r(2,6) rd
      by (simp add: get_turn_def handler_get_on_write_chunk_def pop_stream_read_def try_then_def)
    show thesis
      by (rule continued [OF turn]) (use r p1 in \<open>simp_all add: handler_async_write_def get_reading_def Let_def\<close>)
  qed
qed

lemma get_run_done:
  assumes L: "journal_contract (x_ldb X)" and F: "failed_write_invisible (x_ldb X)"
    and "get_reading X Op W a i x got out q (s, w)" "hn_pending s = P_write K_get_on_write_chunk"
  shows "\<exists>n c. get_run X others self n (s, w) = (Inr (), c) \<and>
    get_done X Op W a i x out (items_dequeued (sh_stats w)) (hn_req s) (queue_abs (x_ldb X) Op q) c"
  using assms(3,4)
proof (induction "chunk_total (x_ldb X) (journal q) i - length got" arbitrary: got s w rule: less_induct)
  case less
  from L F less.prems(1) show ?case
  proof (cases rule: get_turn_cases [where others = others and self = self])
    case (ended c1)
    then have "get_run X others self 1 (s, w) = (Inr (), c1)" using less.prems(2) by simp
    then show ?thesis using ended(3) by blast
  next
    case (continued s1 w1 r)
    have p: "iq_inv (x_ldb X) (journal q) (hn_pop_stream s1) (got @ [r])" "is_id (hn_pop_stream s1) = i" "i \<in> Op" "queue_inv (x_ldb X) Op W q"
      "item_of (x_ldb X) (journal q) i = Some x" "length x < 2 ^ 64"
      using continued(3) by (simp_all add: get_reading_def Let_def)
    have "item_ok (x_ldb X) (journal q) (key_id (chunks_head q)) (is_id (hn_pop_stream s1))" using queue_inv_item_ok [OF p(4,3)] p(2) by simp
    from iq_inv_position(4) [OF p(1) _ this] p have "length (got @ [r]) \<le> chunk_total (x_ldb X) (journal q) i" by simp
    then have "chunk_total (x_ldb X) (journal q) i - length (got @ [r]) < chunk_total (x_ldb X) (journal q) i - length got" by simp
    from less.hyps [OF this continued(3,2)] obtain n c where n: "get_run X others self n (s1, w1) = (Inr (), c)"
      "get_done X Op W a i x out (items_dequeued (sh_stats w)) (hn_req s) (queue_abs (x_ldb X) Op q) c"
      using continued(4,5) by auto
    then have "get_run X others self (Suc n) (s, w) = (Inr (), c)" using continued(1) less.prems(2) by simp
    then show ?thesis using n(2) by blast
  qed
qed

section \<open>Starting\<close>

lemma value_header_fits: "length (value_header name n) + 1 \<le> 21 + length name \<longleftrightarrow> unat n < 1000000000"
proof -
  have "length (value_header name n) + 1 \<le> 21 + length name \<longleftrightarrow> length (decimal (unat n)) \<le> 9"
    by (simp add: value_header_def crlf_def)
  moreover have "length (decimal (unat n)) \<le> 9 \<longleftrightarrow> unat n < 10 ^ 9"
    using decimal_length_le [of "unat n" 9] decimal_length_ge [of 9 "unat n"] by fastforce
  ultimately show ?thesis by simp
qed

definition plain_get :: "request \<Rightarrow> bool" where
  "plain_get r \<longleftrightarrow> \<not> r_get_abort r \<and> \<not> r_get_close r \<and> \<not> (r_get_peek r \<and> r_get_open r)"

lemma popped_item:
  assumes inv: "queue_inv L Op W q" and ready: "f_ready (queue_abs L Op q) = (i, x) # fs"
  obtains q1 where "pop_begin q = (Some i, q1)" "queue_inv L (insert i Op) W q1" "queue_abs L (insert i Op) q1 = snd (fifo_pop (queue_abs L Op q))"
    "item_of L (journal q1) i = Some x"
proof -
  obtain t q1 where p: "pop_begin q = (t, q1)" by fastforce
  note rf = pop_begin_refines [OF inv p]
  have t: "t = Some i" using rf ready by (simp add: fifo_pop_def)
  have "queue_inv L (insert i Op) W q1" and abs: "queue_abs L (insert i Op) q1 = snd (fifo_pop (queue_abs L Op q))"
    using rf by (simp_all add: t held_after_def)
  moreover have "f_held (queue_abs L (insert i Op) q1) i = Some x" unfolding abs using ready by (simp add: fifo_pop_def)
  then have "item_of L (journal q1) i = Some x" by (simp add: queue_abs_def)
  ultimately show thesis using that p t by blast
qed

lemma fresh_not_eof: "iq_fresh i s \<Longrightarrow> fst (iq_read L q res s) \<noteq> Inl Eof"
  by (auto simp: iq_read_def iq_first_def iq_fresh_def pop_read_def queue_get_def read_chunk_def
      split: prod.splits sum.splits option.splits if_splits)

lemma handler_get_starts:
  assumes L: "journal_contract (x_ldb X)" and F: "failed_write_invisible (x_ldb X)" and inv: "queue_inv (x_ldb X) Op W q"
    and f: "map_find (qm_queues (sh_queues w)) (r_queue (hn_req s)) = Some a" "qm_heap (sh_queues w) a = Some q"
    and r: "plain_get (hn_req s)" "is_queue (hn_pop_stream s) = None" "hn_pending s = P_none"
    and ready: "f_ready (queue_abs (x_ldb X) Op q) = (i, x) # fs" "length x < 1000000000"
  shows "\<exists>n c0 c. handler_get X others self (s, w) = (Inr (), c0) \<and> get_run X others self n c0 = (Inr (), c) \<and>
    get_done X (insert i Op) W a i x (hn_out s) (items_dequeued (sh_stats w)) (hn_req s) (snd (fifo_pop (queue_abs (x_ldb X) Op q))) c"
proof -
  let ?L = "x_ldb X" and ?h = "value_header (r_queue (hn_req s)) (word_of_nat (length x))"
  have mp: "mapped a w" using map_of_SomeD [OF f(1) [unfolded map_find_def]] by (force simp: mapped_def)
  obtain q1 where q1: "pop_begin q = (Some i, q1)" "queue_inv ?L (insert i Op) W q1"
    "queue_abs ?L (insert i Op) q1 = snd (fifo_pop (queue_abs ?L Op q))" "item_of ?L (journal q1) i = Some x"
    using inv ready(1) by (rule popped_item)
  obtain p1 where op: "iq_open a q (hn_pop_stream s) = (Inr True, (q1, p1))" using r(2) q1(1) by (simp add: iq_open_def)
  note fr = iq_open_fresh [OF op]
  have id: "is_id p1 = i" using fr(3) q1(1) by simp
  have ok: "item_ok ?L (journal q1) (key_id (chunks_head q1)) (is_id p1)" using queue_inv_item_ok [OF q1(2), of i] id by simp
  have inv0: "iq_inv ?L (journal q1) p1 []" using iq_inv_fresh [OF fr(2)] .
  obtain res p2 where rd: "iq_read ?L q1 (hn_buf s) p1 = (Inr (), (res, p2))" and p2: "iq_inv ?L (journal q1) p2 [res]" "is_queue p2 = Some a" "is_id p2 = i"
    using iq_inv_read [OF _ inv0 ok, of "hn_buf s"] fr(1) id fresh_not_eof [OF fr(2), of ?L q1 "hn_buf s"] by auto
  have len: "length x < 2 ^ 64" using ready(2) by simp
  have ok2: "item_ok ?L (journal q1) (key_id (chunks_head q1)) (is_id p2)" using ok id p2(3) by simp
  note pos = iq_inv_position [OF p2(1) _ ok2 _ len, unfolded p2(3), OF _ q1(4), simplified]
  let ?w = "set_queue a q1 w" and ?s = "s\<lparr>hn_buf := res, hn_pop_stream := p2, hn_header_buf := ?h\<rparr>"
  have fits: "\<not> 21 + length (r_queue (hn_req s)) < length ?h + 1"
    using value_header_fits [of "r_queue (hn_req s)" "word_of_nat (length x)"] ready(2) unat_of_small [of "length x"] by simp
  have pl: "\<not> r_get_abort (hn_req s)" "\<not> r_get_close (hn_req s)" "(r_get_peek (hn_req s) \<and> r_get_open (hn_req s)) = False"
    using r(1) by (simp_all add: plain_get_def)
  have nxt: "handler_get X others self (s, w) = handler_get_next X others self (s, w)"
    using pl r(2) by (auto simp: handler_get_def Let_def)
  have start: "handler_get X others self (s, w) =
      (if res = x then finish_item X others self
          (\<lambda>(s2, w2). (Inr (), (handler_async_write (hn_header_buf s2 @ hn_buf s2 @ crlf @ ''END'' @ crlf) K_read_request s2, w2))) (?s, ?w)
       else (Inr (), (handler_async_write (?h @ res) K_get_on_write_chunk ?s, ?w)))"
    unfolding nxt using r(2) f op rd p2 fr(1) pos(2,5) fits pl(1,2)
    by (simp add: handler_get_next_def Let_def pop_stream_open_def find_queue_def queue_map_get_def
        try_then_def pop_stream_read_def handler_get_reply_def)
  show ?thesis
  proof (cases "res = x")
    case False
    let ?s1 = "handler_async_write (?h @ res) K_get_on_write_chunk ?s"
    have "get_reading X (insert i Op) W a i x [res] (hn_out s) q1 (?s1, ?w)"
      using q1 p2 len mp by (simp add: get_reading_def Let_def handler_async_write_def)
    from get_run_done [OF L F this] show ?thesis using False start q1(3) by (simp add: handler_async_write_def)
  next
    case True
    have s: "is_queue (hn_pop_stream ?s) = Some a" "is_id (hn_pop_stream ?s) = i" "i \<in> insert i Op" "iq_inv ?L (journal q1) (hn_pop_stream ?s) [res]"
      "qm_heap (sh_queues ?w) a = Some q1" "mapped a ?w"
      using p2 mp by simp_all
    from L F q1(2) s show ?thesis
    proof (cases rule: finish_item_cases [where others = others and self = self and
        rest = "\<lambda>(s2, w2). (Inr (), (handler_async_write (hn_header_buf s2 @ hn_buf s2 @ crlf @ ''END'' @ crlf) K_read_request s2, w2))"])
      case (finished p3 q3)
      let ?c = "(handler_async_write (?h @ res @ crlf @ ''END'' @ crlf) K_read_request (?s\<lparr>hn_pop_stream := p3\<rparr>),
        snd (count_dequeued (?s\<lparr>hn_pop_stream := p3\<rparr>, set_queue a q3 ?w)))"
      have "handler_get X others self (s, w) = (Inr (), ?c)"
        using start [unfolded finished(1)] True by (simp add: count_dequeued_def update_stats_def)
      moreover have "get_done X (insert i Op) W a i x (hn_out s) (items_dequeued (sh_stats w)) (hn_req s) (snd (fifo_pop (queue_abs ?L Op q))) ?c"
        using finished(2) True q1(3) by (simp add: get_done_def handler_async_write_def count_dequeued_def update_stats_def)
      moreover have "get_run X others self 0 ?c = (Inr (), ?c)" by simp
      ultimately show ?thesis by blast
    next
      case (failed q3 w3)
      have "handler_get X others self (s, w) = (Inr (), (?s, w3))" using start [unfolded failed(1)] True by simp
      moreover have "get_done X (insert i Op) W a i x (hn_out s) (items_dequeued (sh_stats w)) (hn_req s) (snd (fifo_pop (queue_abs ?L Op q))) (?s, w3)"
        using failed p2 r(3) q1(3) by (simp add: get_done_def)
      moreover have "get_run X others self 0 (?s, w3) = (Inr (), (?s, w3))" by simp
      ultimately show ?thesis by blast
    qed
  qed
qed

end
