(* ===== verification/Request_Safe.thy ===== *)
theory Request_Safe
  imports Request
begin

text \<open>
  A small program logic for rules, and what it gives: whatever a client sends, a request that is accepted
  names a queue the grammar allows and carries 32-bit numbers.
\<close>

section \<open>Triples\<close>

text \<open>From a request in \<open>A\<close> the rule ends in \<open>B\<close> if it matches and in \<open>F\<close> if it fails.\<close>

definition triple :: "(request \<Rightarrow> bool) \<Rightarrow> rule \<Rightarrow> (request \<Rightarrow> bool) \<Rightarrow> (request \<Rightarrow> bool) \<Rightarrow> bool" where
  "triple A p B F \<longleftrightarrow> (\<forall>s r. A r \<longrightarrow> (case p s r of (Some t, r') \<Rightarrow> B r' | (None, r') \<Rightarrow> F r'))"

definition shrinks :: "rule \<Rightarrow> bool" where
  "shrinks p \<longleftrightarrow> (\<forall>s r t r'. p s r = (Some t, r') \<longrightarrow> length t < length s)"

lemma triple_result: "triple A p B F \<Longrightarrow> A r \<Longrightarrow> (case p s r of (Some t, r') \<Rightarrow> B r' | (None, r') \<Rightarrow> F r')"
  unfolding triple_def by (drule spec [of _ s], drule spec [of _ r], erule mp, assumption)

lemma triple_match: "triple A p B F \<Longrightarrow> A r \<Longrightarrow> p s r = (Some t, r') \<Longrightarrow> B r'"
  by (drule (1) triple_result [where s = s]) simp

lemma triple_fail: "triple A p B F \<Longrightarrow> A r \<Longrightarrow> p s r = (None, r') \<Longrightarrow> F r'"
  by (drule (1) triple_result [where s = s]) simp

lemma tripleI:
  assumes "\<And>s r t r'. A r \<Longrightarrow> p s r = (Some t, r') \<Longrightarrow> B r'" "\<And>s r r'. A r \<Longrightarrow> p s r = (None, r') \<Longrightarrow> F r'"
  shows "triple A p B F"
  unfolding triple_def using assms by (auto split: prod.split option.split)

lemma triple_weaken: "triple A p B F \<Longrightarrow> (\<And>r. A' r \<Longrightarrow> A r) \<Longrightarrow> (\<And>r. B r \<Longrightarrow> B' r) \<Longrightarrow> (\<And>r. F r \<Longrightarrow> F' r) \<Longrightarrow> triple A' p B' F'"
  by (rule tripleI) (auto dest: triple_match triple_fail)

lemma triple_lit: "qi_contract Q \<Longrightarrow> triple A (qi_lit Q l) A A"
  by (simp add: triple_def qi_simps split: option.split)

lemma triple_eol: "qi_contract Q \<Longrightarrow> triple A (qi_eol Q) A A"
  by (simp add: triple_def qi_simps del: match_eol.simps split: option.split)

lemma triple_act: "qi_contract Q \<Longrightarrow> triple A p B F \<Longrightarrow> (\<And>r. B r \<Longrightarrow> C (f r)) \<Longrightarrow> triple A (qi_act Q p f) C F"
  by (rule tripleI) (auto simp: qi_simps split: prod.splits option.splits dest: triple_match triple_fail)

lemma triple_seq: "qi_contract Q \<Longrightarrow> triple A p B F \<Longrightarrow> triple B p' C F \<Longrightarrow> triple A (qi_seq Q p p') C F"
  by (rule tripleI) (auto simp: qi_simps split: prod.splits option.splits dest: triple_match triple_fail)

lemma triple_alt: "qi_contract Q \<Longrightarrow> triple A p B F \<Longrightarrow> triple F p' B G \<Longrightarrow> triple A (qi_alt Q p p') B G"
  by (rule tripleI) (auto simp: qi_simps split: prod.splits option.splits dest: triple_match triple_fail)

lemma triple_opt: "qi_contract Q \<Longrightarrow> triple A p A A \<Longrightarrow> triple A (qi_opt Q p) A F"
  by (rule tripleI) (auto simp: qi_simps split: prod.splits option.splits dest: triple_match triple_fail)

lemma triple_plus:
  assumes "qi_contract Q" "\<And>k r. A r \<Longrightarrow> k \<noteq> [] \<Longrightarrow> \<forall>c \<in> set k. P c \<Longrightarrow> B (f k r)"
  shows "triple A (qi_plus Q P f) B A"
  using assms by (intro tripleI) (auto simp: qi_simps split: if_splits dest: set_takeWhileD)

lemma triple_uint: "qi_contract Q \<Longrightarrow> (\<And>n r. A r \<Longrightarrow> B (f n r)) \<Longrightarrow> triple A (qi_uint Q f) B A"
  by (rule tripleI) (auto simp: qi_simps Let_def split: if_splits)

lemma star_total:
  assumes "qi_contract Q" "triple A p A A" "shrinks p" "A r"
  shows "\<exists>t r'. qi_star Q p s r = (Some t, r') \<and> A r'"
  using assms(4)
proof (induction "length s" arbitrary: s r rule: less_induct)
  case less
  obtain m r1 where p: "p s r = (m, r1)" by fastforce
  show ?case
  proof (cases m)
    case None
    then show ?thesis using qi_star_stop [OF assms(1)] p triple_fail [OF assms(2) less.prems] by simp
  next
    case (Some t)
    then have "length t < length s" "A r1" using assms(3) p triple_match [OF assms(2) less.prems] by (auto simp: shrinks_def)
    then show ?thesis using qi_star_more [OF assms(1)] p Some less.hyps by metis
  qed
qed

lemma triple_star: "qi_contract Q \<Longrightarrow> triple A p A A \<Longrightarrow> shrinks p \<Longrightarrow> triple A (qi_star Q p) A F"
  by (rule tripleI) (metis star_total option.inject option.distinct(1) prod.inject)+

text \<open>Options consume input, so repeating them ends.\<close>

lemma match_lit_shrinks: "l \<noteq> [] \<Longrightarrow> match_lit l s = Some t \<Longrightarrow> length t < length s"
  by (cases "s = []") (auto simp: match_lit_def split: if_splits)

lemma shrinks_act: "qi_contract Q \<Longrightarrow> shrinks p \<Longrightarrow> shrinks (qi_act Q p f)"
  unfolding shrinks_def by (auto simp: qi_simps split: prod.splits option.splits)

lemma shrinks_lit: "qi_contract Q \<Longrightarrow> l \<noteq> [] \<Longrightarrow> shrinks (qi_lit Q l)"
  by (auto simp: shrinks_def qi_simps dest: match_lit_shrinks)

lemma shrinks_alt: "qi_contract Q \<Longrightarrow> shrinks p \<Longrightarrow> shrinks p' \<Longrightarrow> shrinks (qi_alt Q p p')"
  unfolding shrinks_def by (auto simp: qi_simps split: prod.splits option.splits)

lemma shrinks_seq_uint: "qi_contract Q \<Longrightarrow> shrinks p \<Longrightarrow> shrinks (qi_seq Q p (qi_uint Q f))"
  unfolding shrinks_def
  by (auto simp: qi_simps Let_def split: prod.splits option.splits if_splits)
    (metis length_dropWhile_le le_less_trans)

lemma set_option_shrinks: "qi_contract Q \<Longrightarrow> shrinks (g_set_option Q)"
  by (simp add: g_set_option_def shrinks_act shrinks_lit)

lemma get_option_shrinks: "qi_contract Q \<Longrightarrow> shrinks (g_get_option Q)"
  by (simp add: g_get_option_def shrinks_act shrinks_lit shrinks_alt shrinks_seq_uint)

section \<open>What is accepted\<close>

definition request_ok :: "request \<Rightarrow> bool" where
  "request_ok r \<longleftrightarrow> (r_queue r = [] \<or> valid_name (r_queue r)) \<and> r_num_bytes r \<le> 4294967295 \<and> r_wait_ms r \<le> 4294967295"

definition names_queue :: "request_type \<Rightarrow> request \<Rightarrow> bool" where
  "names_queue t r \<longleftrightarrow> request_ok r \<and> r_type r = Some t \<and> r_queue r \<noteq> []"

lemma ucast_u32_le: "(ucast (n :: u32) :: u64) \<le> 4294967295"
proof -
  have "unat n < 2 ^ 32" using unsigned_less [of n, where ?'a = nat] by simp
  then show ?thesis by (simp add: word_le_nat_alt unsigned_ucast_eq take_bit_nat_eq_self)
qed

lemma triple_key_name:
  "qi_contract Q \<Longrightarrow> triple (\<lambda>r. request_ok r \<and> r_type r = Some t) (g_key_name Q (\<lambda>k r. r\<lparr>r_queue := k\<rparr>)) (names_queue t) request_ok"
  unfolding g_key_name_def
  by (rule triple_weaken [OF triple_plus [where A = "\<lambda>r. request_ok r \<and> r_type r = Some t" and B = "names_queue t"]])
    (auto simp: names_queue_def request_ok_def valid_name_def name_char_def qi_simps)

lemma triple_word:
  "qi_contract Q \<Longrightarrow> triple request_ok (qi_act Q (qi_lit Q l) (\<lambda>r. r\<lparr>r_type := Some t\<rparr>)) (\<lambda>r. request_ok r \<and> r_type r = Some t) request_ok"
  by (rule triple_act [OF _ triple_lit]) (auto simp: request_ok_def)

lemma triple_keep_option:
  assumes "qi_contract Q" "\<And>r. names_queue t r \<Longrightarrow> names_queue t (f r)"
  shows "triple (names_queue t) (qi_act Q (qi_lit Q l) f) (names_queue t) (names_queue t)"
  using assms by (intro triple_act [OF _ triple_lit])

lemmas name_defs = names_queue_def request_ok_def

lemma triple_get_option:
  assumes Q: "qi_contract Q"
  shows "triple (names_queue t) (g_get_option Q) (names_queue t) (names_queue t)"
  unfolding g_get_option_def
  by (intro triple_alt [OF Q, where F = "names_queue t"] triple_keep_option [OF Q]
      triple_seq [OF Q triple_lit [OF Q]] triple_uint [OF Q]) (auto simp: name_defs ucast_u32_le)

lemma triple_set_option:
  assumes Q: "qi_contract Q"
  shows "triple (names_queue t) (g_set_option Q) (names_queue t) (names_queue t)"
  unfolding g_set_option_def by (rule triple_keep_option [OF Q]) (auto simp: name_defs)

lemma lost_name: "names_queue t r \<Longrightarrow> request_ok r"
  by (simp add: names_queue_def)

lemma triple_names:
  assumes "triple (names_queue t) p (names_queue t) (names_queue t)"
  shows "triple (names_queue t) p (names_queue t) request_ok"
  using assms by (rule triple_weaken) (auto intro: lost_name)

lemma triple_set:
  assumes Q: "qi_contract Q"
  shows "triple request_ok (g_set Q) (names_queue RT_SET) request_ok"
proof -
  have sp: "triple (names_queue RT_SET) (qi_lit Q '' '') (names_queue RT_SET) request_ok"
    by (rule triple_names [OF triple_lit [OF Q]])
  have skip: "triple (names_queue RT_SET) (qi_uint Q (\<lambda>n r. r)) (names_queue RT_SET) request_ok"
    by (rule triple_names [OF triple_uint [OF Q]])
  have num: "triple (names_queue RT_SET) (qi_uint Q (\<lambda>n r. r\<lparr>r_num_bytes := ucast n\<rparr>)) (names_queue RT_SET) request_ok"
    by (rule triple_names [OF triple_uint [OF Q]]) (auto simp: name_defs ucast_u32_le)
  note opts = triple_star [OF Q triple_set_option [OF Q] set_option_shrinks [OF Q]]
  note rest = triple_seq [OF Q sp triple_seq [OF Q skip triple_seq [OF Q sp triple_seq [OF Q skip triple_seq [OF Q sp num]]]]]
  show ?thesis
    unfolding g_set_def by (rule triple_seq [OF Q triple_word [OF Q] triple_seq [OF Q triple_key_name [OF Q] triple_seq [OF Q opts rest]]])
qed

lemma triple_get:
  assumes Q: "qi_contract Q"
  shows "triple request_ok (g_get Q) (names_queue RT_GET) request_ok"
proof -
  let ?A = "\<lambda>r. request_ok r \<and> r_type r = Some RT_GET"
  have s: "triple ?A (qi_opt Q (qi_lit Q ''s'')) ?A request_ok" by (intro triple_opt triple_lit Q)
  have sp: "triple ?A (qi_lit Q '' '') ?A request_ok"
    by (rule triple_weaken [OF triple_lit [OF Q, where A = ?A]]) auto
  have end_sp: "triple (names_queue RT_GET) (qi_opt Q (qi_lit Q '' '')) (names_queue RT_GET) request_ok"
    by (intro triple_opt triple_lit Q)
  note opts = triple_star [OF Q triple_get_option [OF Q] get_option_shrinks [OF Q]]
  show ?thesis
    unfolding g_get_def
    by (rule triple_seq [OF Q triple_word [OF Q] triple_seq [OF Q s triple_seq [OF Q sp triple_seq [OF Q triple_key_name [OF Q]
          triple_seq [OF Q opts end_sp]]]]])
qed

definition accepted :: "request \<Rightarrow> bool" where
  "accepted r \<longleftrightarrow> request_ok r \<and> r_type r \<noteq> None \<and>
     (r_type r \<in> {Some RT_DESTROY, Some RT_FLUSH, Some RT_SET, Some RT_GET} \<longrightarrow> r_queue r \<noteq> [])"

lemma triple_start:
  assumes Q: "qi_contract Q"
  shows "triple request_ok (g_start Q) accepted (\<lambda>_. True)"
proof -
  have named: "triple request_ok p accepted request_ok" if "triple request_ok p (names_queue t) request_ok" for p t
    using that by (rule triple_weaken) (auto simp: accepted_def names_queue_def)
  have plain: "triple request_ok (qi_act Q (qi_lit Q l) (\<lambda>r. r\<lparr>r_type := Some t\<rparr>)) accepted request_ok"
    if "t \<in> {RT_STATS, RT_VERSION, RT_FLUSH_ALL}" for l t
    by (rule triple_weaken [OF triple_word [OF Q]]) (use that in \<open>auto simp: accepted_def\<close>)
  have two: "triple request_ok (qi_seq Q (qi_act Q (qi_lit Q l) (\<lambda>r. r\<lparr>r_type := Some t\<rparr>)) (g_key_name Q (\<lambda>k r. r\<lparr>r_queue := k\<rparr>)))
      (names_queue t) request_ok" for l t
    by (rule triple_seq [OF Q triple_word [OF Q] triple_key_name [OF Q]])
  have alts: "triple request_ok (qi_alt Q (g_stats Q) (qi_alt Q (g_version Q) (qi_alt Q (g_destroy Q) (qi_alt Q (g_flush Q)
      (qi_alt Q (g_flush_all Q) (qi_alt Q (g_set Q) (g_get Q))))))) accepted request_ok"
    by (intro triple_alt [OF Q, where F = request_ok] named [OF triple_set [OF Q]] named [OF triple_get [OF Q]])
      (auto simp: g_stats_def g_version_def g_destroy_def g_flush_def g_flush_all_def intro: plain named [OF two])
  have "triple accepted (qi_eol Q) accepted (\<lambda>_. True)" by (rule triple_weaken [OF triple_eol [OF Q, where A = accepted]]) auto
  moreover have "triple request_ok (qi_alt Q (g_stats Q) (qi_alt Q (g_version Q) (qi_alt Q (g_destroy Q) (qi_alt Q (g_flush Q)
      (qi_alt Q (g_flush_all Q) (qi_alt Q (g_set Q) (g_get Q))))))) accepted (\<lambda>_. True)"
    using alts by (rule triple_weaken) auto
  ultimately show ?thesis unfolding g_start_def by (rule triple_seq [OF Q, rotated])
qed

text \<open>
  C16: whatever bytes a client sends, an accepted request has one of the seven types; a request on a queue names one by printable
  characters without a slash; byte count and wait time fit 32 bits.
\<close>

theorem accepted_requests_are_safe:
  assumes "qi_contract Q" "request_parse Q input req = (True, r)"
  shows "r_type r \<noteq> None \<and> r_num_bytes r \<le> 4294967295 \<and> r_wait_ms r \<le> 4294967295 \<and>
    (r_type r \<in> {Some RT_DESTROY, Some RT_FLUSH, Some RT_SET, Some RT_GET} \<longrightarrow> valid_name (r_queue r))"
proof -
  have "g_start Q input request_default = (Some [], r)"
    using assms(2) by (auto simp: request_parse_def split: prod.splits option.splits list.splits)
  moreover have "request_ok request_default" by (simp add: request_ok_def request_default_def)
  ultimately have "accepted r" using triple_match [OF triple_start [OF assms(1)]] by blast
  then show ?thesis by (auto simp: accepted_def request_ok_def)
qed

theorem accepted_requests_are_safe_witness:
  "valid_name (r_queue (snd (request_parse qi_ref (''delete q'' @ [CHR 0x0D, CHR 0x0A]) request_default)))"
proof -
  let ?p = "request_parse qi_ref (''delete q'' @ [CHR 0x0D, CHR 0x0A]) request_default"
  have "?p = (True, snd ?p)" "r_type (snd ?p) = Some RT_DESTROY" by code_simp+
  from accepted_requests_are_safe [OF qi_ref_contract this(1)] this(2) show ?thesis by simp
qed

text \<open>The names \<^verbatim>\<open>..\<close> and \<^verbatim>\<open>.\<close> are names of queues to the grammar: they lead out of the data directory.\<close>

theorem dot_names_accepted:
  "request_parse qi_ref (''delete ..'' @ [CHR 0x0D, CHR 0x0A]) request_default =
     (True, request_default\<lparr>r_type := Some RT_DESTROY, r_queue := ''..''\<rparr>)"
  by code_simp

end
