(* ===== verification/Delivery.thy ===== *)
theory Delivery
  imports Clients_Trace "HOL-Library.Sublist"
begin

text \<open>
  What the clients of one queue are promised: the run of any number of streams, in any order and with writes that fail, is
  a run of the abstract queue; nothing is lost or delivered twice; a reader gets the bytes that were
  pushed. The witnesses run the model on the store in memory.
\<close>

section \<open>Examples to run\<close>

definition demo_queue :: "bool list \<Rightarrow> (mem_db, nat) queue" where
  "demo_queue faults = queue_fresh (mem_empty faults) ''data/q''"

text \<open>
  A chunked item and a small one, two readers, a write that fails, a redelivery and an erasure.
\<close>

definition demo_actions :: "nat action list" where
  "demo_actions = [Open_out 0 2 False, Write_out 0 ''hi'', Open_in 1, Open_out 1 1 False, Write_out 1 ''x'', Write_out 1 ''x'',
     Write_out 0 ''ho'', Open_in 0, Open_in 1, Drop_in 0, Read_in 1, Open_in 0, Read_in 0, Close_in 1 True]"

definition demo_events :: "nat event list" where
  "demo_events = [Quiet, Quiet, Missed, Quiet, Failed Io_error, Pushed 0 ''x'' ''x'', Pushed 1 ''hiho'' ''hiho'', Popped 0, Popped 1,
     Returned 0, Got 1 ''hi'', Popped 0, Got 0 ''x'', Erased 1]"

lemma demo_run:
  obtains c where "run mem_journal demo_actions (clients_start (demo_queue [False, True])) = Some (demo_events, c)"
    "is_queue (c_in c 0) = Some 0"
proof -
  have "map_option (\<lambda>(tr, c). (tr, is_queue (c_in c 0))) (run mem_journal demo_actions (clients_start (demo_queue [False, True]))) =
      Some (demo_events, Some 0)"
    by code_simp
  with that show thesis by (auto split: prod.splits)
qed

lemma demo_pushes: "pushes demo_events = [(0, ''x''), (1, ''hiho'')]" "erasures demo_events = [1]"
  by (simp_all add: demo_events_def)

lemma demo_queue_inv [simp]: "queue_inv mem_journal {} {} (demo_queue faults)"
  by (simp add: demo_queue_def queue_fresh_inv)

lemma demo_queue_abs [simp]: "queue_abs mem_journal {} (demo_queue faults) = \<lparr>f_ready = [], f_held = Map.empty\<rparr>"
  by (simp add: demo_queue_def queue_fresh_inv)

lemmas demo_contract = mem_journal_contract mem_failed_write_invisible [of slice_le] demo_queue_inv

section \<open>The promises\<close>

text \<open>
  C2: any interleaving of the streams' calls on one queue, LevelDB refusing any of the writes, keeps the
  queue's invariant and is a run of the abstract two-phase queue: pushes append, opens take the oldest ready item, closing
  erases an item or puts it back in its place, everything else changes nothing.
\<close>

theorem clients_implement_fifo:
  assumes "journal_contract L" "failed_write_invisible L" "queue_inv L {} {} q0"
    and "reaches L (clients_start q0) tr c"
  shows "clients_inv L c \<and> fifo_trace tr (queue_abs L {} q0) (clients_abs L c)"
  using reaches_inv [OF assms(4,1,2) clients_start_inv [OF assms(3)]] by (simp add: clients_start_abs)

theorem clients_implement_fifo_witness:
  "\<exists>c. reaches mem_journal (clients_start (demo_queue [False, True])) demo_events c \<and> clients_inv mem_journal c \<and>
     fifo_trace demo_events \<lparr>f_ready = [], f_held = Map.empty\<rparr> (clients_abs mem_journal c)"
proof -
  obtain c where "run mem_journal demo_actions (clients_start (demo_queue [False, True])) = Some (demo_events, c)"
    by (rule demo_run)
  note r = run_reaches [OF this]
  from clients_implement_fifo [OF demo_contract r] r show ?thesis by auto
qed

text \<open>
  C3: over a whole run tickets increase, no ticket is erased twice, and the items the queue has, ready or in the hands of
  a reader, are exactly those it had and those pushed since, less the erased ones.
\<close>

theorem nothing_lost_nothing_twice:
  assumes "journal_contract L" "failed_write_invisible L" "queue_inv L {} {} q0"
    and "reaches L (clients_start q0) tr c"
  shows "sorted_wrt (<) (map fst (f_ready (queue_abs L {} q0) @ pushes tr)) \<and> distinct (erasures tr) \<and>
    fifo_items (clients_abs L c) =
      {p \<in> set (f_ready (queue_abs L {} q0) @ pushes tr). fst p \<notin> set (erasures tr)}"
  using reaches_account [OF assms(4,1,2,3)] by (simp add: account_def)

theorem nothing_lost_nothing_twice_witness:
  "\<exists>c. reaches mem_journal (clients_start (demo_queue [False, True])) demo_events c \<and>
     fifo_items (clients_abs mem_journal c) = {(0, ''x'')}"
proof -
  obtain c where "run mem_journal demo_actions (clients_start (demo_queue [False, True])) = Some (demo_events, c)"
    by (rule demo_run)
  note r = run_reaches [OF this]
  have "fifo_items (clients_abs mem_journal c) = {p \<in> set [(0, ''x''), (1, ''hiho'')]. fst p \<notin> set [1]}"
    using nothing_lost_nothing_twice [OF demo_contract r] by (simp add: demo_pushes)
  also have "\<dots> = {(0, ''x'')}" by auto
  finally show ?thesis using r by blast
qed




end
