(* ===== verification/Queue_Theorems.thy ===== *)
theory Queue_Theorems
  imports Delivery
begin

text \<open>
  What the methods of the queue and of the streams promise one by one: byte formats, redelivery, order,
  erasure, cancellation, eviction and counting.
\<close>

section \<open>Bytes\<close>

text \<open>
  C21: on the slices the queue writes, the comparator is defined and is the three-way comparison of the keys as numbers of 72 bits with the
  kind as the high byte: all items come before all chunks, items and chunks each in the order of their numbers, without sign. A slice determines its key.
\<close>

theorem comparator_orders_keys:
  "comparator_Compare (key_slice a) (key_slice b) =
     Some (sgn ((uint (key_kind a) * 2 ^ 64 + uint (key_id a)) - (uint (key_kind b) * 2 ^ 64 + uint (key_id b)))) \<and>
   key_of_slice (key_slice a) = Some a"
proof -
  have b: "uint (key_id k) < 2 ^ 64" "0 \<le> uint (key_id k)" for k using unsigned_less [of "key_id k", where ?'a = int] by simp_all
  have kind: "uint (key_kind k) * 2 ^ 64 + uint (key_id k) < uint (key_kind k') * 2 ^ 64 + uint (key_id k')"
    if "key_kind k < key_kind k'" for k k'
  proof -
    have "uint (key_kind k) + 1 \<le> uint (key_kind k')" using that by (simp add: word_less_def)
    then have "(uint (key_kind k) + 1) * 2 ^ 64 \<le> uint (key_kind k') * 2 ^ 64" by (intro mult_right_mono) simp_all
    then show ?thesis using b(1) [of k] b(2) [of k'] unfolding distrib_right by linarith
  qed
  have "key_compare a b =
      sgn ((uint (key_kind a) * 2 ^ 64 + uint (key_id a)) - (uint (key_kind b) * 2 ^ 64 + uint (key_id b)))"
  proof (cases "key_kind a" "key_kind b" rule: linorder_cases)
    case less
    then show ?thesis using kind [OF less] by (cases a; cases b) (simp add: sgn_if)
  next
    case equal
    then show ?thesis by (cases a; cases b) (auto simp: sgn_if word_less_def word_uint_eq_iff)
  next
    case greater
    then show ?thesis using kind [OF greater] by (cases a; cases b) (simp add: sgn_if)
  qed
  then show ?thesis by (simp add: comparator_Compare_def)
qed

lemma fst_snd_eq: "fst p = a \<Longrightarrow> p = (a, snd p)"
  by (cases p) simp

lemma pushed_item_read:
  assumes L: "journal_contract L" and inv: "queue_inv L Op W q" and push: "push_item L x sync q = (Inr i, q')"
  shows "pop_read L i q' out = (Inr (), (as_read x, header_default))"
proof -
  obtain db where i: "i = key_id (queue_head q)" and q': "q' = advance db q"
    and put: "ldb_Put L sync (key_slice (queue_head q)) (encode_item x) (journal q) = (True, db)"
    using push by (rule push_item_cases)
  have "x \<noteq> []" using push by (auto simp: push_item_def)
  moreover have "get_item L db i = Some (encode_item x)" using put_at_head(2) [OF L inv put] by (simp add: i)
  ultimately show ?thesis by (simp add: pop_read_classify q' get_item_def classify_as_read)
qed

text \<open>
  C17: what is pushed is read back as what it is. An item comes back with exactly its bytes and is never taken for the header of a chunked item, not
  even if its bytes are those of a header; a header comes back as that header. The single zero byte is left out.
\<close>

theorem pushed_values_read_back:
  assumes L: "journal_contract L" and inv: "queue_inv L Op W q"
  shows "(push_item L x sync q = (Inr i, q') \<and> x \<noteq> [CHR 0x00] \<longrightarrow> pop_read L i q' out = (Inr (), (x, header_default))) \<and>
    (push_header L h sync q = (Inr i, q') \<longrightarrow> pop_read L i q' out = (Inr (), (header_str h, h)))"
proof -
  have "pop_read L i q' out = (Inr (), (header_str h, h))" if push: "push_header L h sync q = (Inr i, q')"
  proof -
    obtain db where i: "i = key_id (queue_head q)" and q': "q' = advance db q"
      and put: "ldb_Put L sync (key_slice (queue_head q)) (header_str h) (journal q) = (True, db)"
      using push by (rule push_header_cases)
    have "get_item L db i = Some (header_str h)" using put_at_head(2) [OF L inv put] by (simp add: i)
    then show ?thesis by (simp add: pop_read_classify q' get_item_def)
  qed
  then show ?thesis using pushed_item_read [OF L inv, of x sync i q' out] by (auto simp: as_read_def)
qed

text \<open>An item with the bytes of a header.\<close>

theorem pushed_values_read_back_witness:
  "pop_read mem_journal 0 (snd (push_item mem_journal (header_str header_default) False (demo_queue []))) ([], header_default) =
     (Inr (), (header_str header_default, header_default)) \<and>
   pop_read mem_journal 0 (snd (push_header mem_journal header_default False (demo_queue []))) ([], header_default) =
     (Inr (), (header_str header_default, header_default))"
proof -
  have "fst (push_item mem_journal (header_str header_default) False (demo_queue [])) = Inr 0"
    "fst (push_header mem_journal header_default False (demo_queue [])) = Inr 0" "header_str header_default \<noteq> [CHR 0x00]" by code_simp+
  note p = fst_snd_eq [OF this(1)] fst_snd_eq [OF this(2)] this(3)
  show ?thesis
    using pushed_values_read_back [OF mem_journal_contract demo_queue_inv, THEN conjunct1, rule_format, OF conjI, OF p(1,3)]
      pushed_values_read_back [OF mem_journal_contract demo_queue_inv, THEN conjunct2, rule_format, OF p(2)] by blast
qed

text \<open>
  C39: on every queue, and whatever journal it has, an item that is one zero byte comes back as two zero bytes once it has been pushed.
\<close>

theorem zero_byte_doubled:
  assumes "journal_contract L" "queue_inv L Op W q" "push_item L [CHR 0x00] sync q = (Inr i, q')"
  shows "pop_read L i q' out = (Inr (), ([CHR 0x00, CHR 0x00], header_default))"
  using pushed_item_read [OF assms] by (simp add: as_read_def)

theorem zero_byte_doubled_witness:
  "pop_read mem_journal 0 (snd (push_item mem_journal [CHR 0x00] False (demo_queue []))) ([], header_default) =
     (Inr (), ([CHR 0x00, CHR 0x00], header_default))"
proof -
  have "fst (push_item mem_journal [CHR 0x00] False (demo_queue [])) = Inr 0" by code_simp
  from zero_byte_doubled [OF mem_journal_contract demo_queue_inv fst_snd_eq [OF this]] show ?thesis .
qed

section \<open>Two-phase pops\<close>

lemma pop_return_header: "pop_end L False i h q = pop_end L False i h' q"
  by (simp add: pop_end_def)

text \<open>
  C11: an item that is popped and returned is back in its place: the queue is as it was, and the next pop gets
  the same item.
\<close>

theorem returned_item_is_redelivered:
  assumes "journal_contract L" "queue_inv L Op W q" "pop_begin q = (Some i, q1)" "pop_end L False i h q1 = (r, q2)"
  shows "queue_inv L ((insert i Op) - {i}) W q2 \<and> queue_abs L ((insert i Op) - {i}) q2 = queue_abs L Op q \<and>
    fst (pop_begin q2) = Some i"
proof -
  have s: "gq_inv L W (Op, q)" "gq_pop (Op, q) = (Some i, (insert i Op, q1))"
    using assms(1-3) by (simp_all add: gq_inv_def gq_pop_def held_after_def)
  have rel: "gq_release L i (insert i Op, q1) = (insert i Op - {i}, q2)"
    using assms(4) pop_return_header [of L i "header_for L (journal q1) i" q1 h] by (simp add: gq_release_def)
  from gq.redelivered [OF s] have r: "queue_inv L (insert i Op - {i}) W q2" "queue_abs L (insert i Op - {i}) q2 = queue_abs L Op q"
    by (simp_all add: rel gq_inv_def gq_abs_def)
  obtain t q3 where p: "pop_begin q2 = (t, q3)" by fastforce
  have "t = fst (fifo_pop (queue_abs L (insert i Op - {i}) q2))" using pop_begin_refines [OF r(1) p] by simp
  moreover have "fst (fifo_pop (queue_abs L Op q)) = Some i" using pop_begin_refines [OF assms(2,3)] by simp
  ultimately show ?thesis using r p by simp
qed

theorem returned_item_is_redelivered_witness:
  "let q = snd (push_item mem_journal ''hi'' False (demo_queue []));
       q2 = snd (pop_end mem_journal False 0 header_default (snd (pop_begin q)))
   in fst (pop_begin q2) = Some 0"
proof -
  let ?q = "snd (push_item mem_journal ''hi'' False (demo_queue []))"
  have p: "fst (push_item mem_journal ''hi'' False (demo_queue [])) = Inr 0" "key_id (queue_head (demo_queue [])) + 1 \<noteq> 0"
    "fst (pop_begin ?q) = Some 0"
    by code_simp+
  note inv = push_item_refines(1) [OF mem_journal_contract demo_queue_inv p(2) fst_snd_eq [OF p(1)]]
  from returned_item_is_redelivered [OF mem_journal_contract inv fst_snd_eq [OF p(3)] prod.collapse [symmetric]]
  show ?thesis by (simp add: Let_def)
qed

text \<open>Popping several times.\<close>

primrec pop_many :: "nat \<Rightarrow> ('db, 'cb) queue \<Rightarrow> u64 option list \<times> ('db, 'cb) queue" where
  "pop_many 0 q = ([], q)"
| "pop_many (Suc n) q = (let (r, q1) = pop_begin q; (rs, q2) = pop_many n q1 in (r # rs, q2))"

lemma pop_many_ghost: "fst (two_phase_queue.pops gq_pop n (Op, q)) = fst (pop_many n q)"
proof (induction n arbitrary: Op q)
  case 0
  then show ?case by simp
next
  case (Suc n)
  obtain r q1 where p: "pop_begin q = (r, q1)" by fastforce
  have "gq_pop (Op, q) = (r, (held_after Op r, q1))" by (simp add: gq_pop_def p)
  then show ?case using Suc [of "held_after Op r" q1] by (simp add: gq.pops.simps(2) p case_prod_beta)
qed

text \<open>
  C10: pops hand out the ready items in order, oldest first, returned items before those that were never popped.
\<close>

theorem pops_in_order:
  assumes "journal_contract L" "queue_inv L Op W q" "n \<le> length (ready_ids q)"
  shows "fst (pop_many n q) = map Some (take n (ready_ids q))"
proof -
  let ?s = "(Op, q)"
  have inv: "gq_inv L W ?s" using assms(1,2) by (simp add: gq_inv_def)
  have ids: "map fst (f_ready (gq_abs L ?s)) = ready_ids q" by (simp add: gq_abs_def queue_abs_def comp_def)
  then have len: "n \<le> length (f_ready (gq_abs L ?s))" using assms(3) by (metis length_map)
  obtain rs s' where p: "two_phase_queue.pops gq_pop n ?s = (rs, s')"
    by (cases "two_phase_queue.pops gq_pop n ?s") simp
  from gq.ready_pops_in_order [OF inv len p] have "rs = map (Some \<circ> fst) (take n (f_ready (gq_abs L ?s)))" by simp
  also have "\<dots> = map Some (take n (ready_ids q))" by (simp add: ids [symmetric] take_map)
  finally show ?thesis using pop_many_ghost [of n Op q] p by simp
qed

theorem pops_in_order_witness:
  "fst (pop_many 1 (snd (push_item mem_journal ''hi'' False (demo_queue [])))) = [Some 0]"
proof -
  let ?q = "snd (push_item mem_journal ''hi'' False (demo_queue []))"
  have p: "fst (push_item mem_journal ''hi'' False (demo_queue [])) = Inr 0" "key_id (queue_head (demo_queue [])) + 1 \<noteq> 0"
    "ready_ids ?q = [0]"
    by code_simp+
  note inv = push_item_refines(1) [OF mem_journal_contract demo_queue_inv p(2) fst_snd_eq [OF p(1)]]
  from pops_in_order [OF mem_journal_contract inv, of 1] show ?thesis by (simp add: p(3))
qed

section \<open>Erasing and cancelling\<close>

lemma iq_inv_header_for:
  assumes "iq_inv L db s got" "got \<noteq> []"
  shows "is_header s = header_for L db (is_id s)"
proof -
  have "is_header s = h" if "s = iq_at h cs k s" for h cs k by (subst that) (simp add: iq_at_def)
  with assms show ?thesis
    by (auto simp: iq_inv_def header_for_def split: option.splits stored_value.splits)
qed

text \<open>
  C12: closing an item for good after reading from it leaves none of its keys in the journal, neither the item's nor its
  chunks', and no other item is touched.
\<close>

theorem close_erases_the_item:
  assumes L: "journal_contract L" and inv: "queue_inv L Op W q" and op: "is_queue s \<noteq> None" "is_id s \<in> Op"
    and got: "iq_inv L (journal q) s got" "got \<noteq> []" and close: "iq_close L True q s = (Inr (), (q', s'))"
  shows "get_item L (journal q') (is_id s) = None \<and>
    (\<forall>c \<in> set (chunk_ids L (journal q) (is_id s)). get_chunk L (journal q') c = None) \<and>
    queue_abs L (Op - {is_id s}) q' = fifo_erase (is_id s) (queue_abs L Op q)"
proof -
  have pop: "pop_end L True (is_id s) (is_header s) q = (Inr (), q')"
    using close op(1) by (auto simp: iq_close_def split: prod.splits sum.splits)
  note h = iq_inv_header_for [OF got] and eh = iq_inv_erase_header [OF got(1)]
  note ok = queue_inv_item_ok [OF inv op(2)]
  have "header_chunks (is_header s) = chunk_ids L (journal q) (is_id s)"
    unfolding h by (rule header_for_chunks [OF ok])
  then show ?thesis
    using pop_erase_frame(3,4) [OF L inv op(2) eh pop] pop_erase_refines(2) [OF L inv op(2) eh pop] by simp
qed

text \<open>A queue with the item \<^verbatim>\<open>hi\<close>, and a reader that has read it.\<close>

definition demo_open :: "(mem_db, nat) queue" where
  "demo_open = snd (pop_begin (snd (push_item mem_journal ''hi'' False (demo_queue []))))"

definition demo_reader :: iqstream where
  "demo_reader = \<lparr>is_queue = Some 0, is_id = 0, is_header = header_default\<lparr>h_size := 2\<rparr>, is_chunk_pos = 1, is_tell = 2\<rparr>"

lemma demo_open_inv: "queue_inv mem_journal {0} {} demo_open" "iq_inv mem_journal (journal demo_open) demo_reader [''hi'']"
proof -
  let ?q = "snd (push_item mem_journal ''hi'' False (demo_queue []))"
  have p: "fst (push_item mem_journal ''hi'' False (demo_queue [])) = Inr 0" "key_id (queue_head (demo_queue [])) + 1 \<noteq> 0"
    "fst (pop_begin ?q) = Some 0"
    by code_simp+
  note inv = push_item_refines(1) [OF mem_journal_contract demo_queue_inv p(2) fst_snd_eq [OF p(1)]]
  have "pop_begin ?q = (Some 0, demo_open)" using fst_snd_eq [OF p(3)] by (simp add: demo_open_def)
  from pop_begin_refines [OF inv this] show "queue_inv mem_journal {0} {} demo_open" by (simp add: held_after_def)
  have "get_item mem_journal (journal demo_open) 0 = Some ''hi''" "classify ''hi'' = Single ''hi''" by code_simp+
  then show "iq_inv mem_journal (journal demo_open) demo_reader [''hi'']" by (simp add: iq_inv_def demo_reader_def)
qed

theorem close_erases_the_item_witness:
  "get_item mem_journal (journal (fst (snd (iq_close mem_journal True demo_open demo_reader)))) 0 = None"
proof -
  have "fst (iq_close mem_journal True demo_open demo_reader) = Inr ()" by code_simp
  then obtain q' s' where c: "iq_close mem_journal True demo_open demo_reader = (Inr (), (q', s'))"
    by (metis prod.collapse)
  have s: "is_queue demo_reader \<noteq> None" "is_id demo_reader \<in> {0}" "is_id demo_reader = 0" by (simp_all add: demo_reader_def)
  from close_erases_the_item [OF mem_journal_contract demo_open_inv(1) s(1,2) demo_open_inv(2) _ c] show ?thesis
    by (simp add: c s(3))
qed

text \<open>
  C18: cancelling an unfinished chunked item removes every chunk of it that was written and changes nothing of the queue.
\<close>

theorem cancel_removes_the_chunks:
  assumes L: "journal_contract L" and inv: "queue_inv L Op W q" and s: "oq_inv L W cs q s"
    and c: "oq_cancel L q s = (Inr (), (q', s'))"
  shows "queue_abs L Op q' = queue_abs L Op q \<and> os_queue s' = None \<and>
    (\<forall>d \<in> set (id_range (h_beg (os_header s)) (h_end (os_header s))). get_chunk L (journal q') d = None)"
proof -
  have h: "os_queue s \<noteq> None" "1 < h_end (os_header s)" "set (id_range (h_beg (os_header s)) (h_end (os_header s))) \<subseteq> W"
    using s by (simp_all add: oq_inv_def Let_def)
  have "erase_chunks L (os_header s) q = (Inr (), q')" "os_queue s' = None"
    using c h(1,2) by (auto simp: oq_cancel_def split: prod.splits sum.splits)
  then show ?thesis using erase_chunks_inv [OF L inv h(3)] by simp
qed

definition demo_writer :: oqstream where
  "demo_writer = snd (snd (oq_open 0 2 False (demo_queue []) oq_new))"

definition demo_reserved :: "(mem_db, nat) queue" where
  "demo_reserved = snd (reserve_chunks 2 (demo_queue []))"

lemma demo_reserved_inv: "queue_inv mem_journal {} (set (id_range 0 2)) demo_reserved"
  "oq_inv mem_journal (set (id_range 0 2)) [] demo_reserved demo_writer"
proof -
  obtain h where r: "reserve_chunks 2 (demo_queue []) = (h, demo_reserved)" "h = \<lparr>h_beg = 0, h_end = 2, h_size = 0\<rparr>"
    by (simp add: demo_reserved_def reserve_chunks_def demo_queue_def queue_fresh_def)
  have "unat (key_id (chunks_head (demo_queue []))) + unat (2 :: u64) < 2 ^ 64"
    by (simp add: demo_queue_def queue_fresh_def)
  from reserve_chunks_inv [OF demo_queue_inv r(1) this]
  show "queue_inv mem_journal {} (set (id_range 0 2)) demo_reserved" by (simp add: r(2))
  show "oq_inv mem_journal (set (id_range 0 2)) [] demo_reserved demo_writer"
    by (simp add: oq_inv_def demo_writer_def demo_reserved_def oq_open_def reserve_chunks_def oq_new_def demo_queue_def queue_fresh_def)
qed

theorem cancel_removes_the_chunks_witness:
  "get_chunk mem_journal (journal (fst (snd (oq_cancel mem_journal demo_reserved demo_writer)))) 0 = None"
proof -
  have "fst (oq_cancel mem_journal demo_reserved demo_writer) = Inr ()" by code_simp
  then obtain q' s' where c: "oq_cancel mem_journal demo_reserved demo_writer = (Inr (), (q', s'))" by (metis prod.collapse)
  have "(0 :: u64) \<in> set (id_range (h_beg (os_header demo_writer)) (h_end (os_header demo_writer)))" by code_simp
  then show ?thesis
    using cancel_removes_the_chunks [OF mem_journal_contract demo_reserved_inv c] by (simp add: c)
qed

section \<open>Bounds\<close>

text \<open>
  C19: a queue never owes more than 32 MB of erased bytes to compaction after an item is erased, and erasing the
  item and compacting the journal change no other key.
\<close>

theorem eviction_is_bounded:
  assumes L: "journal_contract L" and st: "stored L (journal q) \<subseteq> Collect is_key_slice"
    and pop: "pop_end L True i h q = (Inr (), q')"
  shows "bytes_evicted q' \<le> 33554432 \<and>
    (\<forall>k. k \<notin> set (erase_keys i h) \<longrightarrow> ldb_Get L (key_slice k) (journal q') = ldb_Get L (key_slice k) (journal q))"
proof -
  obtain db b where q': "q' = q\<lparr>journal := db, bytes_evicted := b, items_open := items_open q - 1\<rparr>"
    and get: "\<And>k. ldb_Get L (key_slice k) db = (if k \<in> set (erase_keys i h) then None else ldb_Get L (key_slice k) (journal q))"
    and b: "b \<le> 33554432"
    by (rule pop_erase_cases [OF L st pop]) (rule that, assumption+)
  then show ?thesis by simp
qed

theorem eviction_is_bounded_witness:
  "bytes_evicted (snd (pop_end mem_journal True 0 \<lparr>h_beg = 0, h_end = 1, h_size = 33554433\<rparr> demo_open)) \<le> 33554432"
proof -
  have "fst (pop_end mem_journal True 0 \<lparr>h_beg = 0, h_end = 1, h_size = 33554433\<rparr> demo_open) = Inr ()" by code_simp
  from eviction_is_bounded [OF mem_journal_contract queue_inv_stored [OF demo_open_inv(1)] fst_snd_eq [OF this]]
  show ?thesis by simp
qed

text \<open>
  C20: \<^verbatim>\<open>count\<close> is the number of items ready to be popped and \<open>items_open\<close> the number of items being read; the 64-bit
  sum does not wrap.
\<close>

theorem count_counts:
  assumes "queue_inv L Op W q"
  shows "unat (queue_count q) = length (ready_ids q) \<and> unat (items_open q) = card Op"
proof -
  have ids: "ids_inv Op q" using assms by (simp add: queue_inv_def)
  let ?h = "key_id (queue_head q)"
  have below: "set (ready_ids q) \<union> Op \<subseteq> {..<?h}"
    using ids by (auto simp: set_ready_ids) (auto simp: ids_inv_def intro: less_le_trans)
  have card: "card {..<?h} = unat ?h"
  proof -
    have "n \<in> unat ` {..<?h}" if "n < unat ?h" for n
    proof -
      have "n < 2 ^ 64" using that u64_bound [of ?h] by linarith
      then have "unat (word_of_nat n :: u64) = n" by (simp add: unsigned_of_nat take_bit_nat_eq_self)
      then show ?thesis using that by (intro image_eqI [of _ _ "word_of_nat n"]) (simp_all add: word_less_nat_alt)
    qed
    then have "unat ` {..<?h} = {..<unat ?h}" by (auto simp: word_less_nat_alt)
    then show ?thesis by (metis card_image card_lessThan inj_on_def word_unat_eq_iff)
  qed
  have d: "distinct (ready_ids q)" using sorted_ready_ids [OF ids] by (simp add: strict_sorted_iff)
  have "length (ready_ids q) \<le> unat ?h"
    using card_mono [OF _ Un_subset_iff [THEN iffD1, OF below, THEN conjunct1]] distinct_card [OF d] card by simp
  then have len: "length (ready_ids q) < 2 ^ 64" using u64_bound [of ?h] by linarith
  have "card Op \<le> unat ?h" using card_mono [OF _ Un_subset_iff [THEN iffD1, OF below, THEN conjunct2]] card by simp
  then have "card Op < 2 ^ 64" using u64_bound [of ?h] by linarith
  moreover have "queue_count q = word_of_nat (length (ready_ids q))"
    by (simp add: queue_count_def ready_ids_def)
  ultimately show ?thesis
    using len ids by (simp add: ids_inv_def unsigned_of_nat take_bit_nat_eq_self)
qed

theorem count_counts_witness: "unat (items_open demo_open) = card {0 :: u64}"
  using count_counts [OF demo_open_inv(1)] by simp

end
