(* ===== verification/Handler_Theorems.thy ===== *)
theory Handler_Theorems
  imports Handler_Get Destroy Request_Safe Queue_Theorems
begin

text \<open>
  What a connection promises its client: a set stores the bytes that were sent, a get sends the bytes that were stored, and a
  request that makes no sense changes nothing.
\<close>

section \<open>A connection for the witnesses\<close>

definition demo_externs :: "(disk, mem_db) externs" where
  "demo_externs = \<lparr>x_ldb = mem_journal, x_fs = disk_fs, x_qi = qi_ref, x_version = ''0.2.5'', x_total_seconds = (\<lambda>us. us div 1000000),
     x_now = 0, x_stamp = ''now'', x_format = (\<lambda>f args. concat args), x_net_message = (\<lambda>e. ''network''), x_message = (\<lambda>e. ''journal''),
     x_pointer = decimal\<rparr>"

definition demo_shared :: "(disk, mem_db) shared" where
  "demo_shared = \<lparr>sh_queues = disk_map, sh_stats = stats_ctor 0, sh_logs = log_init False logs_start, sh_cerr = []\<rparr>"

definition demo_handler :: "request \<Rightarrow> handler" where
  "demo_handler r = (handler_ctor 4)\<lparr>hn_req := r\<rparr>"

definition set_hello :: request where
  "set_hello = request_default\<lparr>r_type := Some RT_SET, r_queue := ''q'', r_num_bytes := 5\<rparr>"

definition get_q :: request where
  "get_q = request_default\<lparr>r_type := Some RT_GET, r_queue := ''q''\<rparr>"

lemma demo_sel [simp]: "x_ldb demo_externs = mem_journal" "x_fs demo_externs = disk_fs" "sh_queues demo_shared = disk_map"
  "hn_req (demo_handler r) = r" "hn_in (demo_handler r) = []" "hn_out (demo_handler r) = []" "hn_chunk_size (demo_handler r) = 4"
  "is_queue (hn_pop_stream (demo_handler r)) = None" "os_queue (hn_push_stream (demo_handler r)) = None" "hn_pending (demo_handler r) = P_none"
  "r_queue set_hello = ''q''" "r_queue get_q = ''q''" "items_enqueued (sh_stats demo_shared) = 0" "items_dequeued (sh_stats demo_shared) = 0"
  by (simp_all add: demo_externs_def demo_shared_def demo_handler_def handler_ctor_def set_hello_def get_q_def iq_new_def oq_new_def stats_ctor_def)

lemma disk_queue_room: "key_id (queue_head disk_queue) + 1 \<noteq> 0" "uint (key_id (chunks_head disk_queue)) + 2 ^ 32 < 2 ^ 64"
  by code_simp+

section \<open>Set\<close>

text \<open>
  C5: however the network cuts the bytes of an item into pieces, a set of at least one byte, to a queue that is in the map, ends in one of two ways. Either the
  queue has one more item, exactly the bytes that were sent (two zero bytes if one was sent and nothing else), the client is told that it is stored and what
  follows in the input is the next request; or the journal failed, the client is told so and the queue is as it was.
\<close>

theorem set_stores_the_bytes:
  assumes "journal_contract (x_ldb X)" "failed_write_invisible (x_ldb X)" "queue_inv (x_ldb X) Op W q"
    and "map_find (qm_queues (sh_queues w)) (r_queue (hn_req s)) = Some a" "qm_heap (sh_queues w) a = Some q"
    and "os_queue (hn_push_stream s) = None" "unat (r_num_bytes (hn_req s)) = length data" "data \<noteq> []" "length data < 2 ^ 32"
    and "0 < unat (hn_chunk_size s)" "unat (hn_chunk_size s) < 2 ^ 32" "length (hn_in s) \<le> unat (hn_chunk_size s) + 2"
    and "key_id (queue_head q) + 1 \<noteq> 0" "uint (key_id (chunks_head q)) + 2 ^ 32 < 2 ^ 64"
    and "handler_set X (s, w) = (r, c)" "reads_ok X others self bs c" "hn_in s @ concat bs = data @ crlf @ rest"
    and "length bs = (length data + unat (hn_chunk_size s) - 1) div unat (hn_chunk_size s)"
  shows "\<exists>c'. set_run X others self bs c = (Inr (), c') \<and> 
    set_done X Op a (if data = [CHR 0x00] then [CHR 0x00, CHR 0x00] else data) rest (hn_out s) (items_enqueued (sh_stats w)) q c'"
proof -
  obtain s1 w1 W1 q1 where st: "handler_set X (s, w) = (Inr (), (s1, w1))" "set_reading X Op W1 a data [] q1 (s1, w1)"
    "queue_abs (x_ldb X) Op q1 = queue_abs (x_ldb X) Op q" "hn_in s1 = hn_in s" "hn_out s1 = hn_out s" "hn_chunk_size s1 = hn_chunk_size s"
    "sh_stats w1 = sh_stats w"
    using assms(3-14) by (rule handler_set_starts)
  have c: "c = (s1, w1)" using st(1) assms(15) by simp
  obtain c' rest' where c': "set_run X others self bs (s1, w1) = (Inr (), c')"
    "set_done X Op a (as_read data) rest' (hn_out s) (items_enqueued (sh_stats w)) q c'" "hn_pending (fst c') = P_write K_read_request \<longrightarrow> rest' = rest"
    using set_run_done [OF assms(1,2) st(2), of others self bs rest] assms(16-18) st(4-7) set_done_abs [OF st(3)] by (auto simp: c)
  then have "set_done X Op a (as_read data) rest (hn_out s) (items_enqueued (sh_stats w)) q c'" by (auto simp: set_done_def)
  then show ?thesis using c'(1) by (simp add: c as_read_def)
qed

theorem set_stores_the_bytes_witness:
  "\<exists>c'. set_run demo_externs (\<lambda>b. False) 7 [''hello'' @ [CHR 0x0D], [CHR 0x0A]] (snd (handler_set demo_externs (demo_handler set_hello, demo_shared))) = (Inr (), c') \<and>
     set_done demo_externs {} 0 ''hello'' [] [] 0 disk_queue c'"
proof -
  let ?c = "snd (handler_set demo_externs (demo_handler set_hello, demo_shared))"
  have ok: "reads_ok demo_externs (\<lambda>b. False) 7 [''hello'' @ [CHR 0x0D], [CHR 0x0A]] ?c" by code_simp
  have n: "unat (r_num_bytes set_hello) = length ''hello''" by code_simp
  have "\<exists>c'. set_run demo_externs (\<lambda>b. False) 7 [''hello'' @ [CHR 0x0D], [CHR 0x0A]] ?c = (Inr (), c') \<and>
     set_done demo_externs {} 0 (if ''hello'' = [CHR 0x00] then [CHR 0x00, CHR 0x00] else ''hello'') [] (hn_out (demo_handler set_hello)) (items_enqueued (sh_stats demo_shared)) disk_queue c'"
    by (rule set_stores_the_bytes [where W = "{}", OF _ _ _ _ _ _ _ _ _ _ _ _ _ _ surjective_pairing ok])
      (use disk_queue_room in \<open>simp_all add: disk_queue_inv disk_map_facts n mem_failed_write_invisible crlf_def\<close>)
  then show ?thesis by simp
qed

text \<open>
  C26: in the set loop the handler never asks for more than its input buffer can hold: what it has and what it asks for is at most a chunk and the end
  of its line, and it asks for the whole next chunk.
\<close>

theorem set_reads_fit_the_buffer:
  assumes "set_at L W data cs q s" "length (hn_in s) \<le> unat (hn_chunk_size s) + 2" "handler_read_chunk (s, w) = (Inr (), (s', w'))"
  shows "\<exists>k. hn_pending s' = P_read k \<and> unat k + length (hn_in s') \<le> unat (hn_chunk_size s') + 2 \<and>
    min (unat (hn_chunk_size s)) (length data - length cs * unat (hn_chunk_size s) + 2) \<le> unat k + length (hn_in s')"
proof -
  let ?C = "unat (hn_chunk_size s)" and ?left = "length data - length cs * unat (hn_chunk_size s)"
  obtain k where k: "hn_pending s' = P_read k" "unat k = (if ?C < ?left then ?C else ?left + 2) - length (hn_in s)"
    "(if ?C < ?left then ?C else ?left + 2) \<le> ?C + 2" "s' = s\<lparr>hn_pending := P_read k\<rparr>"
    using assms by (rule set_at_required)
  have "unat k + length (hn_in s') \<le> ?C + 2" using k(2,3) assms(2) by (simp add: k(4))
  moreover have "min ?C (?left + 2) \<le> (if ?C < ?left then ?C else ?left + 2)" by simp
  then have "min ?C (?left + 2) \<le> unat k + length (hn_in s)" unfolding k(2) by linarith
  ultimately show ?thesis using k(1) by (simp add: k(4))
qed

text \<open>The handler of the witness: five bytes announced, nothing read yet.\<close>

definition demo_writing :: handler where
  "demo_writing = (demo_handler (set_hello\<lparr>r_num_bytes := 3\<rparr>))\<lparr>hn_push_stream := oq_new\<lparr>os_queue := Some 0\<rparr>\<rparr>"

theorem set_reads_fit_the_buffer_witness:
  "\<exists>k. hn_pending (fst (snd (handler_read_chunk (demo_writing, demo_shared)))) = P_read k \<and> unat k \<le> 6"
proof -
  have at: "set_at mem_journal {} ''abc'' [] disk_queue demo_writing"
    by (simp add: set_at_def demo_writing_def demo_handler_def handler_ctor_def set_hello_def oq_new_def Let_def)
  have rd: "handler_read_chunk (demo_writing, demo_shared) =
      (Inr (), (fst (snd (handler_read_chunk (demo_writing, demo_shared))), snd (snd (handler_read_chunk (demo_writing, demo_shared)))))"
    by (simp add: handler_read_chunk_def Let_def)
  have c: "hn_chunk_size (fst (snd (handler_read_chunk (demo_writing, demo_shared)))) = 4" "length (hn_in demo_writing) \<le> unat (hn_chunk_size demo_writing) + 2"
    by code_simp+
  from set_reads_fit_the_buffer [OF at c(2) rd] c(1) show ?thesis by auto
qed

section \<open>Get\<close>

text \<open>
  C6: a get from a queue that has an item ends, after finitely many writes, in one of two ways. Either the client has been sent the name, the size, exactly the
  bytes of the oldest ready item and the end mark, and the item is erased, put back (peek) or kept open (open); or the journal did
  not take the deletion, and the connection is closed with the item still popped. This holds for items of less than a billion bytes, and for a get that neither closes nor
  aborts an item, on a connection that has none open, from a queue that the map holds already.
\<close>

theorem get_sends_the_item:
  assumes "journal_contract (x_ldb X)" "failed_write_invisible (x_ldb X)" "queue_inv (x_ldb X) Op W q"
    and "map_find (qm_queues (sh_queues w)) (r_queue (hn_req s)) = Some a" "qm_heap (sh_queues w) a = Some q"
    and "plain_get (hn_req s)" "is_queue (hn_pop_stream s) = None" "hn_pending s = P_none"
    and "f_ready (queue_abs (x_ldb X) Op q) = (i, x) # fs" "length x < 1000000000"
  shows "\<exists>n c0 c. handler_get X others self (s, w) = (Inr (), c0) \<and> get_run X others self n c0 = (Inr (), c) \<and>
    get_done X (insert i Op) W a i x (hn_out s) (items_dequeued (sh_stats w)) (hn_req s) (snd (fifo_pop (queue_abs (x_ldb X) Op q))) c"
  using assms by (rule handler_get_starts)

theorem get_sends_the_item_witness:
  "\<exists>n c0 c. handler_get demo_externs (\<lambda>b. False) 7 (demo_handler get_q, demo_shared) = (Inr (), c0) \<and>
     get_run demo_externs (\<lambda>b. False) 7 n c0 = (Inr (), c) \<and>
     get_done demo_externs {0} {} 0 0 ''hi'' [] 0 get_q (snd (fifo_pop (queue_abs mem_journal {} disk_queue))) c"
  using get_sends_the_item [of demo_externs "{}" "{}" disk_queue demo_shared "demo_handler get_q" 0 0 "''hi''" "[]" "\<lambda>b. False" 7]
  by (simp add: disk_queue_inv disk_map_facts mem_failed_write_invisible plain_get_def get_q_def request_default_def)

text \<open>
  C24: a get from an empty queue of the map, by a request that neither closes nor aborts an item and on a connection that has none open, is answered at once with the
  end mark, or, when the client is willing to wait, the handler becomes the last of the queue's waiters; it takes nothing off the queue either way.
\<close>

theorem get_from_empty_queue:
  assumes "queue_inv (x_ldb X) Op W q" "map_find (qm_queues (sh_queues w)) (r_queue (hn_req s)) = Some a" "qm_heap (sh_queues w) a = Some q"
    and "plain_get (hn_req s)" "is_queue (hn_pop_stream s) = None" "f_ready (queue_abs (x_ldb X) Op q) = []"
  shows "\<exists>s' w' q'. handler_get X others self (s, w) = (Inr (), (s', w')) \<and> qm_heap (sh_queues w') a = Some q' \<and>
    queue_inv (x_ldb X) Op W q' \<and> queue_abs (x_ldb X) Op q' = queue_abs (x_ldb X) Op q \<and> is_queue (hn_pop_stream s') = None \<and>
    (if r_wait_ms (hn_req s) = 0
     then hn_pending s' = P_write K_read_request \<and> hn_out s' = hn_out s @ ''END'' @ crlf \<and> waiters q' = waiters q
     else hn_pending s' = P_wait \<and> hn_out s' = hn_out s \<and>
       (\<exists>n. waiters q' = waiters q @ [\<lparr>w_node = n, w_ms = r_wait_ms (hn_req s), w_cb = self, w_cancelled = False\<rparr>]))"
proof -
  obtain t q1 where p: "pop_begin q = (t, q1)" by fastforce
  have "t = None" using pop_begin_refines [OF assms(1) p] assms(6) by (simp add: fifo_pop_def)
  then have p: "pop_begin q = (None, q)" using p by (auto simp: pop_begin_def split: list.splits if_splits)
  have pl: "\<not> r_get_abort (hn_req s)" "\<not> r_get_close (hn_req s)" using assms(4) by (simp_all add: plain_get_def)
  have op: "iq_open a q (hn_pop_stream s) = (Inr False, (q, hn_pop_stream s))" using assms(5) p by (simp add: iq_open_def)
  have sq: "set_queue a q w = w" using assms(3) by (simp add: set_queue_def fun_upd_idem)
  have "handler_get X others self (s, w) = handler_get_next X others self (s, w)"
    using assms(4,5) by (auto simp: plain_get_def handler_get_def Let_def)
  then have g: "handler_get X others self (s, w) =
      (if r_wait_ms (hn_req s) \<noteq> 0 then handler_wait X self (s, w) else handler_end (''END'' @ crlf) (s, w))"
    using pl assms(2,3) op sq by (simp add: handler_get_next_def Let_def pop_stream_open_def find_queue_def queue_map_get_def)
  show ?thesis
  proof (cases "r_wait_ms (hn_req s) = 0")
    case True
    then show ?thesis using g assms(1,3,5) by (simp add: handler_end_def handler_async_write_def)
  next
    case False
    have "queue_inv (x_ldb X) Op W (wait ms cb q) = queue_inv (x_ldb X) Op W q" "queue_abs (x_ldb X) Op (wait ms cb q) = queue_abs (x_ldb X) Op q" for ms cb
      by (rule waiters_frame; simp add: wait_def Let_def)+
    then show ?thesis
      using False g assms(1,2,3,5) by (simp add: handler_wait_def find_queue_def queue_map_get_def) (simp add: wait_def Let_def)
  qed
qed

theorem get_from_empty_queue_witness:
  "let m = disk_map\<lparr>qm_heap := (\<lambda>a. if a = 0 then Some (queue_fresh (mem_empty []) ''data/q'') else None)\<rparr>;
       r = handler_get demo_externs (\<lambda>b. False) 7 (demo_handler (get_q\<lparr>r_wait_ms := 50\<rparr>), demo_shared\<lparr>sh_queues := m\<rparr>)
   in hn_pending (fst (snd r)) = P_wait"
proof -
  let ?q = "queue_fresh (mem_empty []) ''data/q'' :: (mem_db, nat) queue"
  let ?w = "demo_shared\<lparr>sh_queues := disk_map\<lparr>qm_heap := (\<lambda>a. if a = 0 then Some ?q else None)\<rparr>\<rparr>"
  have q: "queue_inv mem_journal {} {} ?q" "queue_abs mem_journal {} ?q = \<lparr>f_ready = [], f_held = Map.empty\<rparr>"
    by (rule queue_fresh_inv; simp)+
  have "plain_get (get_q\<lparr>r_wait_ms := 50\<rparr>)" by code_simp
  then show ?thesis
    using get_from_empty_queue [of demo_externs "{}" "{}" ?q ?w "demo_handler (get_q\<lparr>r_wait_ms := 50\<rparr>)" 0 "\<lambda>b. False" 7] q
    by (auto simp: Let_def disk_map_facts)
qed

text \<open>
  C23: closing or aborting the open item with a get of its own, while its queue is still in the map, is answered with the end mark, and the item is erased or back in its place; the deletion can
  fail, and then the client is told so and the item stays open.
\<close>

theorem get_ends_the_open_item:
  assumes L: "journal_contract (x_ldb X)" and F: "failed_write_invisible (x_ldb X)" and inv: "queue_inv (x_ldb X) Op W q"
    and p: "is_queue (hn_pop_stream s) = Some a" "is_id (hn_pop_stream s) = i" "i \<in> Op" "iq_inv (x_ldb X) (journal q) (hn_pop_stream s) got"
    and q: "qm_heap (sh_queues w) a = Some q" "mapped a w"
    and r: "r_get_close (hn_req s) \<noteq> r_get_abort (hn_req s)" "\<not> r_get_open (hn_req s)" "\<not> r_get_peek (hn_req s)"
  shows "\<exists>s' w' q'. handler_get X others self (s, w) = (Inr (), (s', w')) \<and> qm_heap (sh_queues w') a = Some q' \<and>
    (hn_pending s' = P_write K_read_request \<and> hn_out s' = hn_out s @ ''END'' @ crlf \<and> is_queue (hn_pop_stream s') = None \<and>
       queue_inv (x_ldb X) (Op - {i}) W q' \<and>
       queue_abs (x_ldb X) (Op - {i}) q' = (if r_get_close (hn_req s) then fifo_erase i else fifo_return i) (queue_abs (x_ldb X) Op q)
     \<or> hn_pending s' = P_write K_hang_up \<and> hn_out s' = hn_out s @ ''SERVER_ERROR '' @ x_message X Io_error @ crlf \<and> r_get_close (hn_req s) \<and>
       hn_pop_stream s' = hn_pop_stream s \<and> queue_inv (x_ldb X) Op W q' \<and> queue_abs (x_ldb X) Op q' = queue_abs (x_ldb X) Op q)"
proof -
  let ?L = "x_ldb X" and ?p = "hn_pop_stream s" and ?e = "r_get_close (hn_req s)"
  obtain res q1 where pe: "pop_end ?L ?e i (is_header ?p) q = (res, q1)" by fastforce
  have cl: "pop_stream_close X others ?e (s, w) = (case res of
      Inl err \<Rightarrow> (Inl err, (s, set_queue a q1 w)) | Inr _ \<Rightarrow> (Inr (), (s\<lparr>hn_pop_stream := ?p\<lparr>is_queue := None\<rparr>\<rparr>, set_queue a q1 w)))"
    using p pe by (simp add: pop_stream_close_mapped [OF p(1) q] iq_close_def split: sum.split)
  have "handler_get X others self (s, w) = try_then (pop_stream_close X others ?e (s, w)) (handler_error_exn X self ''get'' True) (handler_get_next X others self)"
    using r by (auto simp: handler_get_def Let_def)
  then have g: "handler_get X others self (s, w) = (case res of
      Inl err \<Rightarrow> (if is_system_error err then handler_error_exn X self ''get'' True err (s, set_queue a q1 w) else (Inl err, (s, set_queue a q1 w)))
    | Inr _ \<Rightarrow> handler_end (''END'' @ crlf) (s\<lparr>hn_pop_stream := ?p\<lparr>is_queue := None\<rparr>\<rparr>, set_queue a q1 w))"
    using r by (cases res) (auto simp: cl try_then_def handler_get_next_def)
  consider (returned) "\<not> ?e" | (erased) "?e" "res = Inr ()" | (failed) err where "?e" "res = Inl err" by (cases res) auto
  then show ?thesis
  proof cases
    case returned
    have "pop_end ?L False i (is_header ?p) q = (res, q1)" using pe returned by simp
    note rt = pop_return_refines [OF inv p(3) this]
    show ?thesis using g rt returned by (simp add: handler_end_def handler_async_write_def)
  next
    case erased
    have pe: "pop_end ?L True i (is_header ?p) q = (Inr (), q1)" using pe erased by simp
    have "erase_header ?L (journal q) i (is_header ?p)" using iq_inv_erase_header [OF p(4)] p(2) by simp
    from pop_erase_refines [OF L inv p(3) this pe] show ?thesis using g erased by (simp add: handler_end_def handler_async_write_def)
  next
    case (failed err)
    have pe: "pop_end ?L True i (is_header ?p) q = (Inl err, q1)" using pe failed by simp
    obtain db where e: "err = Io_error" "q1 = q\<lparr>journal := db\<rparr>" and wr: "ldb_Write ?L (map key_slice (erase_keys i (is_header ?p))) (journal q) = (False, db)"
      using L queue_inv_stored [OF inv] pe by (rule pop_erase_failed)
    from failed_delete_inv [OF F inv wr] show ?thesis
      using g failed e by (simp add: handler_error_exn_def handler_async_write_def log_handler_error_def Let_def)
  qed
qed

text \<open>A connection that has the item of a queue open.\<close>

definition open_shared :: "(disk, mem_db) shared" where
  "open_shared = demo_shared\<lparr>sh_queues := disk_map\<lparr>qm_heap := (\<lambda>a. if a = 0 then Some demo_open else None)\<rparr>\<rparr>"

definition open_handler :: "request \<Rightarrow> handler" where
  "open_handler r = (demo_handler r)\<lparr>hn_pop_stream := demo_reader\<rparr>"

lemma open_sel [simp]: "qm_heap (sh_queues open_shared) 0 = Some demo_open" "mapped 0 open_shared" "hn_req (open_handler r) = r"
  "hn_pop_stream (open_handler r) = demo_reader" "is_queue demo_reader = Some 0" "is_id demo_reader = 0" "hn_out (open_handler r) = []"
  "os_queue (hn_push_stream (open_handler r)) = None" "sh_stats open_shared = stats_ctor 0"
  by (simp_all add: open_shared_def demo_shared_def disk_map_def mapped_def open_handler_def demo_reader_def)

theorem get_ends_the_open_item_witness:
  "\<exists>s' w'. handler_get demo_externs (\<lambda>b. False) 7 (open_handler (get_q\<lparr>r_get_abort := True\<rparr>), open_shared) = (Inr (), (s', w')) \<and>
     hn_out s' = ''END'' @ crlf \<and> is_queue (hn_pop_stream s') = None"
proof -
  let ?r = "get_q\<lparr>r_get_abort := True\<rparr>"
  have r: "\<not> r_get_close ?r" "r_get_abort ?r" "\<not> r_get_open ?r" "\<not> r_get_peek ?r" by code_simp+
  have inv: "iq_inv (x_ldb demo_externs) (journal demo_open) (hn_pop_stream (open_handler ?r)) [''hi'']" using demo_open_inv(2) by simp
  have "\<exists>s' w' q'. handler_get demo_externs (\<lambda>b. False) 7 (open_handler ?r, open_shared) = (Inr (), (s', w')) \<and>
      hn_out s' = hn_out (open_handler ?r) @ ''END'' @ crlf \<and> is_queue (hn_pop_stream s') = None"
    using get_ends_the_open_item [of demo_externs "{0}" "{}" demo_open, OF _ _ _ _ _ _ inv, of 0 0 open_shared "\<lambda>b. False" 7] demo_open_inv(1) r
    by (auto simp: mem_failed_write_invisible)
  then show ?thesis by simp
qed

section \<open>Rejected requests\<close>

text \<open>An answer after which the handler hangs up, with the queues, the counters and the streams as they were.\<close>

definition rejected :: "string \<Rightarrow> ('fs, 'db) conn \<Rightarrow> (('fs, 'db) conn, unit) outcome \<Rightarrow> bool" where
  "rejected answer c out \<longleftrightarrow> (\<exists>s'. out = (Inr (), (s', snd c)) \<and> hn_out s' = hn_out (fst c) @ answer @ crlf \<and> hn_pending s' = P_write K_hang_up \<and>
     hn_pop_stream s' = hn_pop_stream (fst c) \<and> hn_push_stream s' = hn_push_stream (fst c))"

lemma error_reply_rejects: "rejected (type @ '' '' @ msg) (s, w) (handler_error_reply msg type (s, w))"
  by (simp add: rejected_def handler_error_reply_def handler_async_write_def Let_def)

text \<open>
  C27: the line of a get request that cannot be meant, for any name, with any options in any order, is answered with the client error that says what is wrong:
  an abort together with open, close or peek; else peek together with open; else, if it neither closes nor aborts, that there is an open item on the
  connection. The answer is the only thing that happens: no queue and no stream is touched, the request is counted as a get, and after the answer the connection is given
  up.
\<close>

theorem bad_get_is_rejected:
  assumes "qi_contract (x_qi X)" "valid_name k" "\<forall>p \<in> set os. option_fits p" and inp: "hn_in s = print_get gets k os space @ rest"
    and bad: "Opt_abort \<in> set os \<and> set os \<inter> {Opt_open, Opt_close, Opt_peek} \<noteq> {} \<and> reason = ''abort must be by itself'' \<or>
      Opt_abort \<notin> set os \<and> Opt_peek \<in> set os \<and> Opt_open \<in> set os \<and> reason = ''cannot open and peek'' \<or>
      set os \<inter> {Opt_abort, Opt_close} = {} \<and> \<not> {Opt_peek, Opt_open} \<subseteq> set os \<and> is_queue (hn_pop_stream s) \<noteq> None \<and> reason = ''close current item first''"
  shows "\<exists>s' w'. handler_parse_request X others self None (length (print_get gets k os space)) (s, w) = (Inr (), (s', w')) \<and>
    hn_out s' = hn_out s @ ''CLIENT_ERROR '' @ reason @ crlf \<and> hn_pending s' = P_write K_hang_up \<and> hn_in s' = rest \<and>
    hn_pop_stream s' = hn_pop_stream s \<and> hn_push_stream s' = hn_push_stream s \<and>
    sh_queues w' = sh_queues w \<and> sh_stats w' = (sh_stats w)\<lparr>cmd_gets := cmd_gets (sh_stats w) + 1\<rparr>"
proof -
  let ?l = "print_get gets k os space" and ?r = "fold apply_option os (request_default\<lparr>r_type := Some RT_GET, r_queue := k\<rparr>)"
  let ?s = "s\<lparr>hn_buf := ?l, hn_req := ?r, hn_in := rest\<rparr>" and ?w = "w\<lparr>sh_stats := (sh_stats w)\<lparr>cmd_gets := cmd_gets (sh_stats w) + 1\<rparr>\<rparr>"
  have p: "request_parse (x_qi X) ?l (hn_req s) = (True, ?r)" by (simp add: request_parse_def start_print_get [OF assms(1-3)])
  have f: "r_get_open ?r \<longleftrightarrow> Opt_open \<in> set os" "r_get_peek ?r \<longleftrightarrow> Opt_peek \<in> set os" "r_get_close ?r \<longleftrightarrow> Opt_close \<in> set os"
    "r_get_abort ?r \<longleftrightarrow> Opt_abort \<in> set os" "r_type ?r = Some RT_GET" by (simp_all add: option_flags request_default_def)
  have "handler_parse_request X others self None (length ?l) (s, w) = handler_get X others self (?s, ?w)"
    using p f(5) by (simp add: handler_parse_request_def inp Let_def handler_route_def update_stats_def)
  also have "\<dots> = handler_error_reply reason ''CLIENT_ERROR'' (?s, ?w)" using bad f(1-4) by (auto simp: handler_get_def Let_def)
  finally show ?thesis by (simp add: handler_error_reply_def handler_async_write_def Let_def)
qed

theorem bad_get_is_rejected_witness:
  "\<exists>s' w'. handler_parse_request demo_externs (\<lambda>b. False) 7 None 7 ((open_handler get_q)\<lparr>hn_in := ''get q'' @ crlf\<rparr>, open_shared) = (Inr (), (s', w')) \<and>
     hn_out s' = ''CLIENT_ERROR close current item first'' @ crlf \<and> sh_queues w' = sh_queues open_shared"
proof -
  let ?s = "(open_handler get_q)\<lparr>hn_in := ''get q'' @ crlf\<rparr>"
  have n: "valid_name ''q''" by code_simp
  have l: "hn_in ?s = print_get False ''q'' [] False @ []" "length (print_get False ''q'' [] False) = 7" by (simp_all add: print_get_def crlf_def)
  have q: "qi_contract (x_qi demo_externs)" by (simp add: demo_externs_def qi_ref_contract)
  from bad_get_is_rejected [OF q n _ l(1), where reason = "''close current item first''" and others = "\<lambda>b. False" and self = 7 and w = open_shared]
  show ?thesis by (auto simp: l(2))
qed

text \<open>An abandoned item leaves the queue as it was, whether its chunks could be deleted or not.\<close>

lemma oq_dtor_inv:
  assumes L: "journal_contract L" and F: "failed_write_invisible L" and inv: "queue_inv L Op W q"
    and p: "h_end (os_header p) \<le> 1 \<or> set (id_range (h_beg (os_header p)) (h_end (os_header p))) \<subseteq> W"
  obtains W' where "W' \<subseteq> W" "queue_inv L Op W' (oq_dtor L q p)" "queue_abs L Op (oq_dtor L q p) = queue_abs L Op q"
proof (cases "os_queue p = None \<or> h_end (os_header p) \<le> 1")
  case True
  then have "oq_dtor L q p = q" by (auto simp: oq_dtor_def oq_cancel_def)
  then show ?thesis using that [of W] inv by simp
next
  case False
  then have c: "\<not> h_end (os_header p) \<le> 1" "h_end (os_header p) > 1" "os_queue p \<noteq> None" by auto
  obtain r q1 where e: "erase_chunks L (os_header p) q = (r, q1)" by fastforce
  have d: "oq_dtor L q p = q1" using c e by (cases r) (auto simp: oq_dtor_def oq_cancel_def)
  show ?thesis
  proof (cases r)
    case Inl
    then obtain db where "q1 = q\<lparr>journal := db\<rparr>" "ldb_Write L (chunk_slices (os_header p)) (journal q) = (False, db)"
      using e erase_chunks_failed by blast
    then show ?thesis using failed_delete_inv [OF F inv] d that [of W] by simp
  next
    case (Inr u)
    have s: "set (id_range (h_beg (os_header p)) (h_end (os_header p))) \<subseteq> W" using p c(1) by blast
    have "erase_chunks L (os_header p) q = (Inr (), q1)" using e Inr by simp
    from erase_chunks_inv(1,2) [OF L inv s this] show ?thesis using that [OF Diff_subset] by (simp add: d)
  qed
qed

lemma set_at_range:
  assumes "set_at L W data cs q s"
  shows "h_end (os_header (hn_push_stream s)) \<le> 1 \<or>
    set (id_range (h_beg (os_header (hn_push_stream s))) (h_end (os_header (hn_push_stream s)))) \<subseteq> W"
  using assms by (cases "length data \<le> unat (hn_chunk_size s)") (simp_all add: set_at_def oq_inv_def header_default_def Let_def)

text \<open>The end of a connection that was writing an item and has none open.\<close>

lemma handler_dtor_writing:
  assumes "os_queue (hn_push_stream s) = Some a" "is_queue (hn_pop_stream s) = None" "qm_heap (sh_queues w) a = Some q" "mapped a w"
  defines "w' \<equiv> w\<lparr>sh_stats := (sh_stats w)\<lparr>conns_closed := conns_closed (sh_stats w) + 1\<rparr>\<rparr>"
  shows "handler_dtor X others (s, w) = (Inr (), (s\<lparr>hn_push_stream := oq_new\<rparr>, set_queue a (oq_dtor (x_ldb X) q (hn_push_stream s)) w'))"
proof -
  have "mapped a w'" using assms(4) by (simp add: mapped_def w'_def)
  then show ?thesis
    using assms(1-3) by (simp add: handler_dtor_def update_stats_def drop_push_stream_def drop_pop_stream_def let_go_mapped w'_def)
qed

text \<open>
  C25: a set whose data does not end where it should, to a queue that is still in the map and on a connection that has no item open for reading, is answered with a client
  error, and when the connection is gone the queue holds what it held: nothing
  of the item is left behind as an item, whether its chunks could be deleted or not.
\<close>

theorem bad_data_leaves_no_item:
  assumes L: "journal_contract (x_ldb X)" and F: "failed_write_invisible (x_ldb X)" and inv: "queue_inv (x_ldb X) Op W q"
    and s: "set_at (x_ldb X) W data cs q s" "os_queue (hn_push_stream s) = Some a" "is_queue (hn_pop_stream s) = None"
    and q: "qm_heap (sh_queues w) a = Some q" "mapped a w"
    and lst: "length data - length cs * unat (hn_chunk_size s) \<le> unat (hn_chunk_size s)"
      "length data - length cs * unat (hn_chunk_size s) + 2 \<le> length (hn_in s)"
      "take 2 (drop (length data - length cs * unat (hn_chunk_size s)) (hn_in s)) \<noteq> crlf"
  shows "rejected ''CLIENT_ERROR bad data chunk'' (s, w) (handler_set_on_read_chunk X others self None (s, w)) \<and>
    (\<exists>s' w' q'. handler_dtor X others (snd (handler_set_on_read_chunk X others self None (s, w))) = (Inr (), (s', w')) \<and>
       qm_heap (sh_queues w') a = Some q' \<and> queue_abs (x_ldb X) Op q' = queue_abs (x_ldb X) Op q \<and>
       (\<exists>W' \<subseteq> W. queue_inv (x_ldb X) Op W' q') \<and> conns_closed (sh_stats w') = conns_closed (sh_stats w) + 1)"
proof -
  let ?L = "x_ldb X" and ?n = "length data - length cs * unat (hn_chunk_size s)"
  let ?rem = "r_num_bytes (hn_req s) - oq_tell (hn_push_stream s)"
  have "unat ?rem = ?n" by (rule set_at_tell(2) [OF s(1)])
  then have "take_chunk ?rem (hn_chunk_size s) (hn_in s) = Inr None"
    using lst by (simp add: take_chunk_def Let_def word_le_nat_alt)
  then have eq: "handler_set_on_read_chunk X others self None (s, w) = handler_error_reply ''bad data chunk'' ''CLIENT_ERROR'' (s, w)"
    by (simp add: handler_set_on_read_chunk_def)
  have rej: "rejected ''CLIENT_ERROR bad data chunk'' (s, w) (handler_set_on_read_chunk X others self None (s, w))"
    using error_reply_rejects [of "''CLIENT_ERROR''" "''bad data chunk''" s w] by (simp add: eq)
  then obtain s1 where s1: "snd (handler_set_on_read_chunk X others self None (s, w)) = (s1, w)"
    "hn_pop_stream s1 = hn_pop_stream s" "hn_push_stream s1 = hn_push_stream s" by (auto simp: rejected_def)
  obtain W' where "W' \<subseteq> W" "queue_inv ?L Op W' (oq_dtor ?L q (hn_push_stream s))"
    "queue_abs ?L Op (oq_dtor ?L q (hn_push_stream s)) = queue_abs ?L Op q"
    using L F inv set_at_range [OF s(1)] by (rule oq_dtor_inv)
  then show ?thesis using rej handler_dtor_writing [of s1 a w q X others] s(2,3) q by (auto simp: s1)
qed

theorem bad_data_leaves_no_item_witness:
  "let c = (demo_writing\<lparr>hn_in := ''abcde''\<rparr>, demo_shared); out = handler_set_on_read_chunk demo_externs (\<lambda>b. False) 7 None c in
     rejected ''CLIENT_ERROR bad data chunk'' c out \<and>
     (\<exists>s' w' q'. handler_dtor demo_externs (\<lambda>b. False) (snd out) = (Inr (), (s', w')) \<and> qm_heap (sh_queues w') 0 = Some q' \<and>
        queue_abs mem_journal {} q' = queue_abs mem_journal {} disk_queue)"
proof -
  have at: "set_at (x_ldb demo_externs) {} ''abc'' [] disk_queue (demo_writing\<lparr>hn_in := ''abcde''\<rparr>)"
    by (simp add: set_at_def demo_writing_def demo_handler_def handler_ctor_def set_hello_def oq_new_def Let_def)
  have w: "os_queue (hn_push_stream demo_writing) = Some 0" "is_queue (hn_pop_stream demo_writing) = None" "unat (hn_chunk_size demo_writing) = 4"
    by (simp_all add: demo_writing_def)
  have m: "mapped 0 demo_shared" "qm_heap (sh_queues demo_shared) 0 = Some disk_queue" by (simp_all add: mapped_def disk_map_def demo_shared_def)
  show ?thesis
    using bad_data_leaves_no_item [OF _ _ _ at, of "{}" 0 demo_shared "\<lambda>b. False" 7]
    by (auto simp: Let_def w m disk_map_facts disk_queue_inv mem_failed_write_invisible crlf_def)
qed

section \<open>Disconnecting\<close>

text \<open>
  C22: when a connection with an open item and no set under way is destroyed, while the queue of the item is still in the map, the item is back in its place among the
  ready ones. The next pop takes it, unless an item with a smaller ticket is ready, which then goes first.
\<close>

theorem disconnect_returns_the_item:
  assumes "queue_inv (x_ldb X) Op W q" "is_queue (hn_pop_stream s) = Some a" "is_id (hn_pop_stream s) = i" "i \<in> Op"
    and "os_queue (hn_push_stream s) = None" "qm_heap (sh_queues w) a = Some q" "mapped a w"
  shows "\<exists>s' w' q' j. handler_dtor X others (s, w) = (Inr (), (s', w')) \<and> qm_heap (sh_queues w') a = Some q' \<and>
    queue_inv (x_ldb X) (Op - {i}) W q' \<and> queue_abs (x_ldb X) (Op - {i}) q' = fifo_return i (queue_abs (x_ldb X) Op q) \<and>
    fst (pop_begin q') = Some j \<and> (j = i \<or> j < i \<and> j \<in> set (ready_ids q)) \<and>
    conns_closed (sh_stats w') = conns_closed (sh_stats w) + 1"
proof -
  let ?L = "x_ldb X" and ?w = "w\<lparr>sh_stats := (sh_stats w)\<lparr>conns_closed := conns_closed (sh_stats w) + 1\<rparr>\<rparr>"
  obtain r q' where pe: "pop_end ?L False i (is_header (hn_pop_stream s)) q = (r, q')" by fastforce
  have d: "iq_dtor ?L q (hn_pop_stream s) = q'" using assms(2,3) pe by (simp add: iq_dtor_def)
  have "mapped a ?w" using assms(7) by (simp add: mapped_def)
  then have "handler_dtor X others (s, w) = (Inr (), (s\<lparr>hn_pop_stream := iq_new\<rparr>, set_queue a q' ?w))"
    using assms(2,5,6) d by (simp add: handler_dtor_def update_stats_def drop_push_stream_def drop_pop_stream_def let_go_mapped)
  moreover have "\<exists>j. fst (pop_begin q') = Some j \<and> (j = i \<or> j < i \<and> j \<in> set (ready_ids q))"
  proof -
    have "ids_inv Op q" using assms(1) by (simp add: queue_inv_def)
    note ret = pop_return_ids [OF this assms(4) pe]
    from ret(2) show ?thesis
    proof (cases rule: pop_begin_cases)
      case (item j rs q2)
      then have e: "insort i (ready_ids q) = j # rs" using ret(3) by simp
      then have "i \<in> set (j # rs)" "j \<in> insert i (set (ready_ids q))" by (metis insertI1 set_insort_key, metis list.set_intros(1) set_insort_key)
      moreover have "sorted_wrt (<) (j # rs)" using sorted_ready_ids [OF ret(2)] item(1) by simp
      ultimately show ?thesis using item(2) by auto
    qed (use ret(3) in simp)
  qed
  ultimately show ?thesis using pop_return_refines [OF assms(1,4) pe] by auto
qed

theorem disconnect_returns_the_item_witness:
  "\<exists>s' w' q'. handler_dtor demo_externs (\<lambda>b. False) (open_handler get_q, open_shared) = (Inr (), (s', w')) \<and> qm_heap (sh_queues w') 0 = Some q' \<and>
     queue_abs mem_journal {} q' = fifo_return 0 (queue_abs mem_journal {0} demo_open) \<and> fst (pop_begin q') = Some 0"
  using disconnect_returns_the_item [of demo_externs "{0}" "{}" demo_open "open_handler get_q" 0 0 open_shared "\<lambda>b. False"] demo_open_inv(1) by auto

section \<open>Sizes at the edge\<close>

text \<open>
  C36: an item of a billion bytes or more cannot be sent: \<^verbatim>\<open>sprintf\<close> writes its header with the terminating zero past the end of the buffer, and that is
  undefined.
\<close>

theorem big_value_overflows:
  assumes "1000000000 \<le> unat (iq_size (hn_pop_stream s))"
  shows "handler_get_reply X others self (s, w) = (Inl Undefined, (s, w))"
  using value_header_fits [of "r_queue (hn_req s)" "iq_size (hn_pop_stream s)"] assms by (simp add: handler_get_reply_def Let_def)

theorem big_value_overflows_witness:
  "let s = (demo_handler get_q)\<lparr>hn_pop_stream := iq_new\<lparr>is_header := header_default\<lparr>h_size := 1000000000\<rparr>\<rparr>\<rparr>
   in handler_get_reply demo_externs (\<lambda>b. False) 7 (s, demo_shared) = (Inl Undefined, (s, demo_shared))"
  unfolding Let_def by (rule big_value_overflows) (simp add: iq_size_def)

text \<open>
  C37: a set of zero bytes goes on until its empty data has arrived, and then reads the byte before the empty item.
\<close>

theorem empty_set_is_undefined:
  assumes "map_find (qm_queues (sh_queues w)) (r_queue (hn_req s)) = Some a" "qm_heap (sh_queues w) a = Some q"
    and "os_queue (hn_push_stream s) = None" "r_num_bytes (hn_req s) = 0" "0 < hn_chunk_size s" "hn_in s = crlf @ rest"
  shows "\<exists>c c'. handler_set X (s, w) = (Inr (), c) \<and> handler_set_on_read_chunk X others self None c = (Inl Undefined, c')"
proof -
  have "hn_chunk_size s \<noteq> 0" using assms(5) by auto
  then have "unat (hn_chunk_size s - 1) < unat (hn_chunk_size s)" using assms(5) by (simp add: word_less_nat_alt unat_minus_one)
  then have z: "(hn_chunk_size s - 1) div hn_chunk_size s = 0" by (simp add: word_arith_nat_div)
  let ?p = "(hn_push_stream s)\<lparr>os_sync := r_set_sync (hn_req s), os_queue := Some a, os_header := header_default, os_chunk_pos := h_beg header_default\<rparr>"
  have "oq_open a 0 (r_set_sync (hn_req s)) q (hn_push_stream s) = (Inr (), (q, ?p))" using assms(3) by (simp add: oq_open_def)
  then obtain k where "handler_set X (s, w) = (Inr (), (s\<lparr>hn_push_stream := ?p, hn_pending := P_read k\<rparr>, set_queue a q w))"
    using assms(1,2,4) z by (simp add: handler_set_def push_stream_open_def find_queue_def queue_map_get_def handler_read_chunk_def Let_def)
  moreover have "set_queue a q w = w" using assms(2) by (simp add: set_queue_def fun_upd_idem)
  ultimately show ?thesis using assms(2,4,6)
    by (auto simp: handler_set_on_read_chunk_def take_chunk_def oq_tell_def header_default_def crlf_def push_stream_write_def oq_write_def push_item_def try_then_def)
qed

theorem empty_set_is_undefined_witness:
  "\<exists>c c'. handler_set demo_externs ((demo_handler (set_hello\<lparr>r_num_bytes := 0\<rparr>))\<lparr>hn_in := crlf\<rparr>, demo_shared) = (Inr (), c) \<and>
     handler_set_on_read_chunk demo_externs (\<lambda>b. False) 7 None c = (Inl Undefined, c')"
  by (rule empty_set_is_undefined [where a = 0 and q = disk_queue and rest = "[]"]) (simp_all add: disk_map_facts)

end
