(* ===== verification/Server_Theorems.thy ===== *)
theory Server_Theorems
  imports Server_Methods Handler_Theorems
begin

text \<open>
  What the server as a whole promises: on each queue the connections together are clients of one FIFO queue; the current number of
  connections is counted right; and a failed accept is the last one.
\<close>

section \<open>The server and one queue\<close>

definition server_sim :: "('fs, 'db) externs \<Rightarrow> string \<Rightarrow> nat \<Rightarrow> ('fs, 'db) server \<Rightarrow> ('db, nat) clients \<Rightarrow> bool" where
  "server_sim X d a sv c \<longleftrightarrow> queue_sim X d a (sv_shared sv) c \<and>
     (\<forall>k. case sv_conns sv k of None \<Rightarrow> is_queue (c_in c k) = None \<and> os_queue (c_out c k) = None | Some s \<Rightarrow> conn_sim a s k c)"

definition conns_ok :: "('fs, 'db) server \<Rightarrow> bool" where
  "conns_ok sv \<longleftrightarrow> (\<forall>k s. sv_conns sv k = Some s \<longrightarrow> k < sv_next sv \<and> hn_chunk_size s = default_chunk_size)"

definition server_tracks :: "('fs, 'db) externs \<Rightarrow> string \<Rightarrow> nat \<Rightarrow> ('fs, 'db) server \<Rightarrow> ('fs, 'db) server \<Rightarrow> bool" where
  "server_tracks X d a sv sv' \<longleftrightarrow> conns_ok sv' \<and> (lost a (sv_shared sv) \<longrightarrow> lost a (sv_shared sv')) \<and>
     (\<forall>c. server_sim X d a sv c \<longrightarrow> lost a (sv_shared sv') \<or> (\<exists>tr c'. reaches (x_ldb X) c tr c' \<and> server_sim X d a sv' c'))"

lemma server_tracks_trans:
  assumes "server_tracks X d a sv sv1" "server_tracks X d a sv1 sv2"
  shows "server_tracks X d a sv sv2"
proof -
  have "\<exists>tr c2. reaches (x_ldb X) c tr c2 \<and> server_sim X d a sv2 c2" if c: "server_sim X d a sv c" and l: "\<not> lost a (sv_shared sv2)" for c
  proof -
    have "\<not> lost a (sv_shared sv1)" using l assms(2) by (auto simp: server_tracks_def)
    then obtain tr c1 where c1: "reaches (x_ldb X) c tr c1" "server_sim X d a sv1 c1" using assms(1) c by (auto simp: server_tracks_def)
    then obtain tr' c2 where "reaches (x_ldb X) c1 tr' c2" "server_sim X d a sv2 c2" using assms(2) l by (auto simp: server_tracks_def)
    then show ?thesis using reaches_trans [OF _ c1(1)] by blast
  qed
  then show ?thesis using assms by (auto simp: server_tracks_def)
qed

text \<open>A handler that is run moves the server.\<close>

lemma handler_moves:
  assumes ok: "conns_ok sv" and s: "sv_conns sv k = Some s" and t: "tracks X d a k (s, sv_shared sv) (s1, w1)"
    and sv': "sv_conns sv' = (sv_conns sv)(k := (if gone then None else Some s1))" "sv_shared sv' = w1" "sv_next sv' = sv_next sv"
    and g: "gone \<Longrightarrow> is_queue (hn_pop_stream s1) = None \<and> os_queue (hn_push_stream s1) = None"
  shows "server_tracks X d a sv sv'"
proof -
  have size: "hn_chunk_size s = default_chunk_size" "hn_chunk_size s1 = default_chunk_size" "k < sv_next sv"
    using ok s tracks_size [OF t] by (auto simp: conns_ok_def)
  have "conns_ok sv'" using ok size sv' by (auto simp: conns_ok_def)
  moreover have "lost a (sv_shared sv) \<longrightarrow> lost a (sv_shared sv')" using t size sv'(2) by (simp add: tracks_def)
  moreover have "\<exists>tr c'. reaches (x_ldb X) c tr c' \<and> server_sim X d a sv' c'" if c: "server_sim X d a sv c" and l: "\<not> lost a w1" for c
  proof -
    have "conn_sim a s k c" "queue_sim X d a (sv_shared sv) c" using c s by (auto simp: server_sim_def dest: spec [of _ k])
    then obtain tr c' where c': "reaches (x_ldb X) c tr c'" "conn_sim a s1 k c'" "queue_sim X d a w1 c'" "only_client k c c'"
      using t size l by (auto simp: tracks_def)
    have other: "case sv_conns sv j of None \<Rightarrow> is_queue (c_in c' j) = None \<and> os_queue (c_out c' j) = None | Some s \<Rightarrow> conn_sim a s j c'" if "j \<noteq> k" for j
    proof -
      have "case sv_conns sv j of None \<Rightarrow> is_queue (c_in c j) = None \<and> os_queue (c_out c j) = None | Some s \<Rightarrow> conn_sim a s j c"
        using c unfolding server_sim_def by blast
      then show ?thesis using c'(4) that by (simp add: only_client_def conn_sim_def split: option.splits)
    qed
    have self: "is_queue (c_in c' k) = None \<and> os_queue (c_out c' k) = None" if "gone"
      using c'(2) g [OF that] by (auto simp: conn_sim_def in_sim_def out_sim_def)
    have "server_sim X d a sv' c'" unfolding server_sim_def sv' using c'(2,3) other self by simp
    then show ?thesis using c'(1) by blast
  qed
  ultimately show ?thesis using sv'(2) by (auto simp: server_tracks_def)
qed

lemma handler_dtor_closed:
  assumes "handler_dtor X others x = (Inr (), (s, w))"
  shows "is_queue (hn_pop_stream s) = None \<and> os_queue (hn_push_stream s) = None"
  using assms
  by (cases x) (auto simp: handler_dtor_def drop_push_stream_def drop_pop_stream_def let_go_def update_stats_def iq_new_def oq_new_def
      split: option.splits prod.splits sum.splits)

lemma run_conn_tracks:
  assumes W: "world X d view" and ok: "conns_ok sv" and run: "run_conn X owned k f sv = (Inr (), sv')"
    and f: "\<And>others s. sv_conns sv k = Some s \<Longrightarrow> tracks X d a k (s\<lparr>hn_pending := P_none\<rparr>, sv_shared sv) (snd (f others (s\<lparr>hn_pending := P_none\<rparr>, sv_shared sv)))"
  shows "server_tracks X d a sv sv'"
proof -
  obtain s where s: "sv_conns sv k = Some s" using run by (cases "sv_conns sv k") (simp_all add: run_conn_def)
  let ?o = "\<lambda>b. owned b \<or> queue_owners sv k b" and ?s = "s\<lparr>hn_pending := P_none\<rparr>"
  obtain r s1 w1 where fs: "f ?o (?s, sv_shared sv) = (r, (s1, w1))" by (metis prod.exhaust)
  obtain r2 s2 w2 where dt: "handler_dtor X ?o (s1, w1) = (r2, (s2, w2))" by (metis prod.exhaust)
  have r: "r = Inr ()" using run s fs by (cases r) (auto simp: run_conn_def Let_def)
  have q: "tracks X d a k (s, sv_shared sv) (?s, sv_shared sv)" by (rule quiet_tracks) simp_all
  have t1: "tracks X d a k (s, sv_shared sv) (s1, w1)" using tracks_trans [OF q f [OF s, of ?o]] by (simp add: fs)
  have t2: "tracks X d a k (s, sv_shared sv) (s2, w2)" using tracks_trans [OF t1 handler_dtor_tracks [OF W, of a k "(s1, w1)" ?o]] by (simp add: dt)
  show ?thesis
  proof (cases "hn_pending s1 = P_none")
    case True
    then have sv': "sv' = sv\<lparr>sv_conns := (sv_conns sv)(k := None), sv_shared := w2\<rparr>" "r2 = Inr ()"
      using run s fs dt r by (auto simp: run_conn_def Let_def)
    show ?thesis
      by (rule handler_moves [OF ok s t2, where gone = True]) (use sv' handler_dtor_closed [of X ?o "(s1, w1)" s2 w2] dt in auto)
  next
    case False
    then have sv': "sv' = sv\<lparr>sv_conns := (sv_conns sv)(k \<mapsto> s1), sv_shared := w1\<rparr>" using run s fs r by (auto simp: run_conn_def Let_def)
    show ?thesis by (rule handler_moves [OF ok s t1, where gone = False]) (simp_all add: sv')
  qed
qed

lemma next_handler_tracks:
  assumes ok: "conns_ok sv"
  shows "server_tracks X d a sv (next_handler sv)"
proof -
  have free: "sv_conns sv (sv_next sv) = None" using ok by (cases "sv_conns sv (sv_next sv)") (auto simp: conns_ok_def)
  have "server_sim X d a (next_handler sv) c" if c: "server_sim X d a sv c" for c
  proof -
    have "is_queue (c_in c (sv_next sv)) = None \<and> os_queue (c_out c (sv_next sv)) = None"
      using c free by (auto simp: server_sim_def dest: spec [of _ "sv_next sv"])
    then have "conn_sim a (handler_ctor default_chunk_size) (sv_next sv) c"
      by (simp add: conn_sim_def handler_ctor_def in_sim_def out_sim_def iq_new_def oq_new_def)
    then show ?thesis using c by (simp add: server_sim_def next_handler_def)
  qed
  moreover have "conns_ok (next_handler sv)" using ok by (auto simp: conns_ok_def next_handler_def handler_ctor_def less_Suc_eq)
  moreover have "sv_shared (next_handler sv) = sv_shared sv" by (simp add: next_handler_def)
  ultimately show ?thesis using reaches.start by (fastforce simp: server_tracks_def)
qed

text \<open>Changes of the server that neither the handlers nor the queues see.\<close>

lemma server_tracks_same:
  assumes "conns_ok sv" "sv_conns sv' = sv_conns sv" "sv_next sv' = sv_next sv" "sh_queues (sv_shared sv') = sh_queues (sv_shared sv)"
  shows "server_tracks X d a sv sv'"
proof -
  have "lost a (sv_shared sv') = lost a (sv_shared sv)" "server_sim X d a sv' c = server_sim X d a sv c" for c
    using assms by (simp_all add: lost_def server_sim_def queue_sim_def)
  then show ?thesis using assms(1-3) reaches.start by (fastforce simp: server_tracks_def conns_ok_def)
qed

lemma handle_accept_tracks:
  assumes W: "world X d view" and ok: "conns_ok sv" and st: "handle_accept X e sv = (Inr (), sv')"
  shows "server_tracks X d a sv sv'"
proof (cases e)
  case (Some err)
  then have "sv' = sv\<lparr>sv_accepting := False, sv_shared := log_accept_error X err (sv_shared sv)\<rparr>" using st by (auto simp: handle_accept_def)
  then show ?thesis by (intro server_tracks_same [OF ok]) (simp_all add: log_accept_error_def)
next
  case None
  let ?sv = "sv\<lparr>sv_accepting := False\<rparr>"
  obtain sv2 where run: "run_conn X (\<lambda>b. False) (sv_handler sv) (\<lambda>others. handler_start X (sv_handler sv)) ?sv = (Inr (), sv2)"
    and sv': "sv' = next_handler sv2"
    using st None by (auto simp: handle_accept_def Let_def split: prod.splits sum.splits)
  have ok1: "conns_ok ?sv" using ok by (simp add: conns_ok_def)
  have "server_tracks X d a sv ?sv" by (rule server_tracks_same [OF ok]) simp_all
  moreover have t: "server_tracks X d a ?sv sv2" by (rule run_conn_tracks [OF W ok1 run]) simp
  moreover have "server_tracks X d a sv2 sv'" unfolding sv' by (rule next_handler_tracks) (use t in \<open>simp add: server_tracks_def\<close>)
  ultimately show ?thesis using server_tracks_trans by blast
qed

lemma received_tracks:
  assumes W: "world X d view" and room: "roomy a (snd x)"
  shows "tracks X d a k x (snd (received p X k bytes e others x))"
proof -
  obtain s w where x: "x = (s, w)" by fastforce
  have q: "tracks X d a k (s, w) (s\<lparr>hn_in := hn_in s @ bytes\<rparr>, w)" by (rule quiet_tracks) simp_all
  have "roomy a (snd (s\<lparr>hn_in := hn_in s @ bytes\<rparr>, w))" using room by (simp add: x)
  note t = handler_parse_request_tracks [OF W this] handler_set_on_read_chunk_tracks [OF W this]
  show ?thesis using tracks_trans [OF q t(1)] tracks_trans [OF q t(2)] by (simp add: x received_def Let_def)
qed

lemma written_tracks:
  assumes W: "world X d view"
  shows "tracks X d a k x (snd (written kont X k e others x))"
  by (cases kont) (simp_all add: handler_get_on_write_chunk_tracks [OF W])

lemma wakeup_tracks:
  assumes W: "world X d view" and ok: "conns_ok sv" and q: "qm_heap (sh_queues (sv_shared sv)) b = Some q"
    and wk: "waiter_wakeup it q = (Inr (cb, r), q1)" and it: "it \<in> w_node ` set (waiters q)"
  shows "server_tracks X d a sv (sv\<lparr>sv_shared := set_queue b q1 (sv_shared sv)\<rparr>)" (is "server_tracks X d a sv ?sv")
proof (cases "b = a")
  case False
  have "server_sim X d a ?sv c" if "server_sim X d a sv c" for c using that False by (simp add: server_sim_def queue_sim_def)
  moreover have "conns_ok ?sv" "lost a (sv_shared sv) \<longrightarrow> lost a (sv_shared ?sv)" using ok False by (simp_all add: conns_ok_def lost_def)
  ultimately show ?thesis using reaches.start by (fastforce simp: server_tracks_def)
next
  case True
  have "\<exists>tr c'. reaches (x_ldb X) c tr c' \<and> server_sim X d a ?sv c'" if c: "server_sim X d a sv c" for c
  proof -
    have cq: "c_queue c = q" and inv: "clients_inv (x_ldb X) c" using c q True by (simp_all add: server_sim_def queue_sim_def)
    let ?c = "c\<lparr>c_queue := q1\<rparr>"
    have st: "allowed (Wake it) c" "client_step (x_ldb X) (Wake it) c = (Woken cb r, ?c)" using it wk cq by simp_all
    have "clients_inv (x_ldb X) ?c" using client_step_good [OF _ _ inv st] W by (simp add: good_step_def world_def)
    then have "server_sim X d a ?sv ?c"
      using c True waiter_wakeup_path [OF wk] cq by (simp add: server_sim_def queue_sim_def conn_sim_def cong: option.case_cong)
    moreover have "reaches (x_ldb X) c ([] @ [Woken cb r]) ?c" by (rule reaches.step [OF reaches.start st])
    ultimately show ?thesis by blast
  qed
  moreover have "conns_ok ?sv" "lost a (sv_shared sv) \<longrightarrow> lost a (sv_shared ?sv)" using ok True q by (simp_all add: conns_ok_def lost_def)
  ultimately show ?thesis by (auto simp: server_tracks_def)
qed

lemma release_tracks:
  assumes ok: "conns_ok sv" and rl: "release_queue F owned b (sh_queues (sv_shared sv)) = (r, m)"
  shows "server_tracks X d a sv (sv\<lparr>sv_shared := (sv_shared sv)\<lparr>sh_queues := m\<rparr>\<rparr>)" (is "server_tracks X d a sv ?sv")
proof (cases "qm_heap m a = qm_heap (sh_queues (sv_shared sv)) a")
  case True
  note fr = release_queue_frame(1) [OF rl]
  have "lost a (sv_shared ?sv) = lost a (sv_shared sv)" "server_sim X d a ?sv c = server_sim X d a sv c" for c
    using True fr by (simp_all add: lost_def server_sim_def queue_sim_def)
  then show ?thesis using ok reaches.start by (fastforce simp: server_tracks_def conns_ok_def)
next
  case False
  have "qm_heap m a = None" using False release_queue_frame(2) [OF rl] by (auto split: if_splits)
  then have "lost a (sv_shared ?sv)" if "a < qm_next (sh_queues (sv_shared sv))" using that release_queue_frame(1) [OF rl] by (simp add: lost_def)
  then show ?thesis using ok by (auto simp: server_tracks_def conns_ok_def lost_def server_sim_def queue_sim_def)
qed

lemma server_step_tracks:
  assumes W: "world X d view" and ok: "conns_ok sv" and room: "roomy a (sv_shared sv)"
    and cp: "completes ev sv" and st: "server_step X ev sv = (Inr (), sv')"
  shows "server_tracks X d a sv sv'"
proof (cases ev)
  case (Accepted e)
  then show ?thesis using handle_accept_tracks [OF W ok] st by simp
next
  case (Received k bytes e)
  obtain s where s: "sv_conns sv k = Some s" using st Received by (cases "sv_conns sv k") simp_all
  then have run: "run_conn X (\<lambda>b. False) k (received (hn_pending s) X k bytes e) sv = (Inr (), sv')" using st Received by simp
  show ?thesis by (rule run_conn_tracks [OF W ok run]) (rule received_tracks [OF W], use room in simp)
next
  case (Written k e)
  obtain s where s: "sv_conns sv k = Some s" using st Written by (cases "sv_conns sv k") simp_all
  obtain kont where "hn_pending s = P_write kont" using st Written s by (cases "hn_pending s") simp_all
  then have run: "run_conn X (\<lambda>b. False) k (written kont X k e) sv = (Inr (), sv')" using st Written s by simp
  show ?thesis by (rule run_conn_tracks [OF W ok run]) (rule written_tracks [OF W])
next
  case (Timer b it)
  obtain q where q: "qm_heap (sh_queues (sv_shared sv)) b = Some q" "it \<in> w_node ` set (waiters q)"
    using cp Timer by (cases "qm_heap (sh_queues (sv_shared sv)) b") auto
  obtain cb r q1 where wk: "waiter_wakeup it q = (Inr (cb, r), q1)"
    using st Timer q by (auto simp: timer_completed_def split: prod.splits sum.splits)
  let ?sv = "sv\<lparr>sv_shared := set_queue b q1 (sv_shared sv)\<rparr>"
  obtain sv1 where run: "run_conn X (\<lambda>c. c = b) cb (\<lambda>others. handler_get_on_queue_return X others cb r) ?sv = (Inr (), sv1)"
    using st Timer q wk by (auto simp: timer_completed_def split: prod.splits sum.splits)
  obtain m where rl: "release_queue (x_fs X) (queue_owners sv1 (sv_next sv1)) b (sh_queues (sv_shared sv1)) = (Inr (), m)"
    and sv': "sv' = sv1\<lparr>sv_shared := (sv_shared sv1)\<lparr>sh_queues := m\<rparr>\<rparr>"
    using st Timer q wk run by (auto simp: timer_completed_def split: prod.splits)
  have t1: "server_tracks X d a sv ?sv" by (rule wakeup_tracks [OF W ok q(1) wk q(2)])
  have ok1: "conns_ok ?sv" using t1 by (simp add: server_tracks_def)
  have t2: "server_tracks X d a ?sv sv1" by (rule run_conn_tracks [OF W ok1 run]) (rule handler_get_on_queue_return_tracks [OF W])
  have ok2: "conns_ok sv1" using t2 by (simp add: server_tracks_def)
  from server_tracks_trans [OF server_tracks_trans [OF t1 t2] release_tracks [OF ok2 rl]] show ?thesis by (simp add: sv')
qed

section \<open>Every queue is a FIFO queue\<close>

text \<open>No connection has a stream open on the queue.\<close>

definition untouched :: "nat \<Rightarrow> ('fs, 'db) server \<Rightarrow> bool" where
  "untouched a sv \<longleftrightarrow> (\<forall>k s. sv_conns sv k = Some s \<longrightarrow> \<not> owned_by s a)"

lemma server_sim_start:
  assumes ok: "conns_ok sv" and a: "untouched a sv" "a < qm_next (sh_queues (sv_shared sv))" "qm_heap (sh_queues (sv_shared sv)) a = Some q"
    and q: "queue_inv (x_ldb X) {} {} q" "journal_path (x_fs X) d (path q)"
  shows "server_sim X d a sv (clients_start q)"
proof -
  have "conn_sim a s k (clients_start q)" if "sv_conns sv k = Some s" for k s
  proof -
    have "hn_chunk_size s = default_chunk_size" "\<not> owned_by s a" using that ok a(1) by (auto simp: conns_ok_def untouched_def)
    then show ?thesis by (simp add: conn_sim_def in_sim_def out_sim_def owned_by_def clients_start_def iq_new_def oq_new_def)
  qed
  moreover have "c_queue (clients_start q) = q" "is_queue (c_in (clients_start q) k) = None" "os_queue (c_out (clients_start q) k) = None" for k
    by (simp_all add: clients_start_def iq_new_def oq_new_def)
  ultimately show ?thesis using a(2,3) q clients_start_inv [OF q(1)] by (simp add: server_sim_def queue_sim_def split: option.split)
qed

lemma world_at_time: "world X d view \<Longrightarrow> world (at_time now stamp X) d view"
  by (simp add: world_def)

lemma server_tracks_at_time: "server_tracks (at_time now stamp X) d a sv sv' = server_tracks X d a sv sv'"
  by (simp add: server_tracks_def server_sim_def queue_sim_def)

lemma server_runs_track:
  assumes "server_runs X (\<lambda>sv. roomy a (sv_shared sv)) sv0 evs sv" "world X d view" "conns_ok sv0"
  shows "server_tracks X d a sv0 sv"
  using assms
proof (induction rule: server_runs.induct)
  case start
  then show ?case by (intro server_tracks_same) simp_all
next
  case (step evs sv ev now stamp sv')
  have t: "server_tracks X d a sv0 sv" by (rule step.IH [OF step.prems])
  then have "conns_ok sv" by (simp add: server_tracks_def)
  from server_step_tracks [OF world_at_time [OF step.prems(1)] this step.hyps(2,3,4)]
  have "server_tracks X d a sv sv'" by (simp only: server_tracks_at_time)
  with t show ?case by (rule server_tracks_trans)
qed

text \<open>
  C1: the whole server, on any of its queues. However the completions of accepts, reads, writes and timers of all connections are interleaved, whatever
  bytes the clients send, and whichever writes of the journal fail, what the connections do to the queue is a run of clients of
  the abstract two-phase queue, and each connection's open streams are the streams of its client. Nothing is lost or
  delivered twice: what the queue has, ready or being read, is what it had and what was pushed, less what was erased. This holds
  as long as the queue is there, its counters have not used up half of their range and no exception ends the program.
\<close>

theorem server_implements_fifo:
  assumes "world X d view" "conns_ok sv0" "untouched a sv0"
    and "a < qm_next (sh_queues (sv_shared sv0))" "qm_heap (sh_queues (sv_shared sv0)) a = Some q0"
    and "queue_inv (x_ldb X) {} {} q0" "journal_path (x_fs X) d (path q0)"
    and "server_runs X (\<lambda>sv. roomy a (sv_shared sv)) sv0 evs sv" "qm_heap (sh_queues (sv_shared sv)) a = Some q"
  shows "\<exists>tr c. reaches (x_ldb X) (clients_start q0) tr c \<and> c_queue c = q \<and> server_sim X d a sv c \<and>
    fifo_trace tr (queue_abs (x_ldb X) {} q0) (clients_abs (x_ldb X) c) \<and> distinct (erasures tr) \<and>
    fifo_items (clients_abs (x_ldb X) c) = {p \<in> set (f_ready (queue_abs (x_ldb X) {} q0) @ pushes tr). fst p \<notin> set (erasures tr)}"
proof -
  let ?L = "x_ldb X"
  have L: "journal_contract ?L" "failed_write_invisible ?L" using assms(1) by (simp_all add: world_def)
  have sim: "server_sim X d a sv0 (clients_start q0)" by (rule server_sim_start [OF assms(2-7)])
  have "\<not> lost a (sv_shared sv)" using assms(9) by (simp add: lost_def)
  then obtain tr c where r: "reaches ?L (clients_start q0) tr c" and s: "server_sim X d a sv c"
    using server_runs_track [OF assms(8,1,2)] sim by (auto simp: server_tracks_def)
  have "c_queue c = q" using s assms(9) by (simp add: server_sim_def queue_sim_def)
  moreover have "fifo_trace tr (queue_abs ?L {} q0) (clients_abs ?L c)"
    using reaches_inv(2) [OF r L clients_start_inv [OF assms(6)]] by (simp add: clients_start_abs)
  moreover have "distinct (erasures tr)" "fifo_items (clients_abs ?L c) = {p \<in> set (f_ready (queue_abs ?L {} q0) @ pushes tr). fst p \<notin> set (erasures tr)}"
    using reaches_account [OF r L assms(6)] by (simp_all add: account_def)
  ultimately show ?thesis using r s by blast
qed

text \<open>Running a list of completions.\<close>

fun serve :: "('fs, 'db) externs \<Rightarrow> (('fs, 'db) server \<Rightarrow> bool) \<Rightarrow> completion list \<Rightarrow> ('fs, 'db) server \<Rightarrow> ('fs, 'db) server option" where
  "serve X P [] sv = Some sv"
| "serve X P (ev # evs) sv = (if P sv \<and> completes ev sv then
     (case server_step X ev sv of (Inr _, sv1) \<Rightarrow> serve X P evs sv1 | (Inl _, sv1) \<Rightarrow> None)
   else None)"

lemma serve_runs_from:
  assumes X: "at_time now stamp X = X"
  shows "server_runs X P sv0 evs0 sv \<Longrightarrow> serve X P evs sv = Some sv' \<Longrightarrow> server_runs X P sv0 (evs0 @ evs) sv'"
proof (induction evs arbitrary: evs0 sv)
  case (Cons ev evs)
  obtain r sv1 where st: "server_step X ev sv = (r, sv1)" by fastforce
  have p: "P sv" "completes ev sv" and r: "r = Inr ()" "serve X P evs sv1 = Some sv'"
    using Cons.prems(2) st by (auto split: if_splits sum.splits)
  have "server_runs X P sv0 (evs0 @ [ev]) sv1"
    by (rule server_runs.step [OF Cons.prems(1) p, of now stamp]) (use st r X in simp)
  from Cons.IH [OF this r(2)] show ?case by simp
qed simp

definition demo_server :: "(disk, mem_db) server" where
  "demo_server = next_handler \<lparr>sv_listen_port = 22133, sv_shared = demo_shared, sv_conns = Map.empty, sv_next = 0, sv_handler = 0,
     sv_accepting = False, sv_stopped = False\<rparr>"

text \<open>One connection gets the item of the queue, another one sets a new one; the reads and writes interleave.\<close>

definition demo_traffic :: "completion list" where
  "demo_traffic = [Accepted None, Accepted None, Received 0 (''get q'' @ crlf) None, Received 1 (''set q 0 0 5'' @ crlf @ ''he'') None,
     Written 0 None, Received 1 (''llo'' @ crlf) None, Written 1 None]"

lemma demo_time: "at_time 0 ''now'' demo_externs = demo_externs"
  by (simp add: at_time_def demo_externs_def)

lemma demo_serve:
  obtains sv q where "serve demo_externs (\<lambda>sv. roomy 0 (sv_shared sv)) demo_traffic demo_server = Some sv"
    "qm_heap (sh_queues (sv_shared sv)) 0 = Some q" "ready_ids q = [1]"
proof -
  have "map_option (\<lambda>sv. map_option ready_ids (qm_heap (sh_queues (sv_shared sv)) 0))
      (serve demo_externs (\<lambda>sv. roomy 0 (sv_shared sv)) demo_traffic demo_server) = Some (Some [1])"
    by code_simp
  with that show thesis by auto
qed

lemma demo_server_ok: "conns_ok demo_server" "untouched a demo_server" "sv_shared demo_server = demo_shared"
  by (auto simp: demo_server_def next_handler_def conns_ok_def untouched_def handler_ctor_def owned_by_def iq_new_def oq_new_def split: if_splits)

lemma demo_world: "world demo_externs ''data'' disk_view"
  by (simp add: world_def mem_failed_write_invisible)

lemma disk_queue_path: "journal_path disk_fs ''data'' (path disk_queue)"
proof -
  have "path disk_queue = ''data/q''" by code_simp
  then show ?thesis unfolding journal_path_def by (intro exI [of _ "''q''"]) (simp add: file_name_def disk_fs_def)
qed

theorem server_implements_fifo_witness:
  "\<exists>sv q tr c. server_runs demo_externs (\<lambda>sv. roomy 0 (sv_shared sv)) demo_server demo_traffic sv \<and>
     qm_heap (sh_queues (sv_shared sv)) 0 = Some q \<and> ready_ids q = [1] \<and> reaches mem_journal (clients_start disk_queue) tr c \<and> c_queue c = q \<and>
     fifo_items (clients_abs mem_journal c) = {p \<in> set ((0, ''hi'') # pushes tr). fst p \<notin> set (erasures tr)}"
proof -
  obtain sv q where sv: "serve demo_externs (\<lambda>sv. roomy 0 (sv_shared sv)) demo_traffic demo_server = Some sv"
    "qm_heap (sh_queues (sv_shared sv)) 0 = Some q" "ready_ids q = [1]" by (rule demo_serve)
  have runs: "server_runs demo_externs (\<lambda>sv. roomy 0 (sv_shared sv)) demo_server ([] @ demo_traffic) sv"
    by (rule serve_runs_from [OF demo_time server_runs.start sv(1)])
  have next_address: "0 < qm_next (sh_queues (sv_shared demo_server))" by (simp add: demo_server_ok disk_map_def)
  have inv: "queue_inv (x_ldb demo_externs) {} {} disk_queue" "journal_path (x_fs demo_externs) ''data'' (path disk_queue)"
    "qm_heap (sh_queues (sv_shared demo_server)) 0 = Some disk_queue"
    by (simp_all add: disk_queue_inv disk_queue_path demo_server_ok disk_map_facts)
  obtain tr c where "reaches mem_journal (clients_start disk_queue) tr c" "c_queue c = q"
    "fifo_items (clients_abs mem_journal c) = {p \<in> set ([(0, ''hi'')] @ pushes tr). fst p \<notin> set (erasures tr)}"
    using server_implements_fifo [OF demo_world demo_server_ok(1,2) next_address inv(3,1,2) runs sv(2)] by (auto simp: disk_queue_inv)
  then show ?thesis using runs sv(2,3) by auto
qed

section \<open>Accepting\<close>

lemma server_runs_first:
  assumes "server_runs X P sv0 (ev # evs) sv"
  shows "\<exists>now stamp sv1. P sv0 \<and> completes ev sv0 \<and> server_step (at_time now stamp X) ev sv0 = (Inr (), sv1) \<and> server_runs X P sv1 evs sv"
proof -
  have "server_runs X P sv0 es sv \<Longrightarrow> es = ev # evs \<Longrightarrow> ?thesis" for es
  proof (induction arbitrary: evs rule: server_runs.induct)
    case (step es sv ev' now stamp sv')
    show ?case
    proof (cases es)
      case Nil
      then have "sv = sv0" using step.hyps(1) by (auto elim: server_runs.cases)
      then show ?thesis using step Nil server_runs.start by fastforce
    next
      case (Cons e es')
      then have e: "es = ev # es'" "evs = es' @ [ev']" using step.prems by auto
      obtain t st sv1 where f: "P sv0" "completes ev sv0" "server_step (at_time t st X) ev sv0 = (Inr (), sv1)" "server_runs X P sv1 es' sv"
        using step.IH [OF e(1)] by blast
      have "server_runs X P sv1 evs sv'" unfolding e(2) by (rule server_runs.step [OF f(4) step.hyps(2-4)])
      with f(1-3) show ?thesis by blast
    qed
  qed simp
  then show ?thesis using assms by blast
qed

lemma run_conn_frame:
  assumes "run_conn X owned k f sv = (r, sv')"
  shows "sv_accepting sv' = sv_accepting sv \<and> sv_handler sv' = sv_handler sv \<and> sv_next sv' = sv_next sv \<and> dom (sv_conns sv') \<subseteq> dom (sv_conns sv)"
  using assms by (auto simp: run_conn_def Let_def split: option.splits prod.splits sum.splits if_splits)

lemma not_accepting_step:
  assumes "\<not> sv_accepting sv" "completes ev sv" "server_step X ev sv = (r, sv')"
  shows "\<not> sv_accepting sv' \<and> dom (sv_conns sv') \<subseteq> dom (sv_conns sv)"
proof (cases ev)
  case (Timer b it)
  then show ?thesis using assms
    by (fastforce simp: timer_completed_def split: option.splits prod.splits sum.splits dest!: run_conn_frame)
qed (use assms in \<open>auto split: option.splits pending.splits dest!: run_conn_frame\<close>)

lemma not_accepting_runs:
  assumes "server_runs X P sv0 evs sv" "\<not> sv_accepting sv0"
  shows "\<not> sv_accepting sv \<and> dom (sv_conns sv) \<subseteq> dom (sv_conns sv0)"
  using assms
proof (induction rule: server_runs.induct)
  case (step evs sv ev now stamp sv')
  then have "\<not> sv_accepting sv" "dom (sv_conns sv) \<subseteq> dom (sv_conns sv0)" by simp_all
  then show ?case using not_accepting_step [OF _ step.hyps(3,4)] by blast
qed simp

text \<open>
  C35: a failed accept is the last one: once an accept has completed with an error no accept is pending any more, and the server, although it
  goes on serving the connections it has, never takes a new one.
\<close>

theorem accept_error_is_final:
  assumes "server_runs X P sv0 (Accepted (Some e) # evs) sv"
  shows "\<not> sv_accepting sv \<and> dom (sv_conns sv) \<subseteq> dom (sv_conns sv0) \<and> (\<forall>r. \<not> completes (Accepted r) sv)"
proof -
  obtain now stamp sv1 where "server_step (at_time now stamp X) (Accepted (Some e)) sv0 = (Inr (), sv1)" and runs: "server_runs X P sv1 evs sv"
    using server_runs_first [OF assms] by blast
  then have "\<not> sv_accepting sv1" "dom (sv_conns sv1) = dom (sv_conns sv0)" by (auto simp: handle_accept_def Let_def)
  then show ?thesis using not_accepting_runs [OF runs] by simp
qed

theorem accept_error_is_final_witness:
  "\<exists>sv. server_runs demo_externs (\<lambda>sv. True) demo_server [Accepted (Some (Net_other 24))] sv \<and> \<not> sv_accepting sv \<and>
     (\<forall>r. \<not> completes (Accepted r) sv)"
proof -
  have "serve demo_externs (\<lambda>sv. True) [Accepted (Some (Net_other 24))] demo_server \<noteq> None"
    by (simp add: demo_server_def next_handler_def handle_accept_def Let_def)
  then obtain sv where "serve demo_externs (\<lambda>sv. True) [Accepted (Some (Net_other 24))] demo_server = Some sv" by blast
  from serve_runs_from [OF demo_time server_runs.start this]
  have r: "server_runs demo_externs (\<lambda>sv. True) demo_server [Accepted (Some (Net_other 24))] sv" by simp
  then show ?thesis using accept_error_is_final [OF r] by blast
qed

end
