(* ===== verification/Program.thy ===== *)
theory Program
  imports Server_Theorems
begin

text \<open>
  The program (\<^verbatim>\<open>main.cpp\<close>): options, the checks before the server starts, start and stop. Boost.Program_options is a parameter, as are
  the files of the machine.
\<close>

section \<open>Options\<close>

text \<open>
  \<open>po_parse\<close> and \<open>po_parse_file\<close> are a parser and \<^verbatim>\<open>po::store\<close> together, \<open>po_notify\<close> sets the variables of \<^verbatim>\<open>main\<close>; each gives what its
  exception says when it throws. \<open>po_help\<close> is the printed description of the options.
\<close>

record variables =
  v_config_path :: string
  v_port :: "32 word"
  v_data_path :: string

record 'vm program_options =
  po_parse :: "string list \<Rightarrow> string + 'vm"
  po_parse_file :: "string \<Rightarrow> 'vm \<Rightarrow> string + 'vm"
  po_notify :: "'vm \<Rightarrow> string + variables"
  po_count :: "'vm \<Rightarrow> string \<Rightarrow> nat"
  po_help :: string

text \<open>The end of the program: \<^verbatim>\<open>main\<close> returns, or an exception leaves it; with what it has written to the standard streams.\<close>

datatype finish = Exit int string string | Terminate string string

definition nl :: string where
  "nl = [CHR 0x0A]"

definition read_options :: "'vm program_options \<Rightarrow> string \<Rightarrow> (string \<Rightarrow> string option) \<Rightarrow> string list \<Rightarrow> finish + 'vm \<times> variables" where
  "read_options P version file argv = (case po_parse P argv of
     Inl what \<Rightarrow> Inl (Terminate [] [])
   | Inr vm \<Rightarrow> (case po_notify P vm of
       Inl what \<Rightarrow> Inl (Exit 1 (''error parsing commandline options: '' @ what @ nl) [])
     | Inr v \<Rightarrow>
         if po_count P vm ''help'' \<noteq> 0 then Inl (Exit 0 (po_help P @ nl) [])
         else if po_count P vm ''version'' \<noteq> 0 then Inl (Exit 0 (version @ nl) [])
         else if po_count P vm ''config'' \<noteq> 0 then
           (case file (v_config_path v) of
              None \<Rightarrow> Inl (Exit 1 [] (''can't open config file: '' @ v_config_path v @ nl))
            | Some text \<Rightarrow> (case po_parse_file P text vm of
                Inl what \<Rightarrow> Inl (Terminate [] [])
              | Inr vm1 \<Rightarrow> (case po_notify P vm1 of
                  Inl what \<Rightarrow> Inl (Exit 1 [] (''error reading config file: '' @ what @ nl))
                | Inr v1 \<Rightarrow> Inr (vm1, v1))))
         else Inr (vm, v)))"

section \<open>Start and stop\<close>

text \<open>\<^verbatim>\<open>__DATE__\<close> and \<^verbatim>\<open>__TIME__\<close> are the argument \<open>build\<close>.\<close>

definition startup_log :: "('fs, 'db) externs \<Rightarrow> string \<times> string \<Rightarrow> bool \<Rightarrow> variables \<Rightarrow> logs \<Rightarrow> string" where
  "startup_log X build debug v ls =
     (let say = (\<lambda>msg out. log_call (x_stamp X) msg (log_INFO ls) out);
          tell = (\<lambda>msg args out. log_format (x_format X) (x_stamp X) msg args (log_INFO ls) out);
          out1 = say ''darner: queue server'' [];
          out2 = tell ''build: %1% (%2%) v%3% (c) Wavii, Inc.'' [fst build, snd build, x_version X] out1;
          out3 = tell ''listening on port: %1%'' [signed_decimal (sint (v_port v))] out2;
          out4 = tell ''data dir: %1%'' [v_data_path v] out3;
          out5 = (if debug then say ''debug logging is turned ON'' out4 else out4)
      in say ''starting up'' out5)"

text \<open>
  From the start to the running server; \<open>is_dir\<close> is \<^verbatim>\<open>fs::exists(p) && fs::is_directory(p)\<close>. The signal mask that the server's thread
  inherits is not part of the state. The port goes from \<^verbatim>\<open>int\<close> to \<^verbatim>\<open>unsigned short\<close>.
\<close>

definition main_start :: "('fs, 'db) externs \<Rightarrow> 'vm program_options \<Rightarrow> (string \<Rightarrow> string option) \<Rightarrow> (string \<Rightarrow> 'fs \<Rightarrow> bool) \<Rightarrow>
    (port \<Rightarrow> error option) \<Rightarrow> string \<times> string \<Rightarrow> 'fs \<Rightarrow> string list \<Rightarrow> finish + ('fs, 'db) server \<times> string" where
  "main_start X P file is_dir listen build fs argv = (case read_options P (x_version X) file argv of
     Inl f \<Rightarrow> Inl f
   | Inr (vm, v) \<Rightarrow>
       if \<not> is_dir (v_data_path v) fs then Inl (Exit 1 [] (''cannot find the data directory: '' @ v_data_path v @ nl))
       else
         let debug = (po_count P vm ''debug'' \<noteq> 0); ls = log_init debug logs_start; out = startup_log X build debug v ls
         in case server_ctor X listen fs (v_data_path v) (ucast (v_port v)) ls [] of
              Inl e \<Rightarrow> Inl (Terminate out [])
            | Inr sv \<Rightarrow> Inr (sv, out))"

text \<open>After the signal.\<close>

definition main_finish :: "('fs, 'db) externs \<Rightarrow> ('fs, 'db) server \<Rightarrow> string \<Rightarrow> finish \<times> ('fs, 'db) server" where
  "main_finish X sv out =
     (let ls = sh_logs (sv_shared sv);
          out1 = log_call (x_stamp X) ''received signal. stopping server and finishing work.'' (log_INFO ls) out;
          sv1 = server_stop sv;
          out2 = log_call (x_stamp X) ''shut down. ciao.'' (log_INFO ls) out1
      in (Exit 0 out2 (sh_cerr (sv_shared sv1)), sv1))"

section \<open>A server that has started\<close>

lemma load_queues_loads:
  assumes "load_queues L F names m = (Inr (), m')" "queue_map_inv F m"
  shows "queue_map_inv F m' \<and> (\<forall>n. map_find (qm_queues m') n \<noteq> None \<longleftrightarrow> n \<in> set names \<or> map_find (qm_queues m) n \<noteq> None)"
  using assms
proof (induction names arbitrary: m)
  case (Cons n names)
  obtain a m1 where as: "assign_queue L F n m = (Inr a, m1)" and ld: "load_queues L F names m1 = (Inr (), m')"
    using Cons.prems(1) by (auto split: prod.splits sum.splits)
  note inv = assign_queue_inv [OF Cons.prems(2) as]
  show ?case using Cons.IH [OF ld inv(1)] inv(2) by auto
qed simp

lemma server_ctor_ready:
  assumes "server_ctor X listen fs d p ls err = Inr sv"
  shows "\<exists>names. fs_list (x_fs X) d fs = Some names \<and> queue_map_inv (x_fs X) (sh_queues (sv_shared sv)) \<and>
    (\<forall>n. map_find (qm_queues (sh_queues (sv_shared sv))) n \<noteq> None \<longleftrightarrow> n \<in> set names)"
    "conns_ok sv" "untouched a sv" "sv_accepting sv" "sv_listen_port sv = p"
proof -
  obtain m where m: "queue_map_ctor (x_ldb X) (x_fs X) fs d = (Inr (), m)" and
    sv: "sv = next_handler \<lparr>sv_listen_port = p, sv_shared = \<lparr>sh_queues = m, sh_stats = stats_ctor (x_now X), sh_logs = ls, sh_cerr = err\<rparr>,
       sv_conns = Map.empty, sv_next = 0, sv_handler = 0, sv_accepting = False, sv_stopped = False\<rparr>"
    using assms by (auto simp: server_ctor_def split: prod.splits sum.splits option.splits)
  let ?m = "\<lparr>qm_fs = fs, qm_heap = Map.empty, qm_next = 0, qm_queues = [], qm_data_path = d\<rparr>"
  obtain names where n: "fs_list (x_fs X) d fs = Some names" "load_queues (x_ldb X) (x_fs X) names ?m = (Inr (), m)"
    using m by (auto simp: queue_map_ctor_def Let_def split: option.splits)
  have "queue_map_inv (x_fs X) ?m" by (simp add: queue_map_inv_def map_sorted_def map_find_def)
  from load_queues_loads [OF n(2) this] show "\<exists>names. fs_list (x_fs X) d fs = Some names \<and> queue_map_inv (x_fs X) (sh_queues (sv_shared sv)) \<and>
      (\<forall>n. map_find (qm_queues (sh_queues (sv_shared sv))) n \<noteq> None \<longleftrightarrow> n \<in> set names)"
    using n(1) by (auto simp: sv next_handler_def map_find_def)
  show "conns_ok sv" "untouched a sv" "sv_accepting sv" "sv_listen_port sv = p"
    by (auto simp: sv next_handler_def conns_ok_def untouched_def handler_ctor_def owned_by_def iq_new_def oq_new_def split: if_splits)
qed

text \<open>
  C28: a server that has started serves exactly what it found: the data directory is there, each of its entries, and nothing else, is a queue under its
  own name with its own journal, no connection holds any of them, and the server accepts connections on the port of the options, modulo
  $2^{16}$.
\<close>

theorem startup_serves_the_directory:
  assumes "main_start X P file is_dir listen build fs argv = Inr (sv, out)"
  shows "\<exists>vm v names. read_options P (x_version X) file argv = Inr (vm, v) \<and> is_dir (v_data_path v) fs \<and>
    fs_list (x_fs X) (v_data_path v) fs = Some names \<and> queue_map_inv (x_fs X) (sh_queues (sv_shared sv)) \<and>
    (\<forall>n. map_find (qm_queues (sh_queues (sv_shared sv))) n \<noteq> None \<longleftrightarrow> n \<in> set names) \<and>
    conns_ok sv \<and> (\<forall>a. untouched a sv) \<and> sv_accepting sv \<and> unat (sv_listen_port sv) = unat (v_port v) mod 2 ^ 16"
proof -
  obtain vm v where o: "read_options P (x_version X) file argv = Inr (vm, v)" "is_dir (v_data_path v) fs"
    and ct: "server_ctor X listen fs (v_data_path v) (ucast (v_port v)) (log_init (po_count P vm ''debug'' \<noteq> 0) logs_start) [] = Inr sv"
    using assms by (auto simp: main_start_def Let_def split: sum.splits prod.splits if_splits)
  have "unat (ucast (v_port v) :: port) = unat (v_port v) mod 2 ^ 16" by (simp add: unsigned_ucast_eq take_bit_eq_mod)
  then have port: "unat (sv_listen_port sv) = unat (v_port v) mod 2 ^ 16" using server_ctor_ready(5) [OF ct] by simp
  obtain names where names: "fs_list (x_fs X) (v_data_path v) fs = Some names" "queue_map_inv (x_fs X) (sh_queues (sv_shared sv))"
    "\<forall>n. map_find (qm_queues (sh_queues (sv_shared sv))) n \<noteq> None \<longleftrightarrow> n \<in> set names"
    using server_ctor_ready(1) [OF ct] by blast
  show ?thesis
    by (intro exI conjI allI) (rule o names port server_ctor_ready(2-4) [OF ct] names(3) [rule_format])+
qed

definition demo_options :: "unit program_options" where
  "demo_options = \<lparr>po_parse = (\<lambda>argv. Inr ()), po_parse_file = (\<lambda>text vm. Inr vm),
     po_notify = (\<lambda>vm. Inr \<lparr>v_config_path = [], v_port = 87669, v_data_path = ''data''\<rparr>), po_count = (\<lambda>vm name. 0), po_help = []\<rparr>"

theorem startup_serves_the_directory_witness:
  "\<exists>sv out. main_start demo_externs demo_options (\<lambda>p. None) (\<lambda>p fs. True) (\<lambda>p. None) (''Jan 01'', ''12:00'') [(''data/q'', mem_empty [])] [] = Inr (sv, out) \<and>
     map_find (qm_queues (sh_queues (sv_shared sv))) ''q'' \<noteq> None \<and> unat (sv_listen_port sv) = 22133"
proof -
  define res where "res = main_start demo_externs demo_options (\<lambda>p. None) (\<lambda>p fs. True) (\<lambda>p. None) (''Jan 01'', ''12:00'') [(''data/q'', mem_empty [])] []"
  have q: "fst (queue_map_ctor mem_journal disk_fs [(''data/q'', mem_empty [])] ''data'' :: ((disk, mem_db, nat) queue_map, unit) outcome) = Inr ()"
    by code_simp
  have "server_ctor demo_externs (\<lambda>p. None) [(''data/q'', mem_empty [])] ''data'' p ls [] \<noteq> Inl e" for p ls e
    using q unfolding server_ctor_def demo_sel by (auto split: prod.split sum.split)
  then have "\<not> isl res" by (simp add: res_def main_start_def read_options_def demo_options_def Let_def split: sum.split)
  then obtain sv out where "res = Inr (sv, out)" by (cases res) auto
  note r = this [unfolded res_def]
  obtain vm v names where v: "read_options demo_options (x_version demo_externs) (\<lambda>p. None) [] = Inr (vm, v)"
    "fs_list (x_fs demo_externs) (v_data_path v) [(''data/q'', mem_empty [])] = Some names"
    "\<forall>n. map_find (qm_queues (sh_queues (sv_shared sv))) n \<noteq> None \<longleftrightarrow> n \<in> set names"
    "unat (sv_listen_port sv) = unat (v_port v) mod 2 ^ 16"
    using startup_serves_the_directory [OF r] by blast
  then have d: "v_data_path v = ''data''" "v_port v = 87669" by (auto simp: read_options_def demo_options_def)
  then have n: "names = [''q'']" using v(2) by (simp add: disk_fs_def)
  have "map_find (qm_queues (sh_queues (sv_shared sv))) ''q'' \<noteq> None" using v(3) n by simp
  moreover have "unat (sv_listen_port sv) = 22133" using v(4) d by simp
  ultimately show ?thesis using r by blast
qed

end
