(* ===== verification/Server_Conns.thy ===== *)
theory Server_Conns
  imports Method_Relation Program
begin

text \<open>
  The connections of the server and the waiters of its queues belong together: a connection that waits for an item is the callback of
  exactly one waiter, every waiter calls back a connection that waits for it, every other connection has one operation under way, and the
  counters of opened and closed connections tell how many there are.
\<close>

section \<open>Who waits on a queue\<close>

definition who :: "('db, 'cb) queue \<Rightarrow> (nat \<times> 'cb) list" where
  "who q = map (\<lambda>v. (w_node v, w_cb v)) (waiters q)"

text \<open>Methods that leave the waiters in place; they may wake one up.\<close>

definition calm :: "('db, 'cb) queue \<Rightarrow> ('db, 'cb) queue \<Rightarrow> bool" where
  "calm q q' \<longleftrightarrow> who q' = who q \<and> next_node q' = next_node q \<and> (waiters q' = [] \<longleftrightarrow> waiters q = [])"

lemma calm_refl [simp]: "calm q q"
  by (simp add: calm_def)

lemma calm_trans [trans]: "calm q q1 \<Longrightarrow> calm q1 q2 \<Longrightarrow> calm q q2"
  by (simp add: calm_def)

lemma calm_fields [simp]:
  "calm q (q'\<lparr>journal := db\<rparr>) = calm q q'" "calm q (q'\<lparr>queue_head := k\<rparr>) = calm q q'" "calm q (q'\<lparr>queue_tail := k\<rparr>) = calm q q'"
  "calm q (q'\<lparr>chunks_head := k\<rparr>) = calm q q'" "calm q (q'\<lparr>returned := r\<rparr>) = calm q q'" "calm q (q'\<lparr>items_open := n\<rparr>) = calm q q'"
  "calm q (q'\<lparr>bytes_evicted := n\<rparr>) = calm q q'" "calm q (q'\<lparr>path := p\<rparr>) = calm q q'" "calm q (q'\<lparr>destroy_flag := b\<rparr>) = calm q q'"
  "calm (q\<lparr>bytes_evicted := n\<rparr>) q' = calm q q'"
  by (simp_all add: calm_def who_def)

lemma calm_wake_up [simp]: "calm q (wake_up q') = calm q q'"
proof -
  have "map (\<lambda>v. (w_node v, w_cb v)) (cancel_timer n ws) = map (\<lambda>v. (w_node v, w_cb v)) ws" "cancel_timer n ws = [] \<longleftrightarrow> ws = []" for n and ws :: "'b waiter list"
    by (auto simp: cancel_timer_def)
  then show ?thesis by (simp add: calm_def who_def wake_up_def split: option.split)
qed

lemma calm_put: "queue_put L k v sync q = (r, q') \<Longrightarrow> calm q q'"
  by (auto simp: queue_put_def split: prod.splits if_splits)

lemma calm_write: "queue_write L b q = (r, q') \<Longrightarrow> calm q q'"
  by (auto simp: queue_write_def split: prod.splits if_splits)

lemma calm_compact: "compact L q = (r, q') \<Longrightarrow> calm q q'"
  by (auto simp: compact_def Let_def split: option.splits)

lemma calm_push_item: "push_item L x sync q = (r, q') \<Longrightarrow> calm q q'"
  by (auto simp: push_item_def split: if_splits prod.splits sum.splits dest: calm_put)

lemma calm_push_header: "push_header L h sync q = (r, q') \<Longrightarrow> calm q q'"
  by (auto simp: push_header_def split: option.splits if_splits prod.splits sum.splits dest: calm_put)

lemma calm_pop_begin: "pop_begin q = (r, q') \<Longrightarrow> calm q q'"
  by (auto simp: pop_begin_def split: list.splits if_splits)

lemma calm_pop_end: "pop_end L e i h q = (r, q') \<Longrightarrow> calm q q'"
  by (auto simp: pop_end_def Let_def split: if_splits prod.splits sum.splits dest!: calm_write calm_compact intro: calm_trans)

lemma calm_iq_open: "iq_open a q s = (r, (q', s')) \<Longrightarrow> calm q q'"
  by (auto simp: iq_open_def split: if_splits option.splits prod.splits dest: calm_pop_begin)

lemma calm_iq_close: "iq_close L e q s = (r, (q', s')) \<Longrightarrow> calm q q'"
  by (auto simp: iq_close_def split: if_splits sum.splits prod.splits dest: calm_pop_end)

lemma calm_iq_dtor: "calm q (iq_dtor L q s)"
  by (cases "pop_end L False (is_id s) (is_header s) q") (auto simp: iq_dtor_def dest: calm_pop_end)

lemma calm_oq_open: "oq_open a n sync q s = (r, (q', s')) \<Longrightarrow> calm q q'"
  by (auto simp: oq_open_def reserve_chunks_def split: if_splits prod.splits)

lemma calm_oq_write: "oq_write L x q s = (r, (q', s')) \<Longrightarrow> calm q q'"
  by (auto simp: oq_write_def write_chunk_def Let_def split: if_splits prod.splits sum.splits
      dest!: calm_push_item calm_push_header calm_put intro: calm_trans)

lemma calm_oq_dtor: "calm q (oq_dtor L q s)"
  by (cases "erase_chunks L (os_header s) q")
    (auto simp: oq_dtor_def oq_cancel_def erase_chunks_def split: sum.splits dest: calm_write)

lemma calm_destroy: "queue_destroy F fs q = (r, (fs', q')) \<Longrightarrow> calm q q'"
  by (auto simp: queue_destroy_def Let_def split: if_split_asm option.split_asm prod.split_asm bool.split_asm)

section \<open>The waiters of all queues\<close>

definition map_ok :: "('fs, 'db, 'cb) queue_map \<Rightarrow> bool" where
  "map_ok m \<longleftrightarrow> map_sorted (qm_queues m) \<and> (\<forall>a q. qm_heap m a = Some q \<longrightarrow> a < qm_next m \<and> distinct (map fst (who q)) \<and> (\<forall>n \<in> fst ` set (who q). n < next_node q))"

definition map_waits :: "('fs, 'db, 'cb) queue_map \<Rightarrow> nat \<Rightarrow> (nat \<times> 'cb) list" where
  "map_waits m a = (case qm_heap m a of None \<Rightarrow> [] | Some q \<Rightarrow> who q)"

definition map_keeps :: "('fs, 'db, 'cb) queue_map \<Rightarrow> ('fs, 'db, 'cb) queue_map \<Rightarrow> bool" where
  "map_keeps m m' \<longleftrightarrow> (map_ok m \<longrightarrow> map_ok m' \<and> map_waits m' = map_waits m)"

lemma map_keeps_refl [simp]: "map_keeps m m"
  by (simp add: map_keeps_def)

lemma map_keeps_trans: "map_keeps m m1 \<Longrightarrow> map_keeps m1 m2 \<Longrightarrow> map_keeps m m2"
  by (simp add: map_keeps_def)

lemma map_keeps_calm:
  assumes "qm_heap m a = Some q" "calm q q'" "qm_heap m' = (qm_heap m)(a \<mapsto> q')" "qm_next m' = qm_next m"
    and "map_sorted (qm_queues m) \<Longrightarrow> map_sorted (qm_queues m')"
  shows "map_keeps m m'"
proof -
  have h: "qm_heap m' b = (if b = a then Some q' else qm_heap m b)" for b using assms(3) by simp
  have "map_waits m' b = map_waits m b" for b using assms(1,2) by (simp add: map_waits_def calm_def h)
  then have "map_waits m' = map_waits m" by blast
  moreover have "b < qm_next m' \<and> distinct (map fst (who p)) \<and> (\<forall>n \<in> fst ` set (who p). n < next_node p)"
    if ok: "map_ok m" and p: "qm_heap m' b = Some p" for b p
  proof (cases "b = a")
    case True
    then have "p = q'" using p h by simp
    then show ?thesis using ok [unfolded map_ok_def, THEN conjunct2, rule_format, OF assms(1)] assms(2,4) True by (simp add: calm_def)
  next
    case False
    then have "qm_heap m b = Some p" using p h by simp
    from ok [unfolded map_ok_def, THEN conjunct2, rule_format, OF this] show ?thesis using assms(4) by simp
  qed
  then have "map_ok m \<Longrightarrow> map_ok m'" using assms(5) unfolding map_ok_def by blast
  ultimately show ?thesis by (simp add: map_keeps_def)
qed

lemma map_keeps_freed:
  assumes "\<And>q. qm_heap m a = Some q \<Longrightarrow> waiters q = []" "qm_heap m' = (qm_heap m)(a := None)" "qm_next m' = qm_next m"
    and "qm_queues m' = qm_queues m"
  shows "map_keeps m m'"
proof -
  have "map_waits m' = map_waits m" using assms(1,2) by (auto simp: map_waits_def who_def fun_eq_iff split: option.split)
  moreover have "map_ok m \<Longrightarrow> map_ok m'" using assms(2-4) by (auto simp: map_ok_def split: if_splits)
  ultimately show ?thesis by (simp add: map_keeps_def)
qed

lemma map_keeps_new:
  assumes "waiters q = []" "qm_heap m' = (qm_heap m)(qm_next m \<mapsto> q)" "qm_next m' = Suc (qm_next m)"
    and "map_sorted (qm_queues m) \<Longrightarrow> map_sorted (qm_queues m')"
  shows "map_keeps m m'"
proof -
  have "map_waits m' = map_waits m \<and> map_ok m'" if ok: "map_ok m"
  proof -
    have "qm_heap m (qm_next m) = None" using ok by (cases "qm_heap m (qm_next m)") (auto simp: map_ok_def)
    then have "map_waits m' = map_waits m" using assms(1,2) by (auto simp: map_waits_def who_def fun_eq_iff)
    moreover have "map_ok m'" using ok assms by (auto simp: map_ok_def who_def less_Suc_eq split: if_splits)
    ultimately show ?thesis ..
  qed
  then show ?thesis by (simp add: map_keeps_def)
qed

lemma map_keeps_same: "qm_heap m' = qm_heap m \<Longrightarrow> qm_next m' = qm_next m \<Longrightarrow> qm_queues m' = qm_queues m \<Longrightarrow> map_keeps m m'"
  by (simp add: map_keeps_def map_ok_def map_waits_def fun_eq_iff)

lemma assign_queue_keeps:
  assumes "assign_queue L F n m = (r, m')"
  shows "map_keeps m m'"
proof (cases r)
  case (Inl e)
  then show ?thesis using assms
    by (auto simp: assign_queue_def make_queue_def Let_def split: prod.splits sum.splits intro: map_keeps_same)
next
  case (Inr a)
  then show ?thesis using assms
    by (auto simp: assign_queue_def make_queue_def Let_def split: prod.splits sum.splits dest!: queue_ctor_alive intro!: map_keeps_new map_sorted_insert)
qed

lemma release_queue_keeps:
  assumes "release_queue F owned a m = (r, m')"
  shows "map_keeps m m'"
  using assms by (auto simp: release_queue_def split: option.splits if_splits prod.splits intro!: map_keeps_freed)

lemma queue_map_remove_keeps:
  assumes "queue_map_remove F owned n a m = (r, m')"
  shows "map_keeps m m'"
proof (cases "qm_heap m a")
  case None
  then show ?thesis using assms by (simp add: queue_map_remove_def)
next
  case (Some q)
  obtain r1 fs1 q1 where des: "queue_destroy F (qm_fs m) q = (r1, (fs1, q1))" by (metis prod.exhaust)
  note c = calm_destroy [OF des]
  let ?m = "m\<lparr>qm_fs := fs1, qm_heap := (qm_heap m)(a \<mapsto> q1), qm_queues := map_erase n (qm_queues m)\<rparr>"
  show ?thesis
  proof (cases r1)
    case (Inl e)
    then show ?thesis using assms Some des by (auto simp: queue_map_remove_def intro!: map_keeps_calm [OF Some c])
  next
    case (Inr u)
    then have "release_queue F owned a ?m = (r, m')" using assms Some des by (simp add: queue_map_remove_def)
    moreover have "map_keeps m ?m" by (rule map_keeps_calm [OF Some c]) (simp_all add: map_sorted_erase)
    ultimately show ?thesis using release_queue_keeps map_keeps_trans by blast
  qed
qed

lemma queue_map_erase_keeps:
  assumes "queue_map_erase L F owned n recreate m = (r, m')"
  shows "map_keeps m m'"
proof (cases "map_find (qm_queues m) n")
  case None
  then show ?thesis using assms by (simp add: queue_map_erase_def)
next
  case (Some a)
  obtain r1 m1 where rm: "queue_map_remove F owned n a m = (r1, m1)" by fastforce
  have "m' = m1 \<or> (\<exists>r2. assign_queue L F n m1 = (r2, m'))"
    using assms Some rm by (auto simp: queue_map_erase_def split: sum.splits if_splits prod.splits)
  then show ?thesis using queue_map_remove_keeps [OF rm] assign_queue_keeps map_keeps_trans by blast
qed

section \<open>What a handler's method keeps\<close>

text \<open>
  A method keeps the waiters and the counters of connections, and does not make the handler wait; a method that may wait does the same, or adds the handler as the
  last waiter of one queue, the one that its request names.
\<close>

definition keeps :: "('fs, 'db) conn \<Rightarrow> ('fs, 'db) conn \<Rightarrow> bool" where
  "keeps x y \<longleftrightarrow> same_counts (snd x) (snd y) \<and> map_keeps (sh_queues (snd x)) (sh_queues (snd y)) \<and>
     (hn_pending (fst y) = P_wait \<longrightarrow> hn_pending (fst x) = P_wait)"

lemma keeps_refl [simp]: "keeps x x"
  by (simp add: keeps_def same_counts_def)

lemma keeps_trans: "keeps x y \<Longrightarrow> keeps y z \<Longrightarrow> keeps x z"
  using map_keeps_trans by (fastforce simp: keeps_def same_counts_def)

lemma keeps_map:
  assumes "map_keeps (sh_queues w) (sh_queues w')" "sh_stats w' = sh_stats w" "hn_pending s' = hn_pending s"
  shows "keeps (s, w) (s', w')"
  using assms by (simp add: keeps_def same_counts_def)

interpretation kp: method_relation X keeps calm for X
proof unfold_locales
  show "keeps x z" if "keeps x y" "keeps y z" for x y z :: "('a, 'b) conn" by (rule keeps_trans [OF that])
  show "keeps (s, w) (s', w')" if "sh_queues w' = sh_queues w" "same_counts w w'" "hn_pending s' = P_wait \<longrightarrow> hn_pending s = P_wait"
    for s s' and w w' :: "('a, 'b) shared" using that by (simp add: keeps_def)
  show "keeps (s, w) (s', set_queue a q' w)" if "qm_heap (sh_queues w) a = Some q" "calm q q'" "hn_pending s' = hn_pending s"
    for s s' a q q' and w :: "('a, 'b) shared" by (rule keeps_map [OF map_keeps_calm [OF that(1,2)] _ that(3)]) simp_all
  show "keeps (s, w) (s, w\<lparr>sh_queues := m\<rparr>)" if "release_queue (x_fs X) owned a (sh_queues w) = (r, m)" for s owned a r m and w :: "('a, 'b) shared"
    by (rule keeps_map) (simp_all add: release_queue_keeps [OF that])
  show "keeps (s, w) (s, w\<lparr>sh_queues := m\<rparr>)" if "queue_map_get (x_ldb X) (x_fs X) n (sh_queues w) = (r, m)" for s n r m and w :: "('a, 'b) shared"
    by (rule keeps_map) (use that in \<open>auto simp: queue_map_get_def split: option.splits dest: assign_queue_keeps\<close>)
qed (simp_all add: calm_iq_dtor calm_oq_dtor calm_iq_open calm_iq_close calm_oq_open calm_oq_write)

text \<open>A handler that may wait: when its callback runs, it will look for an item as it did before.\<close>

definition waiting_ok :: "handler \<Rightarrow> bool" where
  "waiting_ok s \<longleftrightarrow> is_queue (hn_pop_stream s) = None \<and> \<not> r_get_abort (hn_req s) \<and> (r_get_close (hn_req s) \<longrightarrow> r_get_open (hn_req s)) \<and>
     \<not> (r_get_peek (hn_req s) \<and> r_get_open (hn_req s))"

definition joins :: "nat \<Rightarrow> ('fs, 'db) conn \<Rightarrow> ('fs, 'db) conn \<Rightarrow> bool" where
  "joins k x y \<longleftrightarrow> same_counts (snd x) (snd y) \<and> hn_pending (fst y) = P_wait \<and> waiting_ok (fst y) \<and> (map_ok (sh_queues (snd x)) \<longrightarrow> map_ok (sh_queues (snd y)) \<and>
     (\<exists>a n. map_waits (sh_queues (snd y)) = (map_waits (sh_queues (snd x)))(a := map_waits (sh_queues (snd x)) a @ [(n, k)]) \<and>
       map_find (qm_queues (sh_queues (snd y))) (r_queue (hn_req (fst y))) = Some a))"

definition advances :: "nat \<Rightarrow> ('fs, 'db) conn \<Rightarrow> ('fs, 'db) conn \<Rightarrow> bool" where
  "advances k x y \<longleftrightarrow> keeps x y \<or> joins k x y"

lemma advances_keeps: "keeps x y \<Longrightarrow> advances k x y"
  by (simp add: advances_def)

lemma keeps_advances:
  assumes "keeps x y" "advances k y z"
  shows "advances k x z"
  using assms(2) unfolding advances_def
proof
  assume "keeps y z"
  then show "keeps x z \<or> joins k x z" using keeps_trans [OF assms(1)] by blast
next
  assume "joins k y z"
  then have "joins k x z" using assms(1) unfolding joins_def keeps_def same_counts_def map_keeps_def by metis
  then show "keeps x z \<or> joins k x z" ..
qed

lemma try_then_advances:
  assumes "keeps x (snd r)" "\<And>e. keeps (snd r) (snd (on_error e (snd r)))" "\<And>u c. r = (Inr u, c) \<Longrightarrow> advances k c (snd (rest c))"
  shows "advances k x (snd (try_then r on_error rest))"
proof -
  obtain o1 c where r: "r = (o1, c)" by (rule prod.exhaust)
  have "advances k x (snd (on_error e c))" for e using advances_keeps [OF keeps_trans [OF assms(1,2)]] r by simp
  moreover have "advances k x c" using advances_keeps [OF assms(1)] r by simp
  moreover have "advances k x (snd (rest c))" if "o1 = Inr u" for u using keeps_advances [OF assms(1)] assms(3) [of u c] that r by simp
  ultimately show ?thesis unfolding try_then_def r by (cases o1) simp_all
qed

lemma handler_erase_keeps: "keeps x (snd (handler_erase X others recreate msg x))"
proof -
  obtain s w where x: "x = (s, w)" by fastforce
  obtain r m where e: "queue_map_erase (x_ldb X) (x_fs X) (\<lambda>b. others b \<or> owned_by s b) (r_queue (hn_req s)) recreate (sh_queues w) = (r, m)" by fastforce
  have k: "keeps (s, w) (s, w\<lparr>sh_queues := m\<rparr>)" by (rule keeps_map) (simp_all add: queue_map_erase_keeps [OF e])
  then show ?thesis using e keeps_trans [OF k kp.quiet_methods_rel(1) [of _ msg]] by (cases r) (simp_all add: x handler_erase_def)
qed

lemma handler_flush_all_keeps: "keeps x (snd (handler_flush_all X others x))"
proof -
  obtain s w where x: "x = (s, w)" by fastforce
  show ?thesis
  proof (cases "qm_queues (sh_queues w)")
    case Nil
    then show ?thesis by (simp add: x handler_flush_all_def kp.quiet_methods_rel)
  next
    case (Cons e es)
    obtain n b where e: "e = (n, b)" by fastforce
    obtain r m where rm: "queue_map_remove (x_fs X) (\<lambda>b. others b \<or> owned_by s b) n b (sh_queues w) = (r, m)" by fastforce
    have "keeps (s, w) (s, w\<lparr>sh_queues := m\<rparr>)" by (rule keeps_map) (simp_all add: queue_map_remove_keeps [OF rm])
    then show ?thesis using Cons e rm by (cases r) (simp_all add: x handler_flush_all_def)
  qed
qed

text \<open>The methods that may start to wait.\<close>

lemma wait_joins:
  assumes "qm_heap (sh_queues w) a = Some q" "waiting_ok s"
    and "map_ok (sh_queues w) \<Longrightarrow> map_find (qm_queues (sh_queues w)) (r_queue (hn_req s)) = Some a"
  shows "joins k (s, w) (s\<lparr>hn_pending := P_wait\<rparr>, set_queue a (wait ms k q) w)"
proof -
  let ?w = "set_queue a (wait ms k q) w"
  have who: "who (wait ms k q) = who q @ [(next_node q, k)]" "next_node (wait ms k q) = Suc (next_node q)"
    by (simp_all add: who_def wait_def Let_def)
  have h: "qm_heap (sh_queues ?w) b = (if b = a then Some (wait ms k q) else qm_heap (sh_queues w) b)" "qm_next (sh_queues ?w) = qm_next (sh_queues w)" for b
    by (simp_all add: set_queue_def)
  have "map_waits (sh_queues ?w) = (map_waits (sh_queues w))(a := map_waits (sh_queues w) a @ [(next_node q, k)])"
    using assms(1) h who by (auto simp: map_waits_def fun_eq_iff)
  moreover have "map_ok (sh_queues ?w)" if ok: "map_ok (sh_queues w)"
  proof -
    have "distinct (map fst (who (wait ms k q))) \<and> (\<forall>n \<in> fst ` set (who (wait ms k q)). n < next_node (wait ms k q))"
      using ok [unfolded map_ok_def, THEN conjunct2, rule_format, OF assms(1)] who by (auto simp: less_Suc_eq)
    then show ?thesis using ok assms(1) h unfolding map_ok_def by (simp add: set_queue_def)
  qed
  ultimately show ?thesis using assms(2,3) by (auto simp: joins_def same_counts_def waiting_ok_def set_queue_def)
qed

lemma find_queue_named:
  assumes "find_queue X n (s, w) = (Inr (b, q), (s, w1))" "map_sorted (qm_queues (sh_queues w))"
  shows "map_find (qm_queues (sh_queues w1)) n = Some b"
  using assms by (auto simp: find_queue_def queue_map_get_def assign_queue_def make_queue_def Let_def om.find_insert split: option.splits prod.splits sum.splits)

lemma handler_wait_advances:
  assumes "waiting_ok (fst x)"
  shows "advances k x (snd (handler_wait X k x))"
proof -
  obtain s w where x: "x = (s, w)" by fastforce
  obtain r w1 where f: "find_queue X (r_queue (hn_req s)) (s, w) = (r, (s, w1))" by (rule find_queue_same)
  have kp: "keeps (s, w) (s, w1)" using kp.find_queue_rel [of "(s, w)" X "r_queue (hn_req s)"] f by simp
  show ?thesis
  proof (cases r)
    case (Inl e)
    then show ?thesis using f kp by (simp add: x handler_wait_def advances_def)
  next
    case (Inr bq)
    obtain b q where bq: "bq = (b, q)" by fastforce
    have hb: "qm_heap (sh_queues w1) b = Some q" using find_queue_frame(4) [OF f] Inr bq by simp
    let ?y = "(s\<lparr>hn_pending := P_wait\<rparr>, set_queue b (wait (r_wait_ms (hn_req s)) k q) w1)"
    have y: "snd (handler_wait X k x) = ?y" using f Inr bq by (simp add: x handler_wait_def)
    show ?thesis
    proof (cases "map_ok (sh_queues w)")
      case True
      then have "map_find (qm_queues (sh_queues w1)) (r_queue (hn_req s)) = Some b" using find_queue_named f Inr bq by (auto simp: map_ok_def)
      then have "joins k (s, w1) ?y" using wait_joins [OF hb] assms x by simp
      then have "advances k (s, w) ?y" by (intro keeps_advances [OF kp]) (simp add: advances_def)
      then show ?thesis using y by (simp add: x)
    next
      case False
      have "same_counts w w1" using kp by (simp add: keeps_def)
      then have "joins k (s, w) ?y" using False assms by (simp add: joins_def same_counts_def waiting_ok_def x)
      then show ?thesis using y by (simp add: x advances_def)
    qed
  qed
qed

text \<open>A client waits only after it has looked for an item and found none.\<close>

lemma pop_stream_open_missed:
  assumes "pop_stream_open X x = (Inr False, y)"
  shows "hn_req (fst y) = hn_req (fst x)" "hn_pop_stream (fst y) = hn_pop_stream (fst x)"
proof -
  obtain s w where x: "x = (s, w)" by fastforce
  obtain r w1 where f: "find_queue X (r_queue (hn_req s)) (s, w) = (r, (s, w1))" by (rule find_queue_same)
  show "hn_req (fst y) = hn_req (fst x)" "hn_pop_stream (fst y) = hn_pop_stream (fst x)"
    using assms f by (auto simp: x pop_stream_open_def iq_open_def split: sum.splits prod.splits if_splits option.splits)
qed

lemma handler_get_next_advances:
  assumes "is_queue (hn_pop_stream (fst x)) = None" "\<not> (r_get_peek (hn_req (fst x)) \<and> r_get_open (hn_req (fst x)))"
  shows "advances k x (snd (handler_get_next X others k x))"
proof -
  let ?r = "hn_req (fst x)" and ?msg = "''END'' @ crlf"
  obtain r y where o: "pop_stream_open X x = (r, y)" by (rule prod.exhaust)
  have xy: "keeps x y" using kp.pop_stream_open_rel [of x X] o by simp
  have t: "advances k y (snd (try_then (pop_stream_read X y) (handler_error_exn X k ''get'' True) (handler_get_reply X others k)))"
    by (rule advances_keeps, rule kp.try_then_rel, rule kp.pop_stream_read_rel, rule kp.quiet_methods_rel(4), rule kp.handler_get_reply_rel)
  have e: "advances k x (snd (handler_end ?msg x))" "advances k x (snd (handler_end ?msg y))"
    by (rule advances_keeps, rule kp.quiet_methods_rel(1)) (rule advances_keeps, rule keeps_trans [OF xy kp.quiet_methods_rel(1)])
  have w: "advances k x (snd (handler_wait X k y))" if "r = Inr False" "\<not> (r_get_close ?r \<and> \<not> r_get_open ?r \<or> r_get_abort ?r)"
    by (rule keeps_advances [OF xy handler_wait_advances]) (use that o pop_stream_open_missed [of X x y] assms in \<open>auto simp: waiting_ok_def\<close>)
  show ?thesis using o e advances_keeps [OF xy] w keeps_advances [OF xy t] by (cases r) (simp_all add: handler_get_next_def Let_def)
qed

lemma pop_stream_close_closed:
  assumes "pop_stream_close X others e x = (Inr u, y)"
  shows "is_queue (hn_pop_stream (fst y)) = None" "hn_req (fst y) = hn_req (fst x)"
proof -
  obtain s w where x: "x = (s, w)" by fastforce
  have "is_queue (hn_pop_stream (fst y)) = None \<and> hn_req (fst y) = hn_req s"
  proof (cases "is_queue (hn_pop_stream s)")
    case None
    then show ?thesis using assms by (auto simp: x pop_stream_close_def)
  next
    case (Some a)
    then obtain q where q: "qm_heap (sh_queues w) a = Some q" using assms by (cases "qm_heap (sh_queues w) a") (simp_all add: x pop_stream_close_def)
    obtain r q1 p where c: "iq_close (x_ldb X) e q (hn_pop_stream s) = (r, (q1, p))" by (metis prod.exhaust)
    have r: "r = Inr ()" using assms Some q c by (cases r) (simp_all add: x pop_stream_close_def)
    have "is_queue p = None" using c r Some by (auto simp: iq_close_def split: prod.splits sum.splits)
    moreover have "fst y = s\<lparr>hn_pop_stream := p\<rparr>" using assms Some q c r by (auto simp: x pop_stream_close_def let_go_def split: prod.splits)
    ultimately show ?thesis by simp
  qed
  then show "is_queue (hn_pop_stream (fst y)) = None" "hn_req (fst y) = hn_req (fst x)" by (simp_all add: x)
qed

lemma handler_get_advances: "advances k x (snd (handler_get X others k x))"
proof -
  have t: "advances k x (snd (try_then (pop_stream_close X others e x) (handler_error_exn X k ''get'' True) (handler_get_next X others k)))"
    if "\<not> (r_get_peek (hn_req (fst x)) \<and> r_get_open (hn_req (fst x)))" for e
  proof (rule try_then_advances, rule kp.pop_stream_close_rel, rule kp.quiet_methods_rel(4))
    show "advances k c (snd (handler_get_next X others k c))" if p: "pop_stream_close X others e x = (Inr u, c)" for u c
      by (rule handler_get_next_advances) (use pop_stream_close_closed [OF p] \<open>\<not> (r_get_peek (hn_req (fst x)) \<and> r_get_open (hn_req (fst x)))\<close> in simp_all)
  qed
  have e: "advances k x (snd (handler_error_reply m ty x))" for m ty by (rule advances_keeps [OF kp.quiet_methods_rel(2)])
  show ?thesis using t e handler_get_next_advances [of x k X others] by (simp add: handler_get_def Let_def)
qed

lemma handler_get_on_queue_return_advances: "advances k x (snd (handler_get_on_queue_return X others k e x))"
  by (cases e) (simp_all add: handler_get_on_queue_return_def handler_get_advances advances_keeps kp.quiet_methods_rel)

lemma handler_route_advances: "advances k x (snd (handler_route X others k x))"
proof -
  have s: "keeps x (update_stats (\<lambda>st. st\<lparr>cmd_sets := cmd_sets st + 1\<rparr>) x)" "keeps x (update_stats (\<lambda>st. st\<lparr>cmd_gets := cmd_gets st + 1\<rparr>) x)"
    by (rule kp.update_stats_rel, simp)+
  show ?thesis using advances_keeps [OF keeps_trans [OF s(1) kp.handler_set_rel]] keeps_advances [OF s(2) handler_get_advances]
    by (auto simp: handler_route_def handler_destroy_def handler_flush_def advances_keeps handler_erase_keeps handler_flush_all_keeps kp.quiet_methods_rel
        split: option.split request_type.split)
qed

lemma handler_parse_request_advances: "advances k x (snd (handler_parse_request X others k e n x))"
proof -
  obtain s w where x: "x = (s, w)" by fastforce
  have q: "keeps (s, w) (s\<lparr>hn_buf := b, hn_req := r\<rparr>, w)" "keeps (s, w) (s\<lparr>hn_buf := b, hn_req := r, hn_in := i\<rparr>, w)" for b r i
    by (rule kp.quiet_rel, simp_all add: same_counts_def)+
  obtain b r where p: "request_parse (x_qi X) (take n (hn_in s)) (hn_req s) = (b, r)" by fastforce
  have "advances k (s, w) (snd (handler_error_reply [] ''ERROR'' (s\<lparr>hn_buf := take n (hn_in s), hn_req := r\<rparr>, w)))"
    by (rule advances_keeps [OF keeps_trans [OF q(1) kp.quiet_methods_rel(2)]])
  moreover have "advances k (s, w) (snd (handler_route X others k (s\<lparr>hn_buf := take n (hn_in s), hn_req := r, hn_in := drop n (hn_in s)\<rparr>, w)))"
    by (rule keeps_advances [OF q(2) handler_route_advances])
  moreover have "advances k (s, w) (snd (handler_error_code X k loc err (s, w)))" for loc err by (rule advances_keeps [OF kp.quiet_methods_rel(3)])
  ultimately show ?thesis using p by (cases e; cases b) (simp_all add: x handler_parse_request_def Let_def advances_keeps)
qed

lemma received_advances: "advances k x (snd (received p X k bytes e others x))"
proof -
  obtain s w where x: "x = (s, w)" by fastforce
  have q: "keeps (s, w) (s\<lparr>hn_in := i\<rparr>, w)" for i by (rule kp.quiet_rel) (simp_all add: same_counts_def)
  show ?thesis using keeps_advances [OF q handler_parse_request_advances] advances_keeps [OF keeps_trans [OF q kp.handler_set_on_read_chunk_rel]]
    by (simp add: x received_def Let_def)
qed

lemma written_advances: "advances k x (snd (written kont X k e others x))"
  by (cases kont) (simp_all add: advances_keeps kp.handler_get_on_write_chunk_rel kp.quiet_methods_rel)

text \<open>The destructor counts the connection as closed and keeps the waiters.\<close>

lemma handler_dtor_keeps:
  "keeps (update_stats (\<lambda>st. st\<lparr>conns_closed := conns_closed st + 1\<rparr>) x) (snd (handler_dtor X others x))"
proof -
  let ?x = "update_stats (\<lambda>st. st\<lparr>conns_closed := conns_closed st + 1\<rparr>) x"
  obtain r y where d: "drop_push_stream X others ?x = (r, y)" by (rule prod.exhaust)
  have k: "keeps ?x y" using kp.drop_push_stream_rel [of ?x X others] d by simp
  show ?thesis using d k keeps_trans [OF k kp.drop_pop_stream_rel] by (simp add: handler_dtor_def split: sum.split)
qed

section \<open>The invariant of the server\<close>

text \<open>The waiters that call back a connection: the address of a queue and a node of its list.\<close>

definition waits_of :: "('fs, 'db) server \<Rightarrow> nat \<Rightarrow> (nat \<times> nat) set" where
  "waits_of sv k = {(a, n). (n, k) \<in> set (map_waits (sh_queues (sv_shared sv)) a)}"

definition conn_inv :: "('fs, 'db) server \<Rightarrow> nat \<Rightarrow> bool" where
  "conn_inv sv k \<longleftrightarrow> (case sv_conns sv k of
     None \<Rightarrow> k \<noteq> sv_handler sv \<and> waits_of sv k = {}
   | Some s \<Rightarrow> k < sv_next sv \<and> (hn_pending s = P_none \<longleftrightarrow> k = sv_handler sv) \<and>
       (if hn_pending s = P_wait then \<exists>p. waits_of sv k = {p} else waits_of sv k = {}))"

definition open_conns :: "('fs, 'db) server \<Rightarrow> nat set" where
  "open_conns sv = dom (sv_conns sv) - {sv_handler sv}"

definition balanced :: "('fs, 'db) server \<Rightarrow> bool" where
  "balanced sv \<longleftrightarrow> finite (dom (sv_conns sv)) \<and>
     conns_opened (sh_stats (sv_shared sv)) - conns_closed (sh_stats (sv_shared sv)) = of_nat (card (open_conns sv))"

definition conns_inv :: "('fs, 'db) server \<Rightarrow> bool" where
  "conns_inv sv \<longleftrightarrow> map_ok (sh_queues (sv_shared sv)) \<and> (\<forall>k. conn_inv sv k) \<and> balanced sv"

lemma waits_of_keeps:
  assumes "map_waits (sh_queues (sv_shared sv')) = map_waits (sh_queues (sv_shared sv))"
  shows "waits_of sv' = waits_of sv"
  using assms by (simp add: waits_of_def fun_eq_iff)

lemma conn_inv_frame:
  assumes "conn_inv sv k" "sv_conns sv' k = sv_conns sv k" "waits_of sv' k = waits_of sv k" "sv_next sv \<le> sv_next sv'"
    and "k = sv_handler sv' \<longleftrightarrow> k = sv_handler sv"
  shows "conn_inv sv' k"
  using assms by (auto simp: conn_inv_def split: option.splits)

lemma conns_inv_queues:
  assumes "conns_inv sv" "map_keeps (sh_queues (sv_shared sv)) (sh_queues (sv_shared sv'))" "same_counts (sv_shared sv) (sv_shared sv')"
    and "sv_conns sv' = sv_conns sv" "sv_next sv' = sv_next sv" "sv_handler sv' = sv_handler sv"
  shows "conns_inv sv'"
proof -
  have m: "map_ok (sh_queues (sv_shared sv'))" "waits_of sv' = waits_of sv" using assms(1,2) by (auto simp: conns_inv_def map_keeps_def intro: waits_of_keeps)
  have "conn_inv sv' k" for k using conn_inv_frame [of sv k sv'] assms(1,4-6) m(2) by (simp add: conns_inv_def)
  moreover have "balanced sv' = balanced sv" using assms(3,4,6) by (simp add: balanced_def same_counts_def open_conns_def)
  ultimately show ?thesis using assms(1) m(1) by (simp add: conns_inv_def)
qed

text \<open>
  One connection runs: all others are as they were, this one is not waited for by a queue.
\<close>

lemma conn_closes:
  assumes others: "\<And>j. j \<noteq> k \<Longrightarrow> conn_inv sv j" and k: "waits_of sv k = {}" "sv_conns sv k = Some s" "k \<noteq> sv_handler sv" and b: "balanced sv"
    and m: "map_ok (sh_queues w)" "map_waits (sh_queues w) = map_waits (sh_queues (sv_shared sv))"
    and c: "conns_opened (sh_stats w) = conns_opened (sh_stats (sv_shared sv))" "conns_closed (sh_stats w) = conns_closed (sh_stats (sv_shared sv)) + 1"
  shows "conns_inv (sv\<lparr>sv_conns := (sv_conns sv)(k := None), sv_shared := w\<rparr>)"
proof -
  let ?sv = "sv\<lparr>sv_conns := (sv_conns sv)(k := None), sv_shared := w\<rparr>"
  have w: "waits_of ?sv = waits_of sv" using m(2) by (intro waits_of_keeps) simp
  have "conn_inv ?sv j" for j using conn_inv_frame [OF others [of j], of ?sv] k w by (cases "j = k") (simp_all add: conn_inv_def [of _ k])
  moreover have "balanced ?sv"
  proof -
    have "open_conns ?sv = open_conns sv - {k}" "k \<in> open_conns sv" "finite (open_conns sv)" using k(2,3) b by (auto simp: open_conns_def balanced_def)
    then have "card (open_conns sv) = Suc (card (open_conns ?sv))" by (metis card_Suc_Diff1)
    then show ?thesis using b c by (simp add: balanced_def algebra_simps)
  qed
  ultimately show ?thesis using m(1) by (simp add: conns_inv_def)
qed

lemma conn_goes_on:
  assumes others: "\<And>j. j \<noteq> k \<Longrightarrow> conn_inv sv j" and k: "waits_of sv k = {}" "sv_conns sv k = Some s" "k \<noteq> sv_handler sv" "k < sv_next sv" and b: "balanced sv"
    and m: "map_ok (sh_queues (sv_shared sv))" and a: "advances k (s0, sv_shared sv) (s1, w1)" and p: "hn_pending s0 = P_none" "hn_pending s1 \<noteq> P_none"
  shows "conns_inv (sv\<lparr>sv_conns := (sv_conns sv)(k \<mapsto> s1), sv_shared := w1\<rparr>)"
proof -
  let ?sv = "sv\<lparr>sv_conns := (sv_conns sv)(k \<mapsto> s1), sv_shared := w1\<rparr>"
  have "same_counts (sv_shared sv) w1" using a by (auto simp: advances_def keeps_def joins_def)
  moreover have "open_conns ?sv = open_conns sv" "finite (dom (sv_conns ?sv))" using k(2) b by (auto simp: open_conns_def balanced_def)
  ultimately have bal: "balanced ?sv" using b by (simp add: balanced_def same_counts_def)
  consider "keeps (s0, sv_shared sv) (s1, w1)" | "joins k (s0, sv_shared sv) (s1, w1)" using a by (auto simp: advances_def)
  then show ?thesis
  proof cases
    case 1
    then have w: "waits_of ?sv = waits_of sv" "map_ok (sh_queues w1)" "hn_pending s1 \<noteq> P_wait"
      using m p(1) by (auto simp: keeps_def map_keeps_def intro!: waits_of_keeps)
    have "conn_inv ?sv j" for j using conn_inv_frame [OF others [of j], of ?sv] k w p(2) by (cases "j = k") (simp_all add: conn_inv_def [of _ k])
    then show ?thesis using bal w(2) by (simp add: conns_inv_def)
  next
    case 2
    then obtain b n where w: "map_waits (sh_queues w1) = (map_waits (sh_queues (sv_shared sv)))(b := map_waits (sh_queues (sv_shared sv)) b @ [(n, k)])"
      and ok: "map_ok (sh_queues w1)" "hn_pending s1 = P_wait"
      using m by (auto simp: joins_def)
    have "waits_of ?sv j = (if j = k then insert (b, n) (waits_of sv j) else waits_of sv j)" for j using w by (auto simp: waits_of_def split: if_splits)
    then have "conn_inv ?sv j" for j using conn_inv_frame [OF others [of j], of ?sv] k ok(2) by (cases "j = k") (simp_all add: conn_inv_def [of _ k])
    then show ?thesis using bal ok(1) by (simp add: conns_inv_def)
  qed
qed

lemma run_conn_inv:
  assumes others: "\<And>j. j \<noteq> k \<Longrightarrow> conn_inv sv j" and k: "waits_of sv k = {}" "sv_conns sv k = Some s" "k \<noteq> sv_handler sv" "k < sv_next sv" and b: "balanced sv"
    and m: "map_ok (sh_queues (sv_shared sv))" and f: "\<And>others x. advances k x (snd (f others x))"
    and run: "run_conn X owned k f sv = (Inr (), sv')"
  shows "conns_inv sv'"
proof -
  let ?o = "\<lambda>b. owned b \<or> queue_owners sv k b" and ?s = "s\<lparr>hn_pending := P_none\<rparr>"
  obtain r s1 w1 where fs: "f ?o (?s, sv_shared sv) = (r, (s1, w1))" by (metis prod.exhaust)
  obtain r2 s2 w2 where dt: "handler_dtor X ?o (s1, w1) = (r2, (s2, w2))" by (metis prod.exhaust)
  have r: "r = Inr ()" using run k(2) fs by (cases r) (auto simp: run_conn_def Let_def)
  have a: "advances k (?s, sv_shared sv) (s1, w1)" using f [of "(?s, sv_shared sv)" ?o] fs by simp
  show ?thesis
  proof (cases "hn_pending s1 = P_none")
    case True
    then have sv': "sv' = sv\<lparr>sv_conns := (sv_conns sv)(k := None), sv_shared := w2\<rparr>" using run k(2) fs dt r by (auto simp: run_conn_def Let_def)
    have "keeps (?s, sv_shared sv) (s1, w1)" using a True by (auto simp: advances_def joins_def)
    moreover have "keeps (update_stats (\<lambda>st. st\<lparr>conns_closed := conns_closed st + 1\<rparr>) (s1, w1)) (s2, w2)" using handler_dtor_keeps [of "(s1, w1)" X ?o] dt by simp
    ultimately have "map_ok (sh_queues w2)" "map_waits (sh_queues w2) = map_waits (sh_queues (sv_shared sv))"
      "conns_opened (sh_stats w2) = conns_opened (sh_stats (sv_shared sv))" "conns_closed (sh_stats w2) = conns_closed (sh_stats (sv_shared sv)) + 1"
      using m by (auto simp: keeps_def map_keeps_def same_counts_def update_stats_def)
    then show ?thesis unfolding sv' by (intro conn_closes [OF _ k(1-3) b] others)
  next
    case False
    then have "sv' = sv\<lparr>sv_conns := (sv_conns sv)(k \<mapsto> s1), sv_shared := w1\<rparr>" using run k(2) fs r by (auto simp: run_conn_def Let_def)
    then show ?thesis using conn_goes_on [OF _ k b m a _ False] others by simp
  qed
qed

lemma handle_accept_inv:
  assumes inv: "conns_inv sv" and st: "handle_accept X e sv = (Inr (), sv')"
  shows "conns_inv sv'"
proof (cases e)
  case (Some err)
  then have "sv' = sv\<lparr>sv_accepting := False, sv_shared := log_accept_error X err (sv_shared sv)\<rparr>" using st by (simp add: handle_accept_def Let_def)
  then show ?thesis by (intro conns_inv_queues [OF inv]) (simp_all add: log_accept_error_def same_counts_def)
next
  case None
  let ?k = "sv_handler sv"
  obtain s where s: "sv_conns sv ?k = Some s" using inv by (cases "sv_conns sv ?k") (auto simp: conns_inv_def conn_inv_def dest!: spec [of _ ?k])
  let ?s = "s\<lparr>hn_pending := P_read_until\<rparr>" and ?w = "snd (update_stats (\<lambda>st. st\<lparr>conns_opened := conns_opened st + 1\<rparr>) (s, sv_shared sv))"
  have sv': "sv' = next_handler (sv\<lparr>sv_accepting := False, sv_conns := (sv_conns sv)(?k \<mapsto> ?s), sv_shared := ?w\<rparr>)"
    using st s None by (simp add: handle_accept_def run_conn_def handler_start_def handler_read_request_def update_stats_def Let_def)
  have w: "waits_of sv' = waits_of sv" by (rule waits_of_keeps) (simp add: sv' next_handler_def update_stats_def)
  have ci: "conn_inv sv j" for j using inv by (simp add: conns_inv_def)
  have free: "sv_conns sv (sv_next sv) = None" "waits_of sv (sv_next sv) = {}" "?k < sv_next sv" "waits_of sv ?k = {}"
    using ci [of "sv_next sv"] ci [of ?k] s by (auto simp: conn_inv_def split: option.splits if_splits)
  have f: "sv_conns sv' = (sv_conns sv)(?k \<mapsto> ?s, sv_next sv \<mapsto> handler_ctor default_chunk_size)" "sv_next sv' = Suc (sv_next sv)" "sv_handler sv' = sv_next sv"
    by (simp_all add: sv' next_handler_def)
  have "conn_inv sv' j" for j
  proof (cases "j = ?k \<or> j = sv_next sv")
    case True
    then show ?thesis using free f w by (auto simp: conn_inv_def handler_ctor_def)
  next
    case False
    then show ?thesis using conn_inv_frame [of sv j sv'] inv f w by (simp add: conns_inv_def)
  qed
  moreover have "balanced sv'"
  proof -
    have "open_conns sv' = insert ?k (open_conns sv)" "?k \<notin> open_conns sv" "finite (open_conns sv)" "finite (dom (sv_conns sv'))"
      using inv s free f by (auto simp: open_conns_def conns_inv_def balanced_def)
    then show ?thesis using inv by (simp add: conns_inv_def balanced_def sv' next_handler_def update_stats_def algebra_simps)
  qed
  moreover have "map_ok (sh_queues (sv_shared sv'))" using inv by (simp add: conns_inv_def sv' next_handler_def update_stats_def)
  ultimately show ?thesis by (simp add: conns_inv_def)
qed

text \<open>A connection whose operation completes, other than a wait.\<close>

lemma run_idle_conn:
  assumes inv: "conns_inv sv" and s: "sv_conns sv k = Some s" "hn_pending s \<noteq> P_none" "hn_pending s \<noteq> P_wait"
    and f: "\<And>others x. advances k x (snd (f others x))" and run: "run_conn X owned k f sv = (Inr (), sv')"
  shows "conns_inv sv'"
proof -
  have "conn_inv sv k" using inv by (simp add: conns_inv_def)
  then have "waits_of sv k = {}" "k \<noteq> sv_handler sv" "k < sv_next sv" using s by (auto simp: conn_inv_def)
  then show ?thesis using inv by (intro run_conn_inv [OF _ _ s(1) _ _ _ _ f run]) (simp_all add: conns_inv_def)
qed

text \<open>The completion of a timer takes the waiter out of its list; the connection it calls back waits for nothing else.\<close>

lemma wakeup_takes_waiter:
  assumes inv: "conns_inv sv" and a: "qm_heap (sh_queues (sv_shared sv)) a = Some q" and wk: "waiter_wakeup it q = (Inr (cb, r), q1)"
  defines "sv1 \<equiv> sv\<lparr>sv_shared := set_queue a q1 (sv_shared sv)\<rparr>"
  shows "\<exists>s. sv_conns sv cb = Some s \<and> hn_pending s = P_wait" "waits_of sv1 cb = {}" "j \<noteq> cb \<Longrightarrow> waits_of sv1 j = waits_of sv j"
    "map_ok (sh_queues (sv_shared sv1))"
proof -
  obtain v where v: "find (\<lambda>w. w_node w = it) (waiters q) = Some v" "cb = w_cb v"
    and q1: "who q1 = filter (\<lambda>p. fst p \<noteq> it) (who q)" "next_node q1 = next_node q"
    using wk by (auto simp: waiter_wakeup_def Let_def who_def filter_map o_def split: option.splits)
  have ok: "map_ok (sh_queues (sv_shared sv))" using inv by (simp add: conns_inv_def)
  note okq = ok [unfolded map_ok_def, THEN conjunct2, rule_format, OF a]
  have "v \<in> set (waiters q)" "w_node v = it" using v(1) by (auto simp: find_Some_iff)
  then have mem: "(it, cb) \<in> set (who q)" using v(2) by (force simp: who_def)
  have w: "waits_of sv1 j = {(b, n) \<in> waits_of sv j. (b, n) \<noteq> (a, it)}" for j
    using a q1(1) by (auto simp: waits_of_def sv1_def map_waits_def set_queue_def split: if_split_asm option.splits)
  have in_waits: "(a, it) \<in> waits_of sv cb" using mem a by (simp add: waits_of_def map_waits_def)
  have cb: "conn_inv sv cb" using inv by (simp add: conns_inv_def)
  show "\<exists>s. sv_conns sv cb = Some s \<and> hn_pending s = P_wait" using cb in_waits by (auto simp: conn_inv_def split: option.splits if_splits)
  have "waits_of sv cb = {(a, it)}" using cb in_waits by (auto simp: conn_inv_def split: option.splits if_splits)
  then show "waits_of sv1 cb = {}" using w by auto
  have "j = cb" if "(a, it) \<in> waits_of sv j" for j
  proof -
    have "(it, j) \<in> set (who q)" using that a by (simp add: waits_of_def map_waits_def)
    then show ?thesis using mem okq eq_key_imp_eq_value by metis
  qed
  then show "j \<noteq> cb \<Longrightarrow> waits_of sv1 j = waits_of sv j" using w by auto
  have "distinct (map fst (who q1)) \<and> (\<forall>n \<in> fst ` set (who q1). n < next_node q1)" using okq q1 by (auto simp: distinct_map_filter)
  then show "map_ok (sh_queues (sv_shared sv1))" using ok a by (auto simp: map_ok_def sv1_def set_queue_def)
qed

lemma timer_completed_inv:
  assumes inv: "conns_inv sv" and st: "timer_completed X a it sv = (Inr (), sv')"
  shows "conns_inv sv'"
proof -
  obtain q where a: "qm_heap (sh_queues (sv_shared sv)) a = Some q" using st by (auto simp: timer_completed_def split: option.splits)
  obtain cb r q1 where wk: "waiter_wakeup it q = (Inr (cb, r), q1)" using st a by (cases "waiter_wakeup it q") (auto simp: timer_completed_def split: sum.splits)
  let ?sv = "sv\<lparr>sv_shared := set_queue a q1 (sv_shared sv)\<rparr>"
  let ?f = "\<lambda>others. handler_get_on_queue_return X others cb r"
  obtain r1 sv1 where run: "run_conn X (\<lambda>b. b = a) cb ?f ?sv = (r1, sv1)" by (rule prod.exhaust)
  have r1: "r1 = Inr ()" using st a wk run by (cases r1) (simp_all add: timer_completed_def)
  obtain r2 m where rel: "release_queue (x_fs X) (queue_owners sv1 (sv_next sv1)) a (sh_queues (sv_shared sv1)) = (r2, m)" by (rule prod.exhaust)
  have sv': "sv' = sv1\<lparr>sv_shared := (sv_shared sv1)\<lparr>sh_queues := m\<rparr>\<rparr>" using st a wk run r1 rel by (simp add: timer_completed_def)
  note taken = wakeup_takes_waiter [OF inv a wk]
  obtain s where s: "sv_conns sv cb = Some s" "hn_pending s = P_wait" using taken(1) by blast
  have "conn_inv sv cb" using inv by (simp add: conns_inv_def)
  then have cb: "sv_conns ?sv cb = Some s" "cb \<noteq> sv_handler ?sv" "cb < sv_next ?sv" using s by (auto simp: conn_inv_def)
  have others: "conn_inv ?sv j" if "j \<noteq> cb" for j using conn_inv_frame [of sv j ?sv] inv taken(3) [OF that] by (simp add: conns_inv_def)
  have "balanced ?sv" using inv by (simp add: conns_inv_def balanced_def open_conns_def)
  then have "conns_inv sv1"
    by (intro run_conn_inv [OF others taken(2) cb _ taken(4) _ run [unfolded r1]]) (simp_all add: handler_get_on_queue_return_advances)
  then show ?thesis unfolding sv' by (rule conns_inv_queues) (simp_all add: release_queue_keeps [OF rel] same_counts_def)
qed

lemma server_step_inv:
  assumes inv: "conns_inv sv" and c: "completes ev sv" and st: "server_step X ev sv = (Inr (), sv')"
  shows "conns_inv sv'"
proof (cases ev)
  case (Accepted e)
  then show ?thesis using handle_accept_inv [OF inv] st by simp
next
  case (Received k bytes e)
  then obtain s where s: "sv_conns sv k = Some s" "hn_pending s \<noteq> P_none" "hn_pending s \<noteq> P_wait"
    using c by (cases "sv_conns sv k") (auto split: pending.splits)
  then show ?thesis using st Received by (intro run_idle_conn [OF inv s received_advances]) simp
next
  case (Written k e)
  then obtain s kont where s: "sv_conns sv k = Some s" "hn_pending s = P_write kont" using c by (cases "sv_conns sv k") (auto split: pending.splits)
  then show ?thesis using st Written by (intro run_idle_conn [OF inv s(1) _ _ written_advances]) simp_all
next
  case (Timer a it)
  then show ?thesis using timer_completed_inv [OF inv] st by simp
qed

lemma server_runs_inv:
  assumes "server_runs X P sv0 evs sv" "conns_inv sv0"
  shows "conns_inv sv"
  using assms by (induction rule: server_runs.induct) (auto intro: server_step_inv)

lemma server_ctor_inv:
  assumes "server_ctor X listen fs d p ls err = Inr sv"
  shows "conns_inv sv"
proof -
  obtain m where m: "queue_map_ctor (x_ldb X) (x_fs X) fs d = (Inr (), m)"
    and sv: "sv = next_handler \<lparr>sv_listen_port = p, sv_shared = \<lparr>sh_queues = m, sh_stats = stats_ctor (x_now X), sh_logs = ls, sh_cerr = err\<rparr>,
         sv_conns = Map.empty, sv_next = 0, sv_handler = 0, sv_accepting = False, sv_stopped = False\<rparr>"
    using assms by (auto simp: server_ctor_def split: prod.splits sum.splits option.splits)
  have load: "load_queues (x_ldb X) (x_fs X) names m0 = (r, m1) \<Longrightarrow> map_keeps m0 m1" for names m0 m1 r
    by (induction names arbitrary: m0) (auto split: prod.splits sum.splits dest!: assign_queue_keeps intro: map_keeps_trans)
  have "map_ok m \<and> map_waits m = (\<lambda>a. [])"
    using m by (auto simp: queue_map_ctor_def Let_def map_keeps_def map_ok_def map_sorted_def map_waits_def fun_eq_iff split: option.splits dest!: load)
  then show ?thesis
    by (auto simp: sv conns_inv_def conn_inv_def waits_of_def next_handler_def balanced_def open_conns_def handler_ctor_def stats_ctor_def)
qed

text \<open>
  C7: in every run of the server from its constructor, every connection but the one that the next client will be accepted on has an asynchronous operation
  outstanding, so it is owned and will be called back; a connection that waits for an item is the callback of exactly one waiter of one queue, every
  waiter of every queue calls back a connection that is still alive and waits for it (never a destroyed one, and never one that does something else), the waiters of a queue are distinct, and the
  difference of the counters of opened and closed connections is the number of connections.
\<close>

theorem one_operation_per_connection:
  assumes "server_ctor X listen fs d p ls err = Inr sv0" "server_runs X P sv0 evs sv"
  shows "(\<forall>k s. sv_conns sv k = Some s \<longrightarrow> (hn_pending s = P_none \<longleftrightarrow> k = sv_handler sv)) \<and>
    (\<forall>k s. sv_conns sv k = Some s \<and> hn_pending s = P_wait \<longrightarrow> (\<exists>!p. p \<in> waits_of sv k)) \<and>
    (\<forall>a q v. qm_heap (sh_queues (sv_shared sv)) a = Some q \<and> v \<in> set (waiters q) \<longrightarrow>
       (\<exists>s. sv_conns sv (w_cb v) = Some s \<and> hn_pending s = P_wait)) \<and>
    (\<forall>a q. qm_heap (sh_queues (sv_shared sv)) a = Some q \<longrightarrow> distinct (map w_node (waiters q))) \<and>
    conns_opened (sh_stats (sv_shared sv)) - conns_closed (sh_stats (sv_shared sv)) = of_nat (card (dom (sv_conns sv) - {sv_handler sv}))"
proof -
  have inv: "conns_inv sv" by (rule server_runs_inv [OF assms(2) server_ctor_inv [OF assms(1)]])
  then have ci: "conn_inv sv k" for k by (simp add: conns_inv_def)
  have "\<exists>s. sv_conns sv (w_cb v) = Some s \<and> hn_pending s = P_wait"
    if "qm_heap (sh_queues (sv_shared sv)) a = Some q" "v \<in> set (waiters q)" for a q v
  proof -
    have "(a, w_node v) \<in> waits_of sv (w_cb v)" using that by (auto simp: waits_of_def map_waits_def who_def)
    then show ?thesis using ci [of "w_cb v"] by (auto simp: conn_inv_def split: option.splits if_splits)
  qed
  moreover have "\<exists>!p. p \<in> waits_of sv k" if "sv_conns sv k = Some s \<and> hn_pending s = P_wait" for k s
    using ci [of k] that by (auto simp: conn_inv_def)
  moreover have "hn_pending s = P_none \<longleftrightarrow> k = sv_handler sv" if "sv_conns sv k = Some s" for k s
    using ci [of k] that by (simp add: conn_inv_def)
  moreover have "distinct (map w_node (waiters q))" if "qm_heap (sh_queues (sv_shared sv)) a = Some q" for a q
    using inv that by (auto simp: conns_inv_def map_ok_def who_def o_def)
  moreover have "conns_opened (sh_stats (sv_shared sv)) - conns_closed (sh_stats (sv_shared sv)) = of_nat (card (dom (sv_conns sv) - {sv_handler sv}))"
    using inv by (simp add: conns_inv_def balanced_def open_conns_def)
  ultimately show ?thesis by blast
qed

text \<open>A client waits for an item of an empty queue.\<close>

theorem one_operation_per_connection_witness:
  "\<exists>sv0 sv s. server_ctor demo_externs (\<lambda>p. None) [(''data/q'', mem_empty [])] ''data'' 22133 logs_start [] = Inr sv0 \<and>
     server_runs demo_externs (\<lambda>sv. True) sv0 [Accepted None, Received 0 (''get q/t=50'' @ crlf) None] sv \<and>
     sv_conns sv 0 = Some s \<and> hn_pending s = P_wait \<and> (\<exists>!p. p \<in> waits_of sv 0)"
proof -
  let ?evs = "[Accepted None, Received 0 (''get q/t=50'' @ crlf) None]"
  let ?c = "server_ctor demo_externs (\<lambda>p. None) [(''data/q'', mem_empty [])] ''data'' 22133 logs_start []"
  have "(case ?c of Inl e \<Rightarrow> None | Inr sv \<Rightarrow> map_option (\<lambda>sv. map_option hn_pending (sv_conns sv 0)) (serve demo_externs (\<lambda>sv. True) ?evs sv)) = Some (Some P_wait)"
    by code_simp
  then obtain sv0 sv s where c: "?c = Inr sv0" and sv: "serve demo_externs (\<lambda>sv. True) ?evs sv0 = Some sv" "sv_conns sv 0 = Some s" "hn_pending s = P_wait"
    by (auto split: sum.splits)
  have "server_runs demo_externs (\<lambda>sv. True) sv0 ([] @ ?evs) sv" by (rule serve_runs_from [OF demo_time server_runs.start sv(1)])
  then have r: "server_runs demo_externs (\<lambda>sv. True) sv0 ?evs sv" by simp
  have "\<exists>!p. p \<in> waits_of sv 0" using one_operation_per_connection [OF c r] sv(2,3) by blast
  then show ?thesis using c r sv(2,3) by blast
qed

end
