(* ===== verification/Waiters.thy ===== *)
theory Waiters
  imports Clients_Trace
begin

text \<open>
  The waiters of a queue: \<^verbatim>\<open>wait\<close>, \<^verbatim>\<open>wake_up\<close> and \<^verbatim>\<open>waiter_wakeup\<close>. Notified waiters, whose timer was cancelled, come first
  in the list and \<^verbatim>\<open>wake_up_it_\<close> stands on the first that is not. Every method of a queue and of its streams keeps the number of ready items within
  the number of notified waiters while somebody sleeps; the theory \<open>Wakeups\<close> lifts this to the runs of the server.
\<close>

section \<open>The list of waiters\<close>

definition sleeping :: "('db, 'cb) queue \<Rightarrow> 'cb waiter list" where
  "sleeping q = filter (\<lambda>w. \<not> w_cancelled w) (waiters q)"

definition notified :: "('db, 'cb) queue \<Rightarrow> 'cb waiter list" where
  "notified q = filter w_cancelled (waiters q)"

definition first_node :: "'cb waiter list \<Rightarrow> nat option" where
  "first_node ws = (case ws of [] \<Rightarrow> None | w # _ \<Rightarrow> Some (w_node w))"

definition waiters_inv :: "('db, 'cb) queue \<Rightarrow> bool" where
  "waiters_inv q \<longleftrightarrow> distinct (map w_node (waiters q)) \<and> (\<forall>w \<in> set (waiters q). w_node w < next_node q) \<and>
     waiters q = notified q @ sleeping q \<and> wake_up_it q = first_node (sleeping q)"

lemma first_node_simps [simp]: "first_node [] = None" "first_node (w # ws) = Some (w_node w)"
  by (simp_all add: first_node_def)

lemma waiters_invI:
  assumes "waiters q = ns @ ss" "\<forall>w \<in> set ns. w_cancelled w" "\<forall>w \<in> set ss. \<not> w_cancelled w"
    and "distinct (map w_node (ns @ ss))" "\<forall>w \<in> set (ns @ ss). w_node w < next_node q" "wake_up_it q = first_node ss"
  shows "waiters_inv q" "notified q = ns" "sleeping q = ss"
proof -
  show n: "notified q = ns" and s: "sleeping q = ss"
    using assms(1-3) by (simp_all add: notified_def sleeping_def filter_empty_conv)
  show "waiters_inv q" using assms by (simp add: waiters_inv_def n s)
qed

lemma waiters_invD:
  assumes "waiters_inv q"
  shows "waiters q = notified q @ sleeping q" "\<forall>w \<in> set (notified q). w_cancelled w" "\<forall>w \<in> set (sleeping q). \<not> w_cancelled w"
    "distinct (map w_node (notified q @ sleeping q))" "\<forall>w \<in> set (notified q @ sleeping q). w_node w < next_node q"
    "wake_up_it q = first_node (sleeping q)"
proof -
  show w: "waiters q = notified q @ sleeping q" and "wake_up_it q = first_node (sleeping q)"
    using assms unfolding waiters_inv_def by blast+
  show "\<forall>w \<in> set (notified q). w_cancelled w" "\<forall>w \<in> set (sleeping q). \<not> w_cancelled w"
    by (simp_all add: notified_def sleeping_def)
  have "distinct (map w_node (waiters q))" "\<forall>w \<in> set (waiters q). w_node w < next_node q"
    using assms unfolding waiters_inv_def by blast+
  then show "distinct (map w_node (notified q @ sleeping q))" "\<forall>w \<in> set (notified q @ sleeping q). w_node w < next_node q"
    unfolding w .
qed

lemma node_after_split:
  "distinct (map w_node (ns @ w # ss)) \<Longrightarrow> node_after (w_node w) (ns @ w # ss) = first_node ss"
proof (induction ns)
  case Nil
  then show ?case by (cases ss) simp_all
next
  case (Cons v ns)
  then have "w_node v \<noteq> w_node w" by auto
  with Cons show ?case by simp
qed

lemma cancel_timer_other: "n \<notin> w_node ` set ws \<Longrightarrow> cancel_timer n ws = ws"
  unfolding cancel_timer_def by (induction ws) auto

lemma cancel_timer_split:
  assumes "distinct (map w_node (ns @ w # ss))"
  shows "cancel_timer (w_node w) (ns @ w # ss) = ns @ w\<lparr>w_cancelled := True\<rparr> # ss"
proof -
  have "cancel_timer (w_node w) ns = ns" "cancel_timer (w_node w) ss = ss"
    using assms by (auto intro!: cancel_timer_other)
  then show ?thesis by (simp add: cancel_timer_def)
qed

lemma wait_waiters:
  assumes "waiters_inv q"
  shows "waiters_inv (wait ms cb q)" "notified (wait ms cb q) = notified q"
    "sleeping (wait ms cb q) = sleeping q @ [\<lparr>w_node = next_node q, w_ms = ms, w_cb = cb, w_cancelled = False\<rparr>]"
proof -
  let ?w = "\<lparr>w_node = next_node q, w_ms = ms, w_cb = cb, w_cancelled = False\<rparr>"
  note ws = waiters_invD [OF assms]
  have "next_node q \<notin> w_node ` set (notified q @ sleeping q)" using ws(5) by auto
  then have "distinct (map w_node ((notified q @ sleeping q) @ [?w]))" using ws(4) by (simp add: image_Un)
  then have d: "distinct (map w_node (notified q @ (sleeping q @ [?w])))" by simp
  have "\<forall>w \<in> set (notified q @ (sleeping q @ [?w])). w_node w < Suc (next_node q)"
    using ws(5) by (auto intro: less_SucI)
  then have b: "\<forall>w \<in> set (notified q @ (sleeping q @ [?w])). w_node w < next_node (wait ms cb q)"
    by (simp add: wait_def Let_def)
  have e: "waiters (wait ms cb q) = notified q @ (sleeping q @ [?w])" by (simp add: wait_def Let_def ws(1))
  have c: "\<forall>w \<in> set (sleeping q @ [?w]). \<not> w_cancelled w" using ws(3) by simp
  have "wake_up_it (wait ms cb q) = first_node (sleeping q @ [?w])"
    using ws(6) by (cases "sleeping q") (simp_all add: wait_def Let_def)
  from waiters_invI [OF e ws(2) c d b this] show "waiters_inv (wait ms cb q)" "notified (wait ms cb q) = notified q"
    "sleeping (wait ms cb q) = sleeping q @ [?w]" by simp_all
qed

text \<open>\<^verbatim>\<open>wake_up\<close> notifies the waiter that has slept longest.\<close>

lemma wake_up_waiters:
  assumes "waiters_inv q"
  shows "waiters_inv (wake_up q)"
    "notified (wake_up q) = notified q @ (case sleeping q of [] \<Rightarrow> [] | w # _ \<Rightarrow> [w\<lparr>w_cancelled := True\<rparr>])"
    "sleeping (wake_up q) = tl (sleeping q)"
proof -
  have "waiters_inv (wake_up q) \<and>
    notified (wake_up q) = notified q @ (case sleeping q of [] \<Rightarrow> [] | w # _ \<Rightarrow> [w\<lparr>w_cancelled := True\<rparr>]) \<and>
    sleeping (wake_up q) = tl (sleeping q)"
  proof (cases "sleeping q")
    case Nil
    then have "wake_up q = q" using assms by (simp add: wake_up_def waiters_inv_def)
    with assms Nil show ?thesis by simp
  next
    case (Cons w ss)
    note ws = waiters_invD [OF assms, unfolded Cons]
    have w: "waiters q = notified q @ w # ss" "wake_up_it q = Some (w_node w)" using ws(1,6) by simp_all
    note d = ws(4) and c = ws(2,3) and b = ws(5)
    have "waiters (wake_up q) = (notified q @ [w\<lparr>w_cancelled := True\<rparr>]) @ ss" "wake_up_it (wake_up q) = first_node ss"
      using w by (simp_all add: wake_up_def cancel_timer_split [OF d] node_after_split [OF d])
    from waiters_invI [OF this(1) _ _ _ _ this(2)] Cons c d b show ?thesis by simp
  qed
  then show "waiters_inv (wake_up q)"
    "notified (wake_up q) = notified q @ (case sleeping q of [] \<Rightarrow> [] | w # _ \<Rightarrow> [w\<lparr>w_cancelled := True\<rparr>])"
    "sleeping (wake_up q) = tl (sleeping q)" by simp_all
qed

lemma find_node: "distinct (map w_node ws) \<Longrightarrow> v \<in> set ws \<Longrightarrow> find (\<lambda>u. w_node u = w_node v) ws = Some v"
  by (induction ws) (auto simp: rev_image_eqI)

text \<open>A waiter's completion takes it off the list, wherever it stands.\<close>

lemma waiter_wakeup_waiters:
  assumes "waiters_inv q" "waiter_wakeup it q = (Inr r, q')"
  shows "waiters_inv q'" "notified q' = filter (\<lambda>w. w_node w \<noteq> it) (notified q)"
    "sleeping q' = filter (\<lambda>w. w_node w \<noteq> it) (sleeping q)" "it \<in> w_node ` set (waiters q)"
proof -
  obtain w where w: "w \<in> set (waiters q)" "w_node w = it"
  proof -
    obtain w where "find (\<lambda>w. w_node w = it) (waiters q) = Some w"
      using assms(2) by (cases "find (\<lambda>w. w_node w = it) (waiters q)") (simp_all add: waiter_wakeup_def)
    then show thesis using that nth_mem by (fastforce simp: find_Some_iff)
  qed
  then show "it \<in> w_node ` set (waiters q)" by auto
  have q': "waiters q' = filter (\<lambda>w. w_node w \<noteq> it) (waiters q)" "next_node q' = next_node q"
    "wake_up_it q' = (if wake_up_it q = Some it then node_after it (waiters q) else wake_up_it q)"
    using assms(2) by (auto simp: waiter_wakeup_def Let_def split: option.splits)
  have e: "waiters q' = filter (\<lambda>w. w_node w \<noteq> it) (notified q) @ filter (\<lambda>w. w_node w \<noteq> it) (sleeping q)"
    "\<forall>w \<in> set (filter (\<lambda>w. w_node w \<noteq> it) (notified q)). w_cancelled w"
    "\<forall>w \<in> set (filter (\<lambda>w. w_node w \<noteq> it) (sleeping q)). \<not> w_cancelled w"
    "\<forall>w \<in> set (filter (\<lambda>w. w_node w \<noteq> it) (notified q) @ filter (\<lambda>w. w_node w \<noteq> it) (sleeping q)). w_node w < next_node q'"
    using waiters_invD [OF assms(1)] q' by auto
  have "distinct (map w_node (filter (\<lambda>w. w_node w \<noteq> it) (waiters q)))"
    using waiters_invD(1,4) [OF assms(1)] by (metis distinct_map_filter)
  then have d: "distinct (map w_node (filter (\<lambda>w. w_node w \<noteq> it) (notified q) @ filter (\<lambda>w. w_node w \<noteq> it) (sleeping q)))"
    using e(1) q'(1) by simp
  have "wake_up_it q' = first_node (filter (\<lambda>w. w_node w \<noteq> it) (sleeping q))"
  proof (cases "sleeping q")
    case Nil
    then show ?thesis using waiters_invD(6) [OF assms(1)] q'(3) by simp
  next
    case (Cons v ss)
    note inv = waiters_invD [OF assms(1), unfolded Cons]
    have ws: "waiters q = notified q @ v # ss" "wake_up_it q = Some (w_node v)" using inv(1,6) by simp_all
    note dv = inv(4)
    show ?thesis
    proof (cases "w_node v = it")
      case True
      then have "filter (\<lambda>w. w_node w \<noteq> it) ss = ss" using dv by (auto simp: filter_id_conv image_iff)
      then show ?thesis using True q'(3) ws Cons node_after_split [OF dv] by simp
    next
      case False
      then show ?thesis using q'(3) ws Cons by simp
    qed
  qed
  from waiters_invI [OF e(1-3) d e(4) this]
  show "waiters_inv q'" "notified q' = filter (\<lambda>w. w_node w \<noteq> it) (notified q)"
    "sleeping q' = filter (\<lambda>w. w_node w \<noteq> it) (sleeping q)" by simp_all
qed

section \<open>Waiters and ready items\<close>

text \<open>
  The invariant: as long as a waiter sleeps there are at least as many notified waiters as ready items.
\<close>

definition waiting_inv :: "('db, 'cb) queue \<Rightarrow> bool" where
  "waiting_inv q \<longleftrightarrow> waiters_inv q \<and> (sleeping q \<noteq> [] \<longrightarrow> length (ready_ids q) \<le> length (notified q))"

text \<open>Methods that keep it; they do not delete the queue.\<close>

definition mild :: "('db, 'cb) queue \<Rightarrow> ('db, 'cb) queue \<Rightarrow> bool" where
  "mild q q' \<longleftrightarrow> destroy_flag q' = destroy_flag q \<and> (waiting_inv q \<longrightarrow> waiting_inv q')"

definition same_waiters :: "('db, 'cb) queue \<Rightarrow> ('db, 'cb) queue \<Rightarrow> bool" where
  "same_waiters q q' \<longleftrightarrow> waiters q' = waiters q \<and> wake_up_it q' = wake_up_it q \<and> next_node q' = next_node q"

lemma same_waiters_simps:
  assumes "same_waiters q q'"
  shows "waiters_inv q' = waiters_inv q" "sleeping q' = sleeping q" "notified q' = notified q"
  using assms by (simp_all add: same_waiters_def waiters_inv_def sleeping_def notified_def)

lemma mild_refl [simp]: "mild q q"
  by (simp add: mild_def)

lemma mild_trans [trans]: "mild q q1 \<Longrightarrow> mild q1 q2 \<Longrightarrow> mild q q2"
  by (simp add: mild_def)

text \<open>A change that adds no item needs no wakeup; one that adds an item and wakes up keeps the count.\<close>

lemma mild_fewer:
  assumes "same_waiters q q'" "destroy_flag q' = destroy_flag q" "length (ready_ids q') \<le> length (ready_ids q)"
  shows "mild q q'"
  using assms by (auto simp: mild_def waiting_inv_def same_waiters_simps)

lemma mild_one_more:
  assumes "same_waiters q q'" "destroy_flag q' = destroy_flag q" "length (ready_ids q') \<le> Suc (length (ready_ids q))"
  shows "mild q (wake_up q')"
proof -
  have f: "destroy_flag (wake_up q') = destroy_flag q" using assms(2) by (simp add: wake_up_def split: option.split)
  have "waiting_inv (wake_up q')" if inv: "waiting_inv q"
  proof -
    have w: "waiters_inv q'" using inv assms(1) by (simp add: waiting_inv_def same_waiters_simps)
    have "length (ready_ids (wake_up q')) \<le> length (notified (wake_up q'))" if s: "sleeping (wake_up q') \<noteq> []"
    proof -
      obtain v vs where v: "sleeping q = v # vs"
        using s by (cases "sleeping q") (simp_all add: wake_up_waiters [OF w] same_waiters_simps [OF assms(1)])
      then have "length (ready_ids q) \<le> length (notified q)" using inv by (simp add: waiting_inv_def)
      then show ?thesis using assms(3) v by (simp add: wake_up_waiters [OF w] same_waiters_simps [OF assms(1)])
    qed
    then show ?thesis using wake_up_waiters(1) [OF w] by (simp add: waiting_inv_def)
  qed
  with f show ?thesis by (simp add: mild_def)
qed

lemma length_ready_ids: "length (ready_ids q) = length (returned q) + unat (key_id (queue_head q) - key_id (queue_tail q))"
  by (simp add: ready_ids_def)

lemma unat_plus_one_le: "unat (n + 1 :: 'a :: len word) \<le> Suc (unat n)"
  by (simp add: unat_word_ariths)

text \<open>The methods of a queue.\<close>

lemma mild_put: "queue_put L k v sync q = (r, q') \<Longrightarrow> mild q q'"
  by (rule mild_fewer) (auto simp: queue_put_def same_waiters_def ready_ids_def split: prod.splits)

lemma mild_write: "queue_write L b q = (r, q') \<Longrightarrow> mild q q'"
  by (rule mild_fewer) (auto simp: queue_write_def same_waiters_def ready_ids_def split: prod.splits)

lemma mild_fields [simp]: "mild q (q'\<lparr>items_open := n\<rparr>) = mild q q'" "mild q (q'\<lparr>bytes_evicted := b\<rparr>) = mild q q'"
  "mild q (q'\<lparr>chunks_head := k\<rparr>) = mild q q'"
  by (simp_all add: mild_def waiting_inv_def waiters_inv_def sleeping_def notified_def ready_ids_def)

lemma mild_compact: "compact L q = (r, q') \<Longrightarrow> mild q q'"
  by (rule mild_fewer) (auto simp: compact_def same_waiters_def ready_ids_def Let_def split: option.splits)

lemma mild_next_head:
  assumes "mild q q1"
  shows "mild q (wake_up (q1\<lparr>queue_head := with_id (queue_head q1) (key_id (queue_head q1) + 1)\<rparr>))"
proof (rule mild_trans [OF assms mild_one_more])
  show "length (ready_ids (q1\<lparr>queue_head := with_id (queue_head q1) (key_id (queue_head q1) + 1)\<rparr>)) \<le> Suc (length (ready_ids q1))"
    using unat_plus_one_le [of "key_id (queue_head q1) - key_id (queue_tail q1)"] by (simp add: length_ready_ids algebra_simps)
qed (simp_all add: same_waiters_def)

lemma mild_push_item: "push_item L x sync q = (r, q') \<Longrightarrow> mild q q'"
  by (auto simp: push_item_def split: if_splits prod.splits sum.splits dest: mild_put intro: mild_next_head)

lemma mild_push_header: "push_header L h sync q = (r, q') \<Longrightarrow> mild q q'"
  by (auto simp: push_header_def split: option.splits prod.splits sum.splits dest: mild_put intro: mild_next_head)

lemma pop_begin_ready:
  assumes "pop_begin q = (r, q')"
  shows "same_waiters q q'" "destroy_flag q' = destroy_flag q" "length (ready_ids q') = length (ready_ids q) - 1" "r = None \<longleftrightarrow> ready_ids q = []"
proof -
  show "same_waiters q q'" "destroy_flag q' = destroy_flag q"
    using assms by (auto simp: pop_begin_def same_waiters_def split: list.splits if_splits)
  have "unat (key_id (queue_head q) - (key_id (queue_tail q) + 1)) = unat (key_id (queue_head q) - key_id (queue_tail q)) - 1"
    if "key_id (queue_tail q) \<noteq> key_id (queue_head q)"
    using that unat_minus_one [of "key_id (queue_head q) - key_id (queue_tail q)"] by (simp add: algebra_simps)
  moreover have "unat (key_id (queue_head q) - key_id (queue_tail q)) = 0 \<longleftrightarrow> key_id (queue_tail q) = key_id (queue_head q)"
    by (auto simp: unat_eq_0)
  ultimately have "length (ready_ids q') = length (ready_ids q) - 1 \<and> (r = None \<longleftrightarrow> length (ready_ids q) = 0)"
    using assms unfolding length_ready_ids by (cases "returned q"; cases "key_id (queue_tail q) = key_id (queue_head q)") (auto simp: pop_begin_def)
  then show "length (ready_ids q') = length (ready_ids q) - 1" "r = None \<longleftrightarrow> ready_ids q = []" by simp_all
qed

lemma mild_pop_begin: "pop_begin q = (r, q') \<Longrightarrow> mild q q'"
  by (rule mild_fewer) (simp_all add: pop_begin_ready)

lemma mild_pop_end:
  assumes "pop_end L erase i h q = (r, q')"
  shows "mild q q'"
proof (cases erase)
  case True
  have "mild q q3" if "mild q q1" "compact L (q1\<lparr>bytes_evicted := b\<rparr>) = (r3, q3)" for q1 b r3 q3
    using that(1) mild_compact [OF that(2)] mild_trans [of q "q1\<lparr>bytes_evicted := b\<rparr>"] by simp
  then show ?thesis using assms True by (auto simp: pop_end_def Let_def split: prod.splits sum.splits if_splits dest: mild_write)
next
  case False
  have "length (ready_ids (q\<lparr>returned := insort_insert i (returned q)\<rparr>)) \<le> Suc (length (ready_ids q))"
    by (simp add: ready_ids_def insort_insert_key_def)
  then have "mild q (wake_up (q\<lparr>returned := insort_insert i (returned q)\<rparr>))" by (intro mild_one_more) (simp_all add: same_waiters_def)
  then show ?thesis using assms False by (auto simp: pop_end_def Let_def)
qed

lemma mild_iq_open: "iq_open a q s = (r, (q', s')) \<Longrightarrow> mild q q'"
  by (auto simp: iq_open_def split: if_splits option.splits prod.splits dest: mild_pop_begin)

lemma mild_iq_close: "iq_close L e q s = (r, (q', s')) \<Longrightarrow> mild q q'"
  by (auto simp: iq_close_def split: if_splits sum.splits prod.splits dest: mild_pop_end)

lemma mild_iq_dtor: "mild q (iq_dtor L q s)"
  by (cases "pop_end L False (is_id s) (is_header s) q") (auto simp: iq_dtor_def dest: mild_pop_end)

lemma mild_oq_open: "oq_open a n sync q s = (r, (q', s')) \<Longrightarrow> mild q q'"
  by (auto simp: oq_open_def reserve_chunks_def split: if_splits prod.splits)

lemma mild_oq_write: "oq_write L x q s = (r, (q', s')) \<Longrightarrow> mild q q'"
  by (auto simp: oq_write_def write_chunk_def Let_def split: if_splits prod.splits sum.splits
      dest!: mild_push_item mild_push_header mild_put intro: mild_trans)

lemma mild_oq_dtor: "mild q (oq_dtor L q s)"
  by (cases "erase_chunks L (os_header s) q")
    (auto simp: oq_dtor_def oq_cancel_def erase_chunks_def split: sum.splits dest: mild_write)

text \<open>A client that waits after it found no item; a waiter that is called back and takes an item.\<close>

lemma wait_waiting:
  assumes "waiting_inv q" "ready_ids q = []"
  shows "waiting_inv (wait ms cb q)"
proof -
  have "ready_ids (wait ms cb q) = ready_ids q" by (simp add: wait_def Let_def ready_ids_def)
  then show ?thesis using assms wait_waiters(1) [of q ms cb] by (simp add: waiting_inv_def)
qed

lemma filter_other_length:
  "distinct (map f xs) \<Longrightarrow> length xs \<le> Suc (length (filter (\<lambda>x. f x \<noteq> y) xs))"
proof (induction xs)
  case (Cons x xs)
  show ?case
  proof (cases "f x = y")
    case True
    then have "filter (\<lambda>x. f x \<noteq> y) xs = xs" using Cons.prems by (auto simp: filter_id_conv image_iff)
    with True show ?thesis by simp
  qed (use Cons in simp)
qed simp

lemma wakeup_ready:
  assumes inv: "waiting_inv q" and le: "key_id (queue_tail q) \<le> key_id (queue_head q)" and w: "waiter_wakeup it q = (Inr (cb, r), q1)"
  shows "waiters_inv q1" "ready_ids q1 = ready_ids q" "destroy_flag q1 = destroy_flag q" "r = Wait_ok \<longleftrightarrow> ready_ids q1 \<noteq> []"
    "sleeping q1 \<noteq> [] \<Longrightarrow> length (ready_ids q1) \<le> Suc (length (notified q1))"
proof -
  have wi: "waiters_inv q" using inv by (simp add: waiting_inv_def)
  note wk = waiter_wakeup_waiters [OF wi w]
  show "waiters_inv q1" by (rule wk(1))
  show e: "ready_ids q1 = ready_ids q" "destroy_flag q1 = destroy_flag q"
    using w by (auto simp: waiter_wakeup_def Let_def ready_ids_def split: option.splits if_splits)
  have "unat (key_id (queue_head q) - key_id (queue_tail q)) = 0 \<longleftrightarrow> \<not> key_id (queue_tail q) < key_id (queue_head q)"
    using le by (auto simp: unat_eq_0)
  then have "ready_ids q \<noteq> [] \<longleftrightarrow> returned q \<noteq> [] \<or> key_id (queue_tail q) < key_id (queue_head q)"
    using length_ready_ids [of q] by auto
  then show "r = Wait_ok \<longleftrightarrow> ready_ids q1 \<noteq> []"
    using w e(1) by (auto simp: waiter_wakeup_def Let_def split: option.splits if_splits)
  show "length (ready_ids q1) \<le> Suc (length (notified q1))" if "sleeping q1 \<noteq> []"
  proof -
    have "sleeping q \<noteq> []" using that wk(3) by auto
    then have "length (ready_ids q) \<le> length (notified q)" using inv by (simp add: waiting_inv_def)
    also have "\<dots> \<le> Suc (length (notified q1))"
      unfolding wk(2) by (rule filter_other_length) (use waiters_invD(4) [OF wi] in simp)
    finally show ?thesis using e(1) by simp
  qed
qed

lemma woken_pop_waiting:
  assumes "waiting_inv q" "key_id (queue_tail q) \<le> key_id (queue_head q)" "waiter_wakeup it q = (Inr (cb, r), q1)" "pop_begin q1 = (t, q2)"
  shows "waiting_inv q2"
  using wakeup_ready(1,5) [OF assms(1-3)] pop_begin_ready [OF assms(4)] by (auto simp: waiting_inv_def same_waiters_simps)

lemma timed_out_waiting:
  assumes "waiting_inv q" "key_id (queue_tail q) \<le> key_id (queue_head q)" "waiter_wakeup it q = (Inr (cb, Wait_timed_out), q1)"
  shows "waiting_inv q1"
  using wakeup_ready(1,4) [OF assms] by (simp add: waiting_inv_def)

lemma queue_fresh_waiters: "waiters_inv (queue_fresh db p)"
  by (simp add: waiters_inv_def queue_fresh_def sleeping_def notified_def)

lemma queue_ctor_waiting:
  assumes "queue_ctor L pdb p = Inr q"
  shows "waiting_inv q"
proof -
  have "waiters q = [] \<and> wake_up_it q = None"
    using assms by (auto simp: queue_ctor_def queue_fresh_def Let_def split: option.splits if_splits)
  then show ?thesis by (simp add: waiting_inv_def waiters_inv_def sleeping_def notified_def)
qed

section \<open>What waiters are promised\<close>

definition demo_waiting :: "(mem_db, nat) queue" where
  "demo_waiting = snd (push_item mem_journal ''x'' False (wait 5 1 (wait 5 0 (queue_fresh (mem_empty []) ''q''))))"

text \<open>
  C13: waiters are served in the order they came: a push that succeeds notifies the waiter that has slept longest and
  only that one.
\<close>

theorem push_wakes_longest_sleeper:
  assumes "waiters_inv q" "push_item L x sync q = (Inr i, q')"
  shows "waiters_inv q' \<and> sleeping q' = tl (sleeping q) \<and> map w_node (notified q') = map w_node (notified q @ take 1 (sleeping q))"
proof -
  obtain db where q': "q' = advance db q" using assms(2) by (rule push_item_cases)
  let ?q = "q\<lparr>journal := db, queue_head := with_id (queue_head q) (key_id (queue_head q) + 1)\<rparr>"
  have same: "same_waiters q ?q" by (simp add: same_waiters_def)
  have "waiters_inv ?q" using assms(1) by (simp add: same_waiters_simps [OF same])
  from wake_up_waiters [OF this] show ?thesis
    unfolding q' advance_def same_waiters_simps [OF same] by (auto split: list.splits)
qed

theorem push_wakes_longest_sleeper_witness:
  "sleeping demo_waiting = tl (sleeping (wait 5 1 (wait 5 0 (queue_fresh (mem_empty []) ''q''))))"
proof -
  let ?q = "wait 5 1 (wait 5 0 (queue_fresh (mem_empty []) ''q'')) :: (mem_db, nat) queue"
  have "fst (push_item mem_journal ''x'' False ?q) = Inr 0" by code_simp
  then have "push_item mem_journal ''x'' False ?q = (Inr 0, demo_waiting)" by (simp add: demo_waiting_def prod_eq_iff)
  moreover have "waiters_inv ?q"
    by (intro wait_waiters(1) queue_fresh_waiters)
  ultimately show ?thesis using push_wakes_longest_sleeper by blast
qed

text \<open>
  C40: a waiter can be told that it timed out although its timer has not run out: a push notifies the longest sleeper of an empty queue by
  cancelling its timer, whatever time it had left, another client's pop takes the item before the cancelled timer's completion runs, and the waiter
  is then called back with the error of a timeout.
\<close>

theorem wait_times_out_early:
  assumes "waiters_inv q" "sleeping q = v # ss" "ready_ids q = []" "push_item L x sync q = (Inr i, q1)"
  shows "fst (pop_begin q1) = Some i \<and> v\<lparr>w_cancelled := True\<rparr> \<in> set (waiters (snd (pop_begin q1))) \<and>
    fst (waiter_wakeup (w_node v) (snd (pop_begin q1))) = Inr (w_cb v, Wait_timed_out)"
proof -
  obtain db where q1: "q1 = advance db q" and i: "i = key_id (queue_head q)" using assms(4) by (rule push_item_cases)
  let ?q = "q\<lparr>journal := db, queue_head := with_id (queue_head q) (key_id (queue_head q) + 1)\<rparr>" and ?v = "v\<lparr>w_cancelled := True\<rparr>"
  have same: "same_waiters q ?q" by (simp add: same_waiters_def)
  have "waiters_inv ?q" using assms(1) by (simp add: same_waiters_simps [OF same])
  note w = wake_up_waiters [OF this, folded advance_def, folded q1, unfolded same_waiters_simps [OF same] assms(2)]
  have h: "returned q = []" "key_id (queue_tail q) = key_id (queue_head q)"
    using assms(3) length_ready_ids [of q] by (auto simp: unat_eq_0)
  obtain q2 where p: "pop_begin q1 = (Some i, q2)" "waiters q2 = waiters q1" "returned q2 = []" "key_id (queue_tail q2) = key_id (queue_head q2)"
    using h by (simp add: q1 i pop_begin_def)
  have v: "?v \<in> set (waiters q1)" "distinct (map w_node (waiters q1))"
    using waiters_invD(1,4) [OF w(1)] w(2) by simp_all
  from find_node [OF this(2,1)] have "find (\<lambda>u. w_node u = w_node v) (waiters q1) = Some ?v" by simp
  then show ?thesis using v p by (simp add: waiter_wakeup_def Let_def)
qed

text \<open>A client that waits up to an hour; another client's get takes the item that it was woken up for.\<close>

theorem wait_times_out_early_witness:
  "let q = wait 3600000 (7 :: nat) (queue_fresh (mem_empty []) ''q''); q1 = snd (push_item mem_journal ''x'' False q)
   in fst (waiter_wakeup 0 (snd (pop_begin q1))) = Inr (7, Wait_timed_out)"
proof -
  let ?q = "wait 3600000 7 (queue_fresh (mem_empty []) ''q'') :: (mem_db, nat) queue"
  let ?v = "\<lparr>w_node = 0, w_ms = 3600000, w_cb = 7, w_cancelled = False\<rparr> :: nat waiter"
  have p: "push_item mem_journal ''x'' False ?q = (Inr 0, snd (push_item mem_journal ''x'' False ?q))"
    by (rule prod_eqI) (code_simp, simp)
  have "waiters_inv ?q" by (intro wait_waiters(1) queue_fresh_waiters)
  moreover have "sleeping ?q = [?v]" "ready_ids ?q = []" by (simp_all add: sleeping_def wait_def queue_fresh_def ready_ids_def Let_def)
  ultimately show ?thesis using wait_times_out_early [OF _ _ _ p, of ?v "[]"] by (simp add: Let_def)
qed

end
