(* ===== verification/Wakeups.thy ===== *)
theory Wakeups
  imports Server_Conns Waiters
begin

text \<open>
  No wakeup is lost in a run of the server. The queue at an address is served when the ready items do not outnumber the notified waiters
  while somebody sleeps, and when the name that each of its waiters will look up again leads to it. Every method of a handler keeps this,
  the ones that wait included; the completion of a waiter's timer restores it by popping an item.
\<close>

section \<open>A queue that is served\<close>

text \<open>\<open>L\<close> are the names that the waiters of the queue at \<open>a\<close> asked for. A deleted or flushed queue promises nothing.\<close>

definition served :: "nat \<Rightarrow> string set \<Rightarrow> ('fs, 'db, 'cb) queue_map \<Rightarrow> bool" where
  "served a L m \<longleftrightarrow> map_sorted (qm_queues m) \<and> (L \<noteq> {} \<longrightarrow> a < qm_next m) \<and>
     (\<forall>q. qm_heap m a = Some q \<and> \<not> destroy_flag q \<longrightarrow> waiting_inv q \<and> (\<forall>n \<in> L. map_find (qm_queues m) n = Some a))"

definition map_serves :: "nat \<Rightarrow> ('fs, 'db, 'cb) queue_map \<Rightarrow> ('fs, 'db, 'cb) queue_map \<Rightarrow> bool" where
  "map_serves a m m' \<longleftrightarrow> (\<forall>L. served a L m \<longrightarrow> served a L m')"

lemma map_serves_refl [simp]: "map_serves a m m"
  by (simp add: map_serves_def)

lemma map_serves_trans: "map_serves a m m1 \<Longrightarrow> map_serves a m1 m2 \<Longrightarrow> map_serves a m m2"
  by (simp add: map_serves_def)

lemma served_subset: "served a L m \<Longrightarrow> K \<subseteq> L \<Longrightarrow> served a K m"
  unfolding served_def by blast

lemma map_serves_same: "qm_heap m' = qm_heap m \<Longrightarrow> qm_next m' = qm_next m \<Longrightarrow> qm_queues m' = qm_queues m \<Longrightarrow> map_serves a m m'"
  unfolding map_serves_def served_def by auto

lemma map_serves_mild:
  assumes "qm_heap m b = Some q" "mild q q'" "qm_heap m' = (qm_heap m)(b \<mapsto> q')" "qm_next m' = qm_next m" "qm_queues m' = qm_queues m"
  shows "map_serves a m m'"
  using assms unfolding map_serves_def served_def mild_def by auto

lemma map_serves_freed:
  assumes "qm_heap m' = (qm_heap m)(b := None)" "qm_next m' = qm_next m" "qm_queues m' = qm_queues m"
  shows "map_serves a m m'"
  using assms unfolding map_serves_def served_def by auto

lemma map_serves_new:
  assumes "map_find (qm_queues m) n = None" "waiting_inv q" "qm_heap m' = (qm_heap m)(qm_next m \<mapsto> q)" "qm_next m' = Suc (qm_next m)"
    and "qm_queues m' = map_insert n (qm_next m) (qm_queues m)"
  shows "map_serves a m m'"
proof -
  have "served a L m'" if s: "served a L m" for L
  proof -
    have so: "map_sorted (qm_queues m)" "L \<noteq> {} \<Longrightarrow> a < qm_next m" using s by (auto simp: served_def)
    have "waiting_inv p \<and> (\<forall>k \<in> L. map_find (qm_queues m') k = Some a)" if p: "qm_heap m' a = Some p" "\<not> destroy_flag p" for p
    proof (cases "a = qm_next m")
      case True
      then show ?thesis using so(2) p(1) assms(2,3) by auto
    next
      case False
      then show ?thesis using s p assms(1,3,5) by (auto simp: served_def om.find_insert [OF so(1)])
    qed
    then show ?thesis using so assms(4,5) by (auto simp: served_def map_sorted_insert less_SucI)
  qed
  then show ?thesis by (simp add: map_serves_def)
qed

lemma assign_queue_serves:
  assumes "assign_queue L F n m = (r, m')" "map_find (qm_queues m) n = None"
  shows "map_serves a m m'"
proof (cases r)
  case (Inl e)
  then show ?thesis using assms(1)
    by (auto simp: assign_queue_def make_queue_def Let_def split: prod.splits sum.splits intro: map_serves_same)
next
  case (Inr b)
  then show ?thesis using assms
    by (auto simp: assign_queue_def make_queue_def Let_def split: prod.splits sum.splits dest!: queue_ctor_waiting intro!: map_serves_new [of _ n])
qed

lemma queue_map_get_serves: "queue_map_get L F n m = (r, m') \<Longrightarrow> map_serves a m m'"
  by (auto simp: queue_map_get_def split: option.splits dest: assign_queue_serves)

lemma release_queue_serves: "release_queue F owned b m = (r, m') \<Longrightarrow> map_serves a m m'"
  by (auto simp: release_queue_def split: option.splits if_splits prod.splits intro!: map_serves_freed)

text \<open>A queue that is erased is marked; its name led to it and to no other queue.\<close>

lemma destroy_marks: "queue_destroy F fs q = (Inr u, (fs', q')) \<Longrightarrow> destroy_flag q'"
  by (auto simp: queue_destroy_def Let_def split: if_split_asm option.split_asm prod.split_asm bool.split_asm)

lemma queue_map_remove_serves:
  assumes "queue_map_remove F owned n b m = (Inr u, m')" "map_find (qm_queues m) n = Some b"
  shows "map_serves a m m'" "map_sorted (qm_queues m) \<Longrightarrow> map_find (qm_queues m') n = None"
proof -
  obtain q where q: "qm_heap m b = Some q" using assms(1) by (cases "qm_heap m b") (simp_all add: queue_map_remove_def)
  obtain r1 fs1 q1 where des: "queue_destroy F (qm_fs m) q = (r1, (fs1, q1))" by (metis prod.exhaust)
  have r1: "r1 = Inr ()" using assms(1) q des by (cases r1) (simp_all add: queue_map_remove_def)
  let ?m = "m\<lparr>qm_fs := fs1, qm_heap := (qm_heap m)(b \<mapsto> q1), qm_queues := map_erase n (qm_queues m)\<rparr>"
  have rel: "release_queue F owned b ?m = (Inr u, m')" using assms(1) q des r1 by (simp add: queue_map_remove_def)
  have "served a L m \<Longrightarrow> served a L ?m" for L
    using assms(2) destroy_marks [OF des [unfolded r1]] unfolding served_def by (auto simp: om.find_erase map_sorted_erase)
  then have "map_serves a m ?m" by (simp add: map_serves_def)
  then show "map_serves a m m'" by (rule map_serves_trans [OF _ release_queue_serves [OF rel]])
  have "qm_queues m' = map_erase n (qm_queues m)" using rel by (auto simp: release_queue_def split: option.splits if_splits prod.splits)
  then show "map_sorted (qm_queues m) \<Longrightarrow> map_find (qm_queues m') n = None" by (simp add: om.find_erase)
qed

lemma queue_map_erase_serves:
  assumes "queue_map_erase L F owned n recreate m = (Inr u, m')"
  shows "map_serves a m m'"
proof (cases "map_find (qm_queues m) n")
  case None
  then show ?thesis using assms by (simp add: queue_map_erase_def)
next
  case (Some b)
  obtain r1 m1 where rm: "queue_map_remove F owned n b m = (r1, m1)" by fastforce
  have r1: "r1 = Inr ()" using assms Some rm by (cases r1) (simp_all add: queue_map_erase_def)
  note rs = queue_map_remove_serves [OF rm [unfolded r1] Some]
  have "m' = m1 \<or> (\<exists>r2. assign_queue L F n m1 = (r2, m'))"
    using assms Some rm r1 by (auto simp: queue_map_erase_def split: sum.splits if_splits prod.splits)
  moreover have "served a K m'" if "assign_queue L F n m1 = (r2, m')" "served a K m" for r2 K
  proof -
    have "map_serves a m1 m'" using assign_queue_serves [OF that(1) rs(2)] that(2) by (simp add: served_def)
    then show ?thesis using rs(1) that(2) by (simp add: map_serves_def)
  qed
  ultimately show ?thesis using rs(1) by (auto simp: map_serves_def)
qed

section \<open>What a handler's method serves\<close>

definition serves :: "nat \<Rightarrow> ('fs, 'db) conn \<Rightarrow> ('fs, 'db) conn \<Rightarrow> bool" where
  "serves a x y \<longleftrightarrow> map_serves a (sh_queues (snd x)) (sh_queues (snd y))"

lemma serves_trans: "serves a x y \<Longrightarrow> serves a y z \<Longrightarrow> serves a x z"
  unfolding serves_def by (rule map_serves_trans)

interpretation sp: method_relation X "serves a" mild for X a
proof unfold_locales
  show "serves a x z" if "serves a x y" "serves a y z" for x y z :: "('a, 'b) conn" by (rule serves_trans [OF that])
  show "serves a (s, w) (s', set_queue b q' w)" if "qm_heap (sh_queues w) b = Some q" "mild q q'" for s s' b q q' and w :: "('a, 'b) shared"
    using map_serves_mild [OF that, of "sh_queues (set_queue b q' w)"] by (simp add: serves_def set_queue_def)
  show "serves a (s, w) (s, w\<lparr>sh_queues := m\<rparr>)" if "release_queue (x_fs X) owned b (sh_queues w) = (r, m)" for s owned b r m and w :: "('a, 'b) shared"
    using release_queue_serves [OF that] by (simp add: serves_def)
  show "serves a (s, w) (s, w\<lparr>sh_queues := m\<rparr>)" if "queue_map_get (x_ldb X) (x_fs X) n (sh_queues w) = (r, m)" for s n r m and w :: "('a, 'b) shared"
    using queue_map_get_serves [OF that] by (simp add: serves_def)
qed (simp_all add: serves_def mild_iq_dtor mild_oq_dtor mild_iq_open mild_iq_close mild_oq_open mild_oq_write)

text \<open>A method that ends without an exception.\<close>

definition ends_served :: "nat \<Rightarrow> ('fs, 'db) conn \<Rightarrow> (('fs, 'db) conn, unit) outcome \<Rightarrow> bool" where
  "ends_served a x r \<longleftrightarrow> (\<forall>y. r = (Inr (), y) \<longrightarrow> serves a x y)"

lemma serves_ends: "serves a x (snd r) \<Longrightarrow> ends_served a x r"
  by (auto simp: ends_served_def)

lemma serves_then_ends: "serves a x y \<Longrightarrow> ends_served a y r \<Longrightarrow> ends_served a x r"
  by (auto simp: ends_served_def intro: serves_trans)

lemma handler_erase_serves: "ends_served a x (handler_erase X others recreate msg x)"
proof -
  obtain s w where x: "x = (s, w)" by fastforce
  obtain r m where e: "queue_map_erase (x_ldb X) (x_fs X) (\<lambda>b. others b \<or> owned_by s b) (r_queue (hn_req s)) recreate (sh_queues w) = (r, m)" by fastforce
  show ?thesis
  proof (cases r)
    case (Inl err)
    then show ?thesis using e by (simp add: x handler_erase_def ends_served_def)
  next
    case (Inr u)
    have "serves a (s, w) (s, w\<lparr>sh_queues := m\<rparr>)" using queue_map_erase_serves [OF e [unfolded Inr]] by (simp add: serves_def)
    from serves_ends [OF serves_trans [OF this sp.quiet_methods_rel(1)]] show ?thesis using e Inr by (simp add: x handler_erase_def)
  qed
qed

lemma handler_flush_all_serves: "ends_served a x (handler_flush_all X others x)"
proof -
  obtain s w where x: "x = (s, w)" by fastforce
  show ?thesis
  proof (cases "qm_queues (sh_queues w)")
    case Nil
    then show ?thesis using serves_ends [OF sp.quiet_methods_rel(1) [of a "(s, w)"]] by (simp add: x handler_flush_all_def)
  next
    case (Cons e es)
    then show ?thesis by (cases e) (simp add: x handler_flush_all_def ends_served_def split: prod.split sum.split)
  qed
qed

text \<open>A client starts to wait on the queue in which it has just found no item.\<close>

lemma find_queue_again:
  assumes "map_find (qm_queues (sh_queues w)) n = Some b" "qm_heap (sh_queues w) b = Some q"
  shows "find_queue X n (s, w) = (Inr (b, q), (s, w))"
  using assms by (simp add: find_queue_def queue_map_get_def)

lemma handler_wait_serves:
  assumes "map_find (qm_queues (sh_queues w)) (r_queue (hn_req s)) = Some b" "qm_heap (sh_queues w) b = Some q" "ready_ids q = []"
  shows "serves a (s, w) (snd (handler_wait X k (s, w)))"
proof -
  let ?q = "wait (r_wait_ms (hn_req s)) k q"
  have "mild q ?q" using wait_waiting [OF _ assms(3)] by (simp add: mild_def) (simp add: wait_def Let_def)
  from sp.call_rel [OF assms(2) this, of s s a] show ?thesis
    by (simp add: handler_wait_def find_queue_again [OF assms(1,2)] serves_def)
qed

lemma pop_stream_open_finds:
  assumes "pop_stream_open X (s, w) = (Inr opened, (s1, w1))" "map_sorted (qm_queues (sh_queues w))"
  obtains b q r q1 where "map_find (qm_queues (sh_queues w1)) (r_queue (hn_req s)) = Some b" "qm_heap (sh_queues w1) b = Some q1"
    "pop_begin q = (r, q1)" "opened \<longleftrightarrow> r \<noteq> None" "hn_req s1 = hn_req s"
proof -
  obtain r w2 where f: "find_queue X (r_queue (hn_req s)) (s, w) = (r, (s, w2))" by (rule find_queue_same)
  obtain b q where r: "r = Inr (b, q)" using assms(1) f by (cases r) (auto simp: pop_stream_open_def)
  obtain t q1 where pb: "pop_begin q = (t, q1)" by (rule prod.exhaust)
  have m: "map_find (qm_queues (sh_queues w2)) (r_queue (hn_req s)) = Some b" by (rule find_queue_named [OF f [unfolded r] assms(2)])
  have "w1 = set_queue b q1 w2" "opened \<longleftrightarrow> t \<noteq> None" "hn_req s1 = hn_req s"
    using assms(1) f r pb by (auto simp: pop_stream_open_def iq_open_def split: if_splits option.splits)
  then show thesis using that [OF _ _ pb, of b] m by (simp add: set_queue_def)
qed

lemma handler_get_next_serves: "serves a x (snd (handler_get_next X others k x))"
proof -
  let ?r = "hn_req (fst x)" and ?msg = "''END'' @ crlf"
  obtain s w where x: "x = (s, w)" by fastforce
  obtain r y where o: "pop_stream_open X x = (r, y)" by (rule prod.exhaust)
  obtain s1 w1 where y: "y = (s1, w1)" by fastforce
  have xy: "serves a x y" using sp.pop_stream_open_rel [of a x X] o by simp
  have t: "serves a y (snd (try_then (pop_stream_read X y) (handler_error_exn X k ''get'' True) (handler_get_reply X others k)))"
    by (rule sp.try_then_rel, rule sp.pop_stream_read_rel, rule sp.quiet_methods_rel(4), rule sp.handler_get_reply_rel)
  have w: "serves a x (snd (handler_wait X k y))" if r: "r = Inr False"
  proof (cases "map_sorted (qm_queues (sh_queues w))")
    case True
    from o r have o': "pop_stream_open X (s, w) = (Inr False, (s1, w1))" by (simp add: x y)
    obtain b q t q1 where f: "map_find (qm_queues (sh_queues w1)) (r_queue (hn_req s)) = Some b" "qm_heap (sh_queues w1) b = Some q1"
      "pop_begin q = (t, q1)" "t = None" "hn_req s1 = hn_req s" using pop_stream_open_finds [OF o' True] by metis
    have "q1 = q" using f(3,4) by (auto simp: pop_begin_def split: list.splits if_splits)
    then have "ready_ids q1 = []" using pop_begin_ready(4) [OF f(3)] f(4) by simp
    then have "serves a y (snd (handler_wait X k y))" unfolding y using f by (intro handler_wait_serves) simp_all
    then show ?thesis by (rule serves_trans [OF xy])
  next
    case False
    then show ?thesis by (simp add: serves_def map_serves_def served_def x)
  qed
  show ?thesis using o xy t w serves_trans [OF xy t] serves_trans [OF xy sp.quiet_methods_rel(1)] sp.quiet_methods_rel(1) [of a x]
    by (cases r) (simp_all add: handler_get_next_def Let_def)
qed

lemma handler_get_serves: "serves a x (snd (handler_get X others k x))"
proof -
  have "serves a x (snd (try_then (pop_stream_close X others e x) (handler_error_exn X k ''get'' True) (handler_get_next X others k)))" for e
    by (rule sp.try_then_rel, rule sp.pop_stream_close_rel, rule sp.quiet_methods_rel(4), rule handler_get_next_serves)
  then show ?thesis by (simp add: handler_get_def Let_def sp.quiet_methods_rel handler_get_next_serves)
qed

lemma handler_get_on_queue_return_serves: "serves a x (snd (handler_get_on_queue_return X others k e x))"
  by (cases e) (simp_all add: handler_get_on_queue_return_def handler_get_serves sp.quiet_methods_rel)

lemma handler_route_serves: "ends_served a x (handler_route X others k x)"
proof -
  have s: "serves a x (update_stats (\<lambda>st. st\<lparr>cmd_sets := cmd_sets st + 1\<rparr>) x)" "serves a x (update_stats (\<lambda>st. st\<lparr>cmd_gets := cmd_gets st + 1\<rparr>) x)"
    by (rule sp.update_stats_rel, simp)+
  note m = serves_then_ends [OF s(1) serves_ends [OF sp.handler_set_rel]] serves_then_ends [OF s(2) serves_ends [OF handler_get_serves]]
  show ?thesis
    by (simp add: handler_route_def handler_destroy_def handler_flush_def handler_erase_serves handler_flush_all_serves m
        serves_ends sp.quiet_methods_rel sp.refl_rel split: option.split request_type.split)
qed

lemma handler_parse_request_serves: "ends_served a x (handler_parse_request X others k e n x)"
proof -
  obtain s w where x: "x = (s, w)" by fastforce
  obtain b r where p: "request_parse (x_qi X) (take n (hn_in s)) (hn_req s) = (b, r)" by fastforce
  have q: "serves a (s, w) (s', w)" for s' by (simp add: serves_def)
  note m = serves_then_ends [OF q handler_route_serves] serves_then_ends [OF q serves_ends [OF sp.quiet_methods_rel(2)]] serves_ends [OF sp.quiet_methods_rel(3)]
  show ?thesis using p by (cases e; cases b) (simp_all add: x handler_parse_request_def Let_def m serves_ends sp.refl_rel)
qed

lemma received_serves: "ends_served a x (received p X k bytes e others x)"
proof -
  obtain s w where x: "x = (s, w)" by fastforce
  have q: "serves a (s, w) (s', w)" for s' by (simp add: serves_def)
  show ?thesis using serves_then_ends [OF q handler_parse_request_serves] serves_then_ends [OF q serves_ends [OF sp.handler_set_on_read_chunk_rel]]
    by (simp add: x received_def Let_def)
qed

lemma written_serves: "ends_served a x (written kont X k e others x)"
  by (cases kont) (simp_all add: serves_ends sp.handler_get_on_write_chunk_rel sp.quiet_methods_rel)

lemma handler_dtor_serves: "serves a x (snd (handler_dtor X others x))"
proof -
  let ?x = "update_stats (\<lambda>st. st\<lparr>conns_closed := conns_closed st + 1\<rparr>) x"
  obtain r y where d: "drop_push_stream X others ?x = (r, y)" by (rule prod.exhaust)
  have "serves a x ?x" by (cases x) (simp add: update_stats_def serves_def)
  moreover have "serves a ?x y" using sp.drop_push_stream_rel [of a ?x X others] d by simp
  ultimately have k: "serves a x y" by (rule serves_trans)
  show ?thesis using d k serves_trans [OF k sp.drop_pop_stream_rel] by (simp add: handler_dtor_def split: sum.split)
qed

text \<open>The callback of a waiter: it takes an item off the queue that it waited on, unless that was deleted.\<close>

lemma woken_get_pops:
  assumes ok: "waiting_ok s" and nm: "map_find (qm_queues (sh_queues w)) (r_queue (hn_req s)) = Some a"
    and q: "qm_heap (sh_queues w) a = Some q" "pop_begin q = (Some i, q1)" and sv: "served a L (sh_queues (set_queue a q1 w))"
  shows "served a L (sh_queues (snd (snd (handler_get X others k (s, w)))))"
proof -
  have g: "handler_get X others k (s, w) = handler_get_next X others k (s, w)"
    using ok by (auto simp: waiting_ok_def handler_get_def Let_def pop_stream_close_def try_then_def)
  obtain p where o: "pop_stream_open X (s, w) = (Inr True, (s\<lparr>hn_pop_stream := p\<rparr>, set_queue a q1 w))"
    using ok q by (simp add: pop_stream_open_def find_queue_again [OF nm q(1)] iq_open_def waiting_ok_def)
  let ?y = "(s\<lparr>hn_pop_stream := p\<rparr>, set_queue a q1 w)"
  have "serves a ?y (snd (try_then (pop_stream_read X ?y) (handler_error_exn X k ''get'' True) (handler_get_reply X others k)))"
    by (rule sp.try_then_rel, rule sp.pop_stream_read_rel, rule sp.quiet_methods_rel(4), rule sp.handler_get_reply_rel)
  moreover have "handler_get_next X others k (s, w) = try_then (pop_stream_read X ?y) (handler_error_exn X k ''get'' True) (handler_get_reply X others k)"
    using ok o by (auto simp: handler_get_next_def Let_def waiting_ok_def)
  ultimately show ?thesis using sv g by (simp add: serves_def map_serves_def)
qed

section \<open>Runs of the server\<close>

definition wanted :: "nat \<Rightarrow> ('fs, 'db) server \<Rightarrow> string set" where
  "wanted a sv = {r_queue (hn_req s) | k s n. sv_conns sv k = Some s \<and> (a, n) \<in> waits_of sv k}"

definition wakes :: "nat \<Rightarrow> ('fs, 'db) server \<Rightarrow> bool" where
  "wakes a sv \<longleftrightarrow> served a (wanted a sv) (sh_queues (sv_shared sv)) \<and> (\<forall>k s. sv_conns sv k = Some s \<and> hn_pending s = P_wait \<longrightarrow> waiting_ok s)"

lemma wanted_subset:
  assumes "\<And>k. waits_of sv' k \<noteq> {} \<Longrightarrow> sv_conns sv' k = sv_conns sv k \<and> waits_of sv' k \<subseteq> waits_of sv k"
  shows "wanted a sv' \<subseteq> wanted a sv"
  using assms unfolding wanted_def by fastforce

text \<open>The connection that has run waits for the queue that it has just looked at, or for none.\<close>

lemma wanted_joins:
  assumes k: "waits_of sv k = {}" and ok: "map_ok (sh_queues (sv_shared sv))" and j: "joins k (s0, sv_shared sv) (s1, w1)"
    and s: "served a (wanted a sv) (sh_queues w1)"
  defines "sv' \<equiv> sv\<lparr>sv_conns := (sv_conns sv)(k \<mapsto> s1), sv_shared := w1\<rparr>"
  shows "served a (wanted a sv') (sh_queues w1)"
proof -
  obtain b n where w: "map_waits (sh_queues w1) = (map_waits (sh_queues (sv_shared sv)))(b := map_waits (sh_queues (sv_shared sv)) b @ [(n, k)])"
    and ok1: "map_ok (sh_queues w1)" and nm: "map_find (qm_queues (sh_queues w1)) (r_queue (hn_req s1)) = Some b"
    using j ok by (auto simp: joins_def)
  have ws: "waits_of sv' i = (if i = k then {(b, n)} else waits_of sv i)" for i using w k by (auto simp: sv'_def waits_of_def split: if_splits)
  show ?thesis
  proof (cases "b = a")
    case True
    have "map_waits (sh_queues w1) a \<noteq> []" using w True by simp
    then obtain q where "qm_heap (sh_queues w1) a = Some q" by (auto simp: map_waits_def split: option.splits)
    then have "a < qm_next (sh_queues w1)" using ok1 by (auto simp: map_ok_def)
    then have "served a (insert (r_queue (hn_req s1)) (wanted a sv)) (sh_queues w1)" using s nm True by (auto simp: served_def)
    moreover have "wanted a sv' \<subseteq> insert (r_queue (hn_req s1)) (wanted a sv)" unfolding wanted_def ws by (auto simp: sv'_def split: if_splits)
    ultimately show ?thesis by (rule served_subset)
  next
    case False
    then have "wanted a sv' \<subseteq> wanted a sv" unfolding wanted_def ws by (auto simp: sv'_def split: if_splits)
    then show ?thesis by (rule served_subset [OF s])
  qed
qed

lemma run_conn_wakes:
  fixes sv :: "('fs, 'db) server" and s :: handler
  defines "s0 \<equiv> s\<lparr>hn_pending := P_none\<rparr>"
  assumes k: "waits_of sv k = {}" "sv_conns sv k = Some s" and ok: "map_ok (sh_queues (sv_shared sv))"
    and f: "\<And>others x. advances k x (snd (f others x))"
    and sv: "\<And>others y. f others (s0, sv_shared sv) = (Inr (), y) \<Longrightarrow> served a (wanted a sv) (sh_queues (snd y))"
    and wo: "\<And>j t. j \<noteq> k \<Longrightarrow> sv_conns sv j = Some t \<Longrightarrow> hn_pending t = P_wait \<Longrightarrow> waiting_ok t"
    and run: "run_conn X owned k f sv = (Inr (), sv')"
  shows "wakes a sv'"
proof -
  let ?o = "\<lambda>b. owned b \<or> queue_owners sv k b"
  obtain r s1 w1 where fs: "f ?o (s0, sv_shared sv) = (r, (s1, w1))" by (metis prod.exhaust)
  obtain r2 s2 w2 where dt: "handler_dtor X ?o (s1, w1) = (r2, (s2, w2))" by (metis prod.exhaust)
  have r: "r = Inr ()" using run k(2) fs by (cases r) (auto simp: run_conn_def Let_def s0_def)
  have adv: "advances k (s0, sv_shared sv) (s1, w1)" using f [of "(s0, sv_shared sv)" ?o] fs by simp
  have s1: "served a (wanted a sv) (sh_queues w1)" using sv fs r by fastforce
  consider (gone) "hn_pending s1 = P_none" "sv' = sv\<lparr>sv_conns := (sv_conns sv)(k := None), sv_shared := w2\<rparr>" "keeps (s0, sv_shared sv) (s1, w1)"
    | (on) "sv' = sv\<lparr>sv_conns := (sv_conns sv)(k \<mapsto> s1), sv_shared := w1\<rparr>" "keeps (s0, sv_shared sv) (s1, w1)"
    | (joins) "sv' = sv\<lparr>sv_conns := (sv_conns sv)(k \<mapsto> s1), sv_shared := w1\<rparr>" "joins k (s0, sv_shared sv) (s1, w1)"
    using run k(2) fs dt r adv unfolding advances_def s0_def by (cases "hn_pending s1 = P_none") (auto simp: run_conn_def Let_def joins_def)
  then show ?thesis
  proof cases
    case gone
    have "keeps (update_stats (\<lambda>st. st\<lparr>conns_closed := conns_closed st + 1\<rparr>) (s1, w1)) (s2, w2)" using handler_dtor_keeps [of "(s1, w1)" X ?o] dt by simp
    then have "waits_of sv' = waits_of sv" using gone(2,3) ok by (intro waits_of_keeps) (simp add: keeps_def map_keeps_def update_stats_def)
    then have "wanted a sv' \<subseteq> wanted a sv" using gone(2) k(1) by (intro wanted_subset) auto
    moreover have "served a (wanted a sv) (sh_queues w2)" using handler_dtor_serves [of a "(s1, w1)" X ?o] dt s1 by (simp add: serves_def map_serves_def)
    ultimately show ?thesis using gone(2) wo served_subset by (auto simp: wakes_def)
  next
    case on
    then have "waits_of sv' = waits_of sv" using ok by (intro waits_of_keeps) (simp add: keeps_def map_keeps_def)
    then have "wanted a sv' \<subseteq> wanted a sv" using on(1) k(1) by (intro wanted_subset) auto
    moreover have "hn_pending s1 \<noteq> P_wait" using on(2) by (auto simp: keeps_def s0_def)
    ultimately show ?thesis using on(1) wo s1 served_subset by (auto simp: wakes_def)
  next
    case joins
    have "waiting_ok s1" using joins(2) by (simp add: joins_def)
    then show ?thesis using wanted_joins [OF k(1) ok joins(2) s1] joins(1) wo by (auto simp: wakes_def)
  qed
qed

text \<open>A connection whose operation completes, other than a wait.\<close>

lemma idle_conn_wakes:
  assumes inv: "conns_inv sv" "wakes a sv" and s: "sv_conns sv k = Some s" "hn_pending s \<noteq> P_wait"
    and f: "\<And>others x. advances k x (snd (f others x))" "\<And>others x. ends_served a x (f others x)" and run: "run_conn X owned k f sv = (Inr (), sv')"
  shows "wakes a sv'"
proof -
  have "conn_inv sv k" "map_ok (sh_queues (sv_shared sv))" using inv(1) by (simp_all add: conns_inv_def)
  then have "waits_of sv k = {}" "map_ok (sh_queues (sv_shared sv))" using s by (auto simp: conn_inv_def)
  then show ?thesis
  proof (rule run_conn_wakes [OF _ s(1) _ f(1) _ _ run])
    show "served a (wanted a sv) (sh_queues (snd y))" if "f others (s\<lparr>hn_pending := P_none\<rparr>, sv_shared sv) = (Inr (), y)" for others y
      using f(2) [of "(s\<lparr>hn_pending := P_none\<rparr>, sv_shared sv)" others] that inv(2) by (auto simp: ends_served_def serves_def map_serves_def wakes_def)
  qed (use inv(2) in \<open>auto simp: wakes_def\<close>)
qed

lemma handle_accept_wakes:
  assumes inv: "conns_inv sv" "wakes a sv" and st: "handle_accept X e sv = (Inr (), sv')"
  shows "wakes a sv'"
proof (cases e)
  case (Some err)
  then have sv': "sv' = sv\<lparr>sv_accepting := False, sv_shared := log_accept_error X err (sv_shared sv)\<rparr>" using st by (simp add: handle_accept_def Let_def)
  then have "waits_of sv' = waits_of sv" by (intro waits_of_keeps) (simp add: log_accept_error_def)
  then have "wanted a sv' = wanted a sv" by (simp add: wanted_def sv')
  then show ?thesis using inv(2) unfolding wakes_def by (auto simp: sv' log_accept_error_def)
next
  case None
  let ?k = "sv_handler sv" and ?sv = "sv\<lparr>sv_accepting := False\<rparr>"
  obtain sv1 where run: "run_conn X (\<lambda>b. False) ?k (\<lambda>others. handler_start X ?k) ?sv = (Inr (), sv1)" and sv': "sv' = next_handler sv1"
    using st None by (auto simp: handle_accept_def Let_def split: prod.splits sum.splits)
  obtain s where s: "sv_conns sv ?k = Some s" using inv(1) by (cases "sv_conns sv ?k") (auto simp: conns_inv_def conn_inv_def dest!: spec [of _ ?k])
  have sv1: "sv_conns sv1 = (sv_conns sv)(?k \<mapsto> s\<lparr>hn_pending := P_read_until\<rparr>)" "sh_queues (sv_shared sv1) = sh_queues (sv_shared sv)" "sv_next sv1 = sv_next sv"
    using run s by (auto simp: run_conn_def handler_start_def handler_read_request_def update_stats_def Let_def)
  have ci: "conn_inv sv j" for j using inv(1) by (simp add: conns_inv_def)
  have free: "waits_of sv (sv_next sv) = {}" "waits_of sv ?k = {}"
    using ci [of "sv_next sv"] ci [of ?k] s by (auto simp: conn_inv_def split: option.splits if_splits)
  have w: "waits_of sv' = waits_of sv" by (rule waits_of_keeps) (simp add: sv' next_handler_def sv1)
  have "wanted a sv' \<subseteq> wanted a sv" by (rule wanted_subset) (use free w sv1 in \<open>auto simp: sv' next_handler_def\<close>)
  then show ?thesis using inv(2) served_subset by (auto simp: wakes_def sv' next_handler_def sv1 handler_ctor_def split: if_splits)
qed

text \<open>
  The completion of a waiter's timer. On another queue, or on one that was deleted, it is like any other method; on the queue itself the waiter leaves
  the list, and when there is an item for it, it takes one.
\<close>

lemma woken_waiter:
  assumes "waiter_wakeup it q = (Inr (cb, r), q1)" "qm_heap (sh_queues (sv_shared sv)) b = Some q"
  shows "(b, it) \<in> waits_of sv cb"
proof -
  obtain v where v: "find (\<lambda>w. w_node w = it) (waiters q) = Some v" "cb = w_cb v"
    using assms(1) by (auto simp: waiter_wakeup_def Let_def split: option.splits)
  then have "v \<in> set (waiters q)" "w_node v = it" by (auto simp: find_Some_iff)
  then show ?thesis using v(2) assms(2) by (force simp: waits_of_def map_waits_def who_def)
qed

lemma callback_serves:
  assumes s: "served a (wanted a sv) (sh_queues (sv_shared sv))" and q: "qm_heap (sh_queues (sv_shared sv)) b = Some q"
    and wk: "waiter_wakeup it q = (Inr (cb, r), q1)" and c: "sv_conns sv cb = Some t" "waiting_ok t"
    and le: "b = a \<Longrightarrow> key_id (queue_tail q) \<le> key_id (queue_head q)"
  shows "served a (wanted a sv) (sh_queues (snd (snd (handler_get_on_queue_return X others cb r (t\<lparr>hn_pending := P_none\<rparr>, set_queue b q1 (sv_shared sv))))))"
    (is "served a ?L (sh_queues (snd (snd (_ (?t, ?w)))))")
proof -
  have other: ?thesis if "served a ?L (sh_queues ?w)"
    using handler_get_on_queue_return_serves [of a "(?t, ?w)" X others cb r] that by (simp add: serves_def map_serves_def)
  have flag: "destroy_flag q1 = destroy_flag q" using wk by (auto simp: waiter_wakeup_def Let_def split: option.splits if_splits)
  show ?thesis
  proof (cases "b = a \<and> \<not> destroy_flag q")
    case False
    then have "served a ?L (sh_queues ?w)" using s flag by (auto simp: served_def set_queue_def)
    then show ?thesis by (rule other)
  next
    case True
    then have inv: "waiting_inv q" "\<forall>n \<in> ?L. map_find (qm_queues (sh_queues (sv_shared sv))) n = Some a" and le: "key_id (queue_tail q) \<le> key_id (queue_head q)"
      using s q le by (auto simp: served_def)
    have sq: "served a ?L (sh_queues (set_queue a p ?w))" if "waiting_inv p" for p using that s inv(2) by (auto simp: served_def set_queue_def)
    show ?thesis
    proof (cases r)
      case Wait_timed_out
      have "set_queue a q1 ?w = ?w" using True by (simp add: set_queue_def)
      then show ?thesis using other sq [OF timed_out_waiting [OF inv(1) le wk [unfolded Wait_timed_out]]] by simp
    next
      case Wait_ok
      obtain i q2 where p: "pop_begin q1 = (i, q2)" by (rule prod.exhaust)
      have "i \<noteq> None" using pop_begin_ready(4) [OF p] wakeup_ready(4) [OF inv(1) le wk] Wait_ok by simp
      then obtain j where j: "i = Some j" by blast
      have "r_queue (hn_req t) \<in> ?L" using woken_waiter [OF wk q] c(1) True by (auto simp: wanted_def)
      then have "map_find (qm_queues (sh_queues ?w)) (r_queue (hn_req ?t)) = Some a" using inv(2) by (simp add: set_queue_def)
      moreover have "waiting_ok ?t" "qm_heap (sh_queues ?w) a = Some q1" using c(2) True by (simp_all add: waiting_ok_def set_queue_def)
      ultimately show ?thesis
        using woken_get_pops [of ?t ?w a q1 j q2] p j sq [OF woken_pop_waiting [OF inv(1) le wk p]] Wait_ok
        by (simp add: handler_get_on_queue_return_def)
    qed
  qed
qed

lemma timer_completed_wakes:
  assumes inv: "conns_inv sv" "wakes a sv" and st: "timer_completed X b it sv = (Inr (), sv')"
    and le: "\<And>q. qm_heap (sh_queues (sv_shared sv)) a = Some q \<Longrightarrow> key_id (queue_tail q) \<le> key_id (queue_head q)"
  shows "wakes a sv'"
proof -
  obtain q where b: "qm_heap (sh_queues (sv_shared sv)) b = Some q" using st by (auto simp: timer_completed_def split: option.splits)
  obtain cb r q1 where wk: "waiter_wakeup it q = (Inr (cb, r), q1)" using st b by (cases "waiter_wakeup it q") (auto simp: timer_completed_def split: sum.splits)
  let ?sv = "sv\<lparr>sv_shared := set_queue b q1 (sv_shared sv)\<rparr>" and ?f = "\<lambda>others. handler_get_on_queue_return X others cb r"
  obtain r1 sv1 where run: "run_conn X (\<lambda>c. c = b) cb ?f ?sv = (r1, sv1)" by (rule prod.exhaust)
  have r1: "r1 = Inr ()" using st b wk run by (cases r1) (simp_all add: timer_completed_def)
  obtain r2 m where rel: "release_queue (x_fs X) (queue_owners sv1 (sv_next sv1)) b (sh_queues (sv_shared sv1)) = (r2, m)" by (rule prod.exhaust)
  have sv': "sv' = sv1\<lparr>sv_shared := (sv_shared sv1)\<lparr>sh_queues := m\<rparr>\<rparr>" using st b wk run r1 rel by (simp add: timer_completed_def)
  note taken = wakeup_takes_waiter [OF inv(1) b wk]
  obtain t where t: "sv_conns sv cb = Some t" "hn_pending t = P_wait" using taken(1) by blast
  have ok: "waiting_ok t" "served a (wanted a sv) (sh_queues (sv_shared sv))" using inv(2) t by (auto simp: wakes_def)
  have sub: "wanted a ?sv \<subseteq> wanted a sv"
  proof (rule wanted_subset)
    show "sv_conns ?sv k = sv_conns sv k \<and> waits_of ?sv k \<subseteq> waits_of sv k" for k using taken(2) taken(3) [of k] by (cases "k = cb") auto
  qed
  have cs: "served a (wanted a ?sv) (sh_queues (snd y))" if "?f others (t\<lparr>hn_pending := P_none\<rparr>, sv_shared ?sv) = (Inr (), y)" for others y
  proof -
    have "served a (wanted a sv) (sh_queues (snd (snd (?f others (t\<lparr>hn_pending := P_none\<rparr>, set_queue b q1 (sv_shared sv))))))"
      by (rule callback_serves [OF ok(2) b wk t(1) ok(1)]) (use b le in auto)
    then show ?thesis using served_subset [OF _ sub] that by simp
  qed
  have "wakes a sv1"
    by (rule run_conn_wakes [OF taken(2) _ taken(4) handler_get_on_queue_return_advances cs _ run [unfolded r1]])
      (use t(1) inv(2) in \<open>auto simp: wakes_def\<close>)
  moreover have "waits_of sv' = waits_of sv1"
  proof (rule waits_of_keeps)
    show "map_waits (sh_queues (sv_shared sv')) = map_waits (sh_queues (sv_shared sv1))"
      using rel by (auto simp: sv' release_queue_def map_waits_def who_def fun_eq_iff split: option.splits if_splits prod.splits)
  qed
  then have "wanted a sv' = wanted a sv1" by (simp add: wanted_def sv')
  ultimately show ?thesis using release_queue_serves [OF rel, of a] unfolding wakes_def by (auto simp: sv' map_serves_def)
qed

lemma server_step_wakes:
  assumes inv: "conns_inv sv" "wakes a sv" and c: "completes ev sv" and st: "server_step X ev sv = (Inr (), sv')"
    and le: "\<And>q. qm_heap (sh_queues (sv_shared sv)) a = Some q \<Longrightarrow> key_id (queue_tail q) \<le> key_id (queue_head q)"
  shows "wakes a sv'"
proof (cases ev)
  case (Accepted e)
  then show ?thesis using handle_accept_wakes [OF inv] st by simp
next
  case (Received k bytes e)
  then obtain s where s: "sv_conns sv k = Some s" "hn_pending s \<noteq> P_wait"
    using c by (cases "sv_conns sv k") (auto split: pending.splits)
  then show ?thesis using st Received by (intro idle_conn_wakes [OF inv s received_advances received_serves]) simp
next
  case (Written k e)
  then obtain s kont where s: "sv_conns sv k = Some s" "hn_pending s = P_write kont" using c by (cases "sv_conns sv k") (auto split: pending.splits)
  then show ?thesis using st Written by (intro idle_conn_wakes [OF inv s(1) _ written_advances written_serves]) simp_all
next
  case (Timer b it)
  then show ?thesis using timer_completed_wakes [OF inv _ le] st by simp
qed

text \<open>The numbers of the queue at an address have not wrapped around.\<close>

definition in_order_at :: "nat \<Rightarrow> ('fs, 'db) server \<Rightarrow> bool" where
  "in_order_at a sv \<longleftrightarrow> (case qm_heap (sh_queues (sv_shared sv)) a of None \<Rightarrow> True | Some q \<Rightarrow> key_id (queue_tail q) \<le> key_id (queue_head q))"

lemma server_runs_wakes:
  assumes "server_runs X (in_order_at a) sv0 evs sv" "conns_inv sv0" "wakes a sv0"
  shows "conns_inv sv \<and> wakes a sv"
  using assms
proof (induction rule: server_runs.induct)
  case (step evs sv ev now stamp sv')
  then have inv: "conns_inv sv" "wakes a sv" by simp_all
  have "wakes a sv'" by (rule server_step_wakes [OF inv step.hyps(3,4)]) (use step.hyps(2) in \<open>simp add: in_order_at_def\<close>)
  then show ?case using server_step_inv [OF inv(1) step.hyps(3,4)] by simp
qed simp

lemma server_ctor_wakes:
  assumes "server_ctor X listen fs d p ls err = Inr sv"
  shows "wakes a sv"
proof -
  obtain m where m: "queue_map_ctor (x_ldb X) (x_fs X) fs d = (Inr (), m)"
    and sv: "sv = next_handler \<lparr>sv_listen_port = p, sv_shared = \<lparr>sh_queues = m, sh_stats = stats_ctor (x_now X), sh_logs = ls, sh_cerr = err\<rparr>,
         sv_conns = Map.empty, sv_next = 0, sv_handler = 0, sv_accepting = False, sv_stopped = False\<rparr>"
    using assms by (auto simp: server_ctor_def split: prod.splits sum.splits option.splits)
  have as: "served a {} m1 \<Longrightarrow> assign_queue (x_ldb X) (x_fs X) n m1 = (r, m2) \<Longrightarrow> served a {} m2" for n m1 m2 r
    by (auto simp: assign_queue_def make_queue_def Let_def served_def map_sorted_insert split: prod.splits sum.splits if_splits dest!: queue_ctor_waiting)
  have load: "load_queues (x_ldb X) (x_fs X) ns m1 = (r, m2) \<Longrightarrow> served a {} m1 \<Longrightarrow> served a {} m2" for ns m1 m2 r
    by (induction ns arbitrary: m1) (auto split: prod.splits sum.splits dest: as)
  let ?m = "\<lparr>qm_fs = fs, qm_heap = Map.empty, qm_next = 0, qm_queues = [], qm_data_path = d\<rparr>"
  obtain ns where "load_queues (x_ldb X) (x_fs X) ns ?m = (Inr (), m)" using m by (auto simp: queue_map_ctor_def Let_def split: option.splits)
  moreover have "served a {} ?m" by (simp add: served_def map_sorted_def)
  ultimately have "served a {} m" by (rule load)
  moreover have "wanted a sv = {}"
    using server_ctor_inv [OF assms] by (auto simp: wanted_def conns_inv_def conn_inv_def sv next_handler_def handler_ctor_def split: if_splits dest!: spec [of _ 0])
  ultimately show ?thesis by (auto simp: wakes_def sv next_handler_def handler_ctor_def split: if_splits)
qed

text \<open>
  C8: no wakeup is lost. In every run of the server from its constructor, whatever its clients do and whichever journal writes fail, a queue that has not been
  deleted or flushed has at least as many notified waiters as ready items as long as some waiter still sleeps, and each of its waiters is the callback of a connection
  whose request names this queue, so that it looks for an item here when it is called back; if no callback is due, a sleeping waiter means an empty queue. The run
  goes on without an exception and the queue's numbers do not wrap around. (Of a flushed queue this is not true: a waiter that is called back looks its name up again and finds the new queue.)
\<close>

theorem no_lost_wakeup:
  assumes "server_ctor X listen fs d p ls err = Inr sv0" "server_runs X (in_order_at a) sv0 evs sv"
    and "qm_heap (sh_queues (sv_shared sv)) a = Some q" "\<not> destroy_flag q"
  shows "(sleeping q \<noteq> [] \<longrightarrow> length (ready_ids q) \<le> length (notified q)) \<and>
    (\<forall>v \<in> set (waiters q). \<exists>s. sv_conns sv (w_cb v) = Some s \<and> hn_pending s = P_wait \<and>
       map_find (qm_queues (sh_queues (sv_shared sv))) (r_queue (hn_req s)) = Some a)"
proof -
  have inv: "conns_inv sv" "wakes a sv" using server_runs_wakes [OF assms(2) server_ctor_inv [OF assms(1)] server_ctor_wakes [OF assms(1)]] by simp_all
  then have sq: "waiting_inv q" "\<forall>n \<in> wanted a sv. map_find (qm_queues (sh_queues (sv_shared sv))) n = Some a"
    using assms(3,4) by (auto simp: wakes_def served_def)
  have "\<exists>s. sv_conns sv (w_cb v) = Some s \<and> hn_pending s = P_wait \<and> map_find (qm_queues (sh_queues (sv_shared sv))) (r_queue (hn_req s)) = Some a"
    if "v \<in> set (waiters q)" for v
  proof -
    have w: "(a, w_node v) \<in> waits_of sv (w_cb v)" using that assms(3) by (auto simp: waits_of_def map_waits_def who_def)
    moreover have "conn_inv sv (w_cb v)" using inv(1) by (simp add: conns_inv_def)
    ultimately obtain s where s: "sv_conns sv (w_cb v) = Some s" "hn_pending s = P_wait" by (auto simp: conn_inv_def split: option.splits if_splits)
    then have "r_queue (hn_req s) \<in> wanted a sv" using w by (auto simp: wanted_def)
    then show ?thesis using s sq(2) by blast
  qed
  then show ?thesis using sq(1) by (simp add: waiting_inv_def)
qed

text \<open>Two clients wait, a third one sets an item: the first of the two is notified, the second sleeps on.\<close>

definition two_wait :: "completion list" where
  "two_wait = [Accepted None, Accepted None, Accepted None, Received 0 (''get q/t=50'' @ crlf) None, Received 1 (''get q/t=70'' @ crlf) None,
     Received 2 (''set q 0 0 1'' @ crlf @ ''x'' @ crlf) None, Received 2 [] None]"

theorem no_lost_wakeup_witness:
  "\<exists>sv0 sv q. server_ctor demo_externs (\<lambda>p. None) [(''data/q'', mem_empty [])] ''data'' 22133 logs_start [] = Inr sv0 \<and>
     server_runs demo_externs (in_order_at 0) sv0 two_wait sv \<and> qm_heap (sh_queues (sv_shared sv)) 0 = Some q \<and> \<not> destroy_flag q \<and>
     length (sleeping q) = 1 \<and> ready_ids q = [0] \<and> length (ready_ids q) \<le> length (notified q)"
proof -
  let ?c = "server_ctor demo_externs (\<lambda>p. None) [(''data/q'', mem_empty [])] ''data'' 22133 logs_start []"
  let ?g = "map_option (\<lambda>q. (destroy_flag q, length (sleeping q), ready_ids q))"
  have "(case ?c of Inl e \<Rightarrow> None | Inr sv \<Rightarrow> map_option (\<lambda>sv. ?g (qm_heap (sh_queues (sv_shared sv)) 0)) (serve demo_externs (in_order_at 0) two_wait sv)) =
      Some (Some (False, 1, [0]))"
    by code_simp
  then obtain sv0 sv q where c: "?c = Inr sv0" and sv: "serve demo_externs (in_order_at 0) two_wait sv0 = Some sv"
    and q: "qm_heap (sh_queues (sv_shared sv)) 0 = Some q" "\<not> destroy_flag q" "length (sleeping q) = 1" "ready_ids q = [0]"
    by (auto split: sum.splits)
  have "server_runs demo_externs (in_order_at 0) sv0 ([] @ two_wait) sv" by (rule serve_runs_from [OF demo_time server_runs.start sv])
  then have r: "server_runs demo_externs (in_order_at 0) sv0 two_wait sv" by simp
  have "sleeping q \<noteq> []" using q(3) by auto
  then have "length (ready_ids q) \<le> length (notified q)" using no_lost_wakeup [OF c r q(1,2)] by blast
  then show ?thesis using c r q by blast
qed

end
