(* ===== verification/Bench.thy ===== *)
theory Bench
  imports Program
begin

text \<open>
  The benchmark \<^verbatim>\<open>bench/db.cpp\<close>: sessions that send get and set requests to a server and time the answers. Like the handlers of the server, a session is a
  chain of asynchronous operations, and the operation it waits for is part of its state; sessions and the results they share are one
  record. A session that waits for nothing is owned by nobody and gone.
\<close>

section \<open>What the benchmark takes from outside\<close>

text \<open>
  The arithmetic of \<^verbatim>\<open>float\<close>, the numbers of \<^verbatim>\<open>rand()\<close>, the connection to the server (what \<^verbatim>\<open>socket_.connect\<close> throws), the texts of error codes, and the
  conversion of a duration in microseconds to seconds as a \<^verbatim>\<open>float\<close>.
\<close>

record 'f floats =
  fl_of_size :: "u64 \<Rightarrow> 'f"
  fl_add :: "'f \<Rightarrow> 'f \<Rightarrow> 'f"
  fl_div :: "'f \<Rightarrow> 'f \<Rightarrow> 'f"
  fl_greater :: "'f \<Rightarrow> 'f \<Rightarrow> bool"
  fl_show :: "'f \<Rightarrow> string"

record 'f bench_externs =
  bx_float :: "'f floats"
  bx_rand :: "nat \<Rightarrow> nat"
  bx_connect :: "string \<Rightarrow> port \<Rightarrow> error option"
  bx_message :: "net_error \<Rightarrow> string"
  bx_elapsed :: "int \<Rightarrow> 'f"

section \<open>Results\<close>

record 'f results =
  rs_set_request :: string
  rs_get_request :: string
  rs_times :: "32 word list"
  rs_bytes_in :: u64
  rs_bytes_out :: u64
  rs_get_set_ratio :: 'f
  rs_item_size :: u64
  rs_gets_remaining :: u64
  rs_sets_remaining :: u64

definition item_chars :: string where
  "item_chars = ''abcdefghijklmnopqrstuvwxyzABCDEFGHIJKLMNOPQRSTUVWXYZ1234567890!@#$^&*()''"

primrec random_item :: "(nat \<Rightarrow> nat) \<Rightarrow> nat \<Rightarrow> nat \<Rightarrow> string" where
  "random_item rand i 0 = []"
| "random_item rand i (Suc n) = item_chars ! (rand i mod length item_chars) # random_item rand (Suc i) n"

text \<open>The constructor counts its member \<^verbatim>\<open>item_size\<close> down to zero.\<close>

definition results_ctor :: "'f bench_externs \<Rightarrow> u64 \<Rightarrow> u64 \<Rightarrow> u64 \<Rightarrow> 'f results" where
  "results_ctor X item_size gets sets =
     \<lparr>rs_set_request = ''set db_bench 0 0 '' @ decimal (unat item_size) @ crlf @ random_item (bx_rand X) 0 (unat item_size) @ crlf,
      rs_get_request = ''get db_bench'' @ crlf, rs_times = [], rs_bytes_in = 0, rs_bytes_out = 0,
      rs_get_set_ratio = fl_div (bx_float X) (fl_of_size (bx_float X) gets) (fl_of_size (bx_float X) sets),
      rs_item_size = 0, rs_gets_remaining = gets, rs_sets_remaining = sets\<rparr>"

section \<open>Sessions\<close>

text \<open>
  The operation a session waits for, named after the method it calls back: \<open>O_post\<close> is \<^verbatim>\<open>ios_.post\<close> of \<^verbatim>\<open>do_get_or_set\<close>; writes carry the number of bytes they were
  given, reads the number of bytes they need at least.
\<close>

datatype operation = O_none | O_post | O_get_write u64 | O_get_header | O_get_value u64 | O_set_write u64 | O_set_response u64

record session =
  ss_in :: string
  ss_begin :: int
  ss_host :: string
  ss_port :: u64
  ss_bad_client_rate :: u64
  ss_action :: u64
  ss_pending :: operation
  ss_sent :: string

record 'f bench =
  bn_results :: "'f results"
  bn_sessions :: "session list"
  bn_cerr :: string

type_synonym 'f client = "session \<times> 'f bench"

text \<open>The port goes from \<^verbatim>\<open>size_t\<close> to \<^verbatim>\<open>unsigned short\<close>.\<close>

definition session_ctor :: "'f bench_externs \<Rightarrow> string \<Rightarrow> u64 \<Rightarrow> u64 \<Rightarrow> u64 \<Rightarrow> error + session" where
  "session_ctor X host p bad_client_rate action = (case bx_connect X host (ucast p) of
     Some e \<Rightarrow> Inl e
   | None \<Rightarrow> Inr \<lparr>ss_in = [], ss_begin = 0, ss_host = host, ss_port = p, ss_bad_client_rate = bad_client_rate, ss_action = action,
       ss_pending = O_none, ss_sent = []\<rparr>)"

definition session_start :: "session \<Rightarrow> session" where
  "session_start s = s\<lparr>ss_pending := O_post\<rparr>"

definition add_session :: "session \<Rightarrow> 'f bench \<Rightarrow> 'f bench" where
  "add_session s b = b\<lparr>bn_sessions := bn_sessions b @ [s]\<rparr>"

text \<open>\<^verbatim>\<open>session::ptr_type(new session(...))->start()\<close>, with which a bad client hangs up and connects again.\<close>

definition reconnect :: "'f bench_externs \<Rightarrow> 'f client \<Rightarrow> ('f client, unit) outcome" where
  "reconnect X = (\<lambda>(s, b). case session_ctor X (ss_host s) (ss_port s) (ss_bad_client_rate s) (ss_action s) of
     Inl e \<Rightarrow> (Inl e, (s, b))
   | Inr s1 \<Rightarrow> (Inr (), (s, add_session (session_start s1) b)))"

definition session_fail :: "string \<Rightarrow> string \<Rightarrow> 'f client \<Rightarrow> ('f client, unit) outcome" where
  "session_fail method_name msg = (\<lambda>(s, b). (Inr (), (s, b\<lparr>bn_cerr := bn_cerr b @ ''[ERROR] '' @ method_name @ '': '' @ msg @ nl\<rparr>)))"

text \<open>\<^verbatim>\<open>bad_client_rate_ && !(action_++ % bad_client_rate_)\<close>.\<close>

definition bad_client :: "session \<Rightarrow> bool \<times> session" where
  "bad_client s = (if ss_bad_client_rate s = 0 then (False, s)
     else (ss_action s mod ss_bad_client_rate s = 0, s\<lparr>ss_action := ss_action s + 1\<rparr>))"

text \<open>The bytes that \<^verbatim>\<open>do_get\<close> and \<^verbatim>\<open>do_set\<close> hand to \<^verbatim>\<open>async_write\<close>.\<close>

definition send_request :: "int \<Rightarrow> string \<Rightarrow> (u64 \<Rightarrow> operation) \<Rightarrow> session \<Rightarrow> session" where
  "send_request now req op s = (case bad_client (s\<lparr>ss_begin := now\<rparr>) of
     (bad, s1) \<Rightarrow> let buf_len = (if bad then length req div 2 else length req)
       in s1\<lparr>ss_sent := ss_sent s1 @ take buf_len req, ss_pending := op (word_of_nat buf_len)\<rparr>)"

definition do_get :: "int \<Rightarrow> 'f client \<Rightarrow> ('f client, unit) outcome" where
  "do_get now = (\<lambda>(s, b). let r = bn_results b in
     (Inr (), (send_request now (rs_get_request r) O_get_write s,
       b\<lparr>bn_results := r\<lparr>rs_gets_remaining := rs_gets_remaining r - 1\<rparr>\<rparr>)))"

definition do_set :: "int \<Rightarrow> 'f client \<Rightarrow> ('f client, unit) outcome" where
  "do_set now = (\<lambda>(s, b). let r = bn_results b in
     (Inr (), (send_request now (rs_set_request r) O_set_write s,
       b\<lparr>bn_results := r\<lparr>rs_sets_remaining := rs_sets_remaining r - 1\<rparr>\<rparr>)))"

definition do_get_or_set :: "'f bench_externs \<Rightarrow> int \<Rightarrow> 'f client \<Rightarrow> ('f client, unit) outcome" where
  "do_get_or_set X now c =
     (let r = bn_results (snd c); F = bx_float X in
      if rs_gets_remaining r \<noteq> 0 then
        if rs_sets_remaining r = 0 then do_get now c
        else if fl_greater F (fl_div F (fl_of_size F (rs_gets_remaining r)) (fl_of_size F (rs_sets_remaining r))) (rs_get_set_ratio r)
        then do_get now c
        else do_set now c
      else if rs_sets_remaining r \<noteq> 0 then do_set now c
      else (Inr (), c))"

definition count_bytes_out :: "u64 \<Rightarrow> 'f bench \<Rightarrow> 'f bench" where
  "count_bytes_out n b = b\<lparr>bn_results := (bn_results b)\<lparr>rs_bytes_out := rs_bytes_out (bn_results b) + n\<rparr>\<rparr>"

definition count_bytes_in :: "u64 \<Rightarrow> 'f bench \<Rightarrow> 'f bench" where
  "count_bytes_in n b = b\<lparr>bn_results := (bn_results b)\<lparr>rs_bytes_in := rs_bytes_in (bn_results b) + n\<rparr>\<rparr>"

text \<open>\<^verbatim>\<open>results_.times.push_back(...)\<close>: the number of microseconds becomes an \<^verbatim>\<open>unsigned int\<close>.\<close>

definition push_time :: "int \<Rightarrow> session \<Rightarrow> 'f bench \<Rightarrow> 'f bench" where
  "push_time now s b = b\<lparr>bn_results := (bn_results b)\<lparr>rs_times := rs_times (bn_results b) @ [word_of_int (now - ss_begin s)]\<rparr>\<rparr>"

definition still_needed :: "u64 \<Rightarrow> string \<Rightarrow> u64" where
  "still_needed required inp = (if required > word_of_nat (length inp) then required - word_of_nat (length inp) else 0)"

definition get_on_write :: "'f bench_externs \<Rightarrow> net_error option \<Rightarrow> u64 \<Rightarrow> 'f client \<Rightarrow> ('f client, unit) outcome" where
  "get_on_write X e bytes_transferred = (case e of
     Some err \<Rightarrow> session_fail ''get_on_write'' (bx_message X err)
   | None \<Rightarrow> (\<lambda>(s, b). let b1 = count_bytes_out bytes_transferred b in
       if bytes_transferred < word_of_nat (length (rs_get_request (bn_results b1))) then reconnect X (s, b1)
       else (Inr (), (s\<lparr>ss_pending := O_get_header\<rparr>, b1))))"

text \<open>
  \<^verbatim>\<open>header.rfind(' ')\<close>, and \<^verbatim>\<open>atoi\<close> of what follows: spaces, a sign and digits, up to the first other character. A number that is no
  \<^verbatim>\<open>int\<close>, and the sum with 7 that is none, are undefined.
\<close>

fun after_last_space :: "string \<Rightarrow> string option" where
  "after_last_space [] = None"
| "after_last_space (c # cs) = (case after_last_space cs of
     Some t \<Rightarrow> Some t
   | None \<Rightarrow> if c = CHR '' '' then Some cs else None)"

definition is_blank :: "char \<Rightarrow> bool" where
  "is_blank c \<longleftrightarrow> c \<in> {CHR '' '', CHR 0x09, CHR 0x0A, CHR 0x0B, CHR 0x0C, CHR 0x0D}"

definition is_int :: "int \<Rightarrow> bool" where
  "is_int n \<longleftrightarrow> - (2 ^ 31) \<le> n \<and> n < 2 ^ 31"

definition atoi :: "string \<Rightarrow> int option" where
  "atoi text =
     (let t = dropWhile is_blank text;
          negative = (t \<noteq> [] \<and> hd t = CHR ''-'');
          digits = takeWhile is_digit (if t \<noteq> [] \<and> hd t \<in> {CHR ''-'', CHR ''+''} then tl t else t);
          n = (if negative then - int (digits_value digits) else int (digits_value digits))
      in if is_int n then Some n else None)"

definition get_on_header :: "'f bench_externs \<Rightarrow> int \<Rightarrow> net_error option \<Rightarrow> nat \<Rightarrow> 'f client \<Rightarrow> ('f client, unit) outcome" where
  "get_on_header X now e bytes_transferred = (case e of
     Some err \<Rightarrow> session_fail ''get_on_header'' (bx_message X err)
   | None \<Rightarrow> (\<lambda>(s, b). case bad_client s of
       (True, s1) \<Rightarrow> reconnect X (s1, b)
     | (False, s1) \<Rightarrow>
         let b1 = count_bytes_in (word_of_nat bytes_transferred) b;
             header = take bytes_transferred (ss_in s1);
             s2 = s1\<lparr>ss_in := drop bytes_transferred (ss_in s1)\<rparr>
         in if header = ''END'' @ crlf then do_get_or_set X now (s2, push_time now s2 b1)
            else case after_last_space header of
              None \<Rightarrow> session_fail ''get_on_header'' ''bad header'' (s2, b1)
            | Some text \<Rightarrow> (case atoi text of
                None \<Rightarrow> (Inl Undefined, (s2, b1))
              | Some n \<Rightarrow> if \<not> is_int (n + 7) then (Inl Undefined, (s2, b1))
                  else (Inr (), (s2\<lparr>ss_pending := O_get_value (still_needed (word_of_int (n + 7)) (ss_in s2))\<rparr>, b1)))))"

definition get_on_value :: "'f bench_externs \<Rightarrow> int \<Rightarrow> net_error option \<Rightarrow> 'f client \<Rightarrow> ('f client, unit) outcome" where
  "get_on_value X now e = (case e of
     Some err \<Rightarrow> session_fail ''get_on_value'' (bx_message X err)
   | None \<Rightarrow> (\<lambda>(s, b). do_get_or_set X now
       (s\<lparr>ss_in := []\<rparr>, count_bytes_in (word_of_nat (length (ss_in s))) (push_time now s b))))"

definition set_on_write :: "'f bench_externs \<Rightarrow> net_error option \<Rightarrow> u64 \<Rightarrow> 'f client \<Rightarrow> ('f client, unit) outcome" where
  "set_on_write X e bytes_transferred = (case e of
     Some err \<Rightarrow> session_fail ''set_on_write'' (bx_message X err)
   | None \<Rightarrow> (\<lambda>(s, b). let b1 = count_bytes_out bytes_transferred b in
       if bytes_transferred < word_of_nat (length (rs_set_request (bn_results b1))) then reconnect X (s, b1)
       else (Inr (), (s\<lparr>ss_pending := O_set_response (still_needed 8 (ss_in s))\<rparr>, b1))))"

definition set_on_response :: "'f bench_externs \<Rightarrow> int \<Rightarrow> net_error option \<Rightarrow> nat \<Rightarrow> 'f client \<Rightarrow> ('f client, unit) outcome" where
  "set_on_response X now e bytes_transferred = (case e of
     Some err \<Rightarrow> session_fail ''set_on_response'' (bx_message X err)
   | None \<Rightarrow> (\<lambda>(s, b). do_get_or_set X now
       (s\<lparr>ss_in := drop bytes_transferred (ss_in s)\<rparr>, count_bytes_in (word_of_nat bytes_transferred) (push_time now s b))))"

section \<open>The event loop\<close>

text \<open>
  The completions: a posted call, a write, and a read that has added bytes to the input buffer. \<open>now\<close> is the clock when the call runs.
\<close>

datatype bench_event = Posted nat | Wrote nat "net_error option" | Got nat string "net_error option"

definition run_session :: "nat \<Rightarrow> ('f client \<Rightarrow> ('f client, unit) outcome) \<Rightarrow> 'f bench \<Rightarrow> ('f bench, unit) outcome" where
  "run_session k f b = (if k < length (bn_sessions b) then
     (case f ((bn_sessions b ! k)\<lparr>ss_pending := O_none\<rparr>, b) of
        (r, (s1, b1)) \<Rightarrow> (r, b1\<lparr>bn_sessions := (bn_sessions b1)[k := s1]\<rparr>))
   else (Inl Undefined, b))"

definition session_wrote :: "'f bench_externs \<Rightarrow> operation \<Rightarrow> net_error option \<Rightarrow> 'f client \<Rightarrow> ('f client, unit) outcome" where
  "session_wrote X op e c = (case op of
     O_get_write n \<Rightarrow> get_on_write X e n c
   | O_set_write n \<Rightarrow> set_on_write X e n c
   | _ \<Rightarrow> (Inl Undefined, c))"

definition session_got :: "'f bench_externs \<Rightarrow> int \<Rightarrow> operation \<Rightarrow> string \<Rightarrow> net_error option \<Rightarrow> 'f client \<Rightarrow> ('f client, unit) outcome" where
  "session_got X now op bytes e = (\<lambda>(s, b). let s1 = s\<lparr>ss_in := ss_in s @ bytes\<rparr> in case op of
     O_get_header \<Rightarrow> get_on_header X now e (line_end (ss_in s1)) (s1, b)
   | O_get_value n \<Rightarrow> get_on_value X now e (s1, b)
   | O_set_response n \<Rightarrow> set_on_response X now e (length bytes) (s1, b)
   | _ \<Rightarrow> (Inl Undefined, (s, b)))"

fun bench_step :: "'f bench_externs \<Rightarrow> int \<Rightarrow> bench_event \<Rightarrow> 'f bench \<Rightarrow> ('f bench, unit) outcome" where
  "bench_step X now (Posted k) b = run_session k (do_get_or_set X now) b"
| "bench_step X now (Wrote k e) b = run_session k (session_wrote X (ss_pending (bn_sessions b ! k)) e) b"
| "bench_step X now (Got k bytes e) b = run_session k (session_got X now (ss_pending (bn_sessions b ! k)) bytes e) b"

text \<open>Which completions Asio may deliver.\<close>

fun bench_completes :: "bench_event \<Rightarrow> 'f bench \<Rightarrow> bool" where
  "bench_completes (Posted k) b \<longleftrightarrow> k < length (bn_sessions b) \<and> ss_pending (bn_sessions b ! k) = O_post"
| "bench_completes (Wrote k e) b \<longleftrightarrow> k < length (bn_sessions b) \<and>
     (case ss_pending (bn_sessions b ! k) of O_get_write n \<Rightarrow> True | O_set_write n \<Rightarrow> True | _ \<Rightarrow> False)"
| "bench_completes (Got k bytes e) b \<longleftrightarrow> k < length (bn_sessions b) \<and>
     (case ss_pending (bn_sessions b ! k) of
        O_get_header \<Rightarrow> e = None \<longrightarrow> CHR 0x0A \<in> set (ss_in (bn_sessions b ! k) @ bytes)
      | O_get_value n \<Rightarrow> e = None \<longrightarrow> unat n \<le> length bytes
      | O_set_response n \<Rightarrow> e = None \<longrightarrow> unat n \<le> length bytes
      | _ \<Rightarrow> False)"

text \<open>Runs of \<^verbatim>\<open>ios.run()\<close>: it returns when no operation is left; an exception ends the program.\<close>

inductive bench_runs :: "'f bench_externs \<Rightarrow> 'f bench \<Rightarrow> bench_event list \<Rightarrow> 'f bench \<Rightarrow> bool"
  for X :: "'f bench_externs" and b0 :: "'f bench" where
  start: "bench_runs X b0 [] b0"
| step: "bench_runs X b0 evs b \<Longrightarrow> bench_completes ev b \<Longrightarrow> bench_step X now ev b = (Inr (), b') \<Longrightarrow> bench_runs X b0 (evs @ [ev]) b'"

definition bench_idle :: "'f bench \<Rightarrow> bool" where
  "bench_idle b \<longleftrightarrow> list_all (\<lambda>s. ss_pending s = O_none) (bn_sessions b)"

section \<open>The main program\<close>

text \<open>\<open>bo_parse\<close> is the parser, \<^verbatim>\<open>po::store\<close> and \<^verbatim>\<open>notify\<close>, with what an exception says.\<close>

record bench_variables =
  bv_host :: string
  bv_port :: u64
  bv_num_gets :: u64
  bv_num_sets :: u64
  bv_item_size :: u64
  bv_workers :: u64
  bv_bad_client_rate :: u64

record 'vm bench_options =
  bo_parse :: "string list \<Rightarrow> string + 'vm \<times> bench_variables"
  bo_count :: "'vm \<Rightarrow> string \<Rightarrow> nat"
  bo_help :: string

primrec start_workers :: "'f bench_externs \<Rightarrow> bench_variables \<Rightarrow> nat \<Rightarrow> 'f bench \<Rightarrow> ('f bench, unit) outcome" where
  "start_workers X v 0 b = (Inr (), b)"
| "start_workers X v (Suc n) b = (case session_ctor X (bv_host v) (bv_port v) (bv_bad_client_rate v) 0 of
     Inl e \<Rightarrow> (Inl e, b)
   | Inr s \<Rightarrow> start_workers X v n (add_session (session_start s) b))"

definition bench_start :: "'f bench_externs \<Rightarrow> 'vm bench_options \<Rightarrow> string \<Rightarrow> string list \<Rightarrow> finish + bench_variables \<times> 'f bench" where
  "bench_start X P version argv = (case bo_parse P argv of
     Inl what \<Rightarrow> Inl (Exit 1 (''error parsing commandline options: '' @ what @ nl @ bo_help P @ nl) [])
   | Inr (vm, v) \<Rightarrow>
       if bo_count P vm ''help'' \<noteq> 0
       then Inl (Exit 0 (''db: darner bench.  performs benchmarks of concurrent gets and sets of a darner server.'' @ nl @
              ''usage: db -p <port>'' @ nl @ bo_help P @ nl) [])
       else if bo_count P vm ''version'' \<noteq> 0 then Inl (Exit 0 (version @ nl) [])
       else if bo_count P vm ''port'' = 0
       then Inl (Exit 1 (''please specify a port (-p)'' @ nl @ ''db --help for help'' @ nl) [])
       else (case start_workers X v (unat (bv_workers v))
               \<lparr>bn_results = results_ctor X (bv_item_size v) (bv_num_gets v) (bv_num_sets v), bn_sessions = [], bn_cerr = []\<rparr> of
               (Inl e, b) \<Rightarrow> Inl (Terminate [] [])
             | (Inr _, b) \<Rightarrow> Inr (v, b)))"

text \<open>The report. \<^verbatim>\<open>r.times[i]\<close> outside of the vector is undefined.\<close>

definition report_line :: "string \<Rightarrow> string \<Rightarrow> string" where
  "report_line title text = title @ replicate (24 - length title) CHR '' '' @ text @ nl"

definition percentile :: "32 word list \<Rightarrow> u64 \<Rightarrow> error + 32 word" where
  "percentile ts p = (let i = unat (word_of_nat (length ts) * p div 100) in
     if i < length ts then Inr (ts ! i) else Inl Undefined)"

fun percentile_lines :: "32 word list \<Rightarrow> u64 list \<Rightarrow> error + string" where
  "percentile_lines ts [] = Inr []"
| "percentile_lines ts (p # ps) = (case percentile ts p of
     Inl e \<Rightarrow> Inl e
   | Inr t \<Rightarrow> (case percentile_lines ts ps of
       Inl e \<Rightarrow> Inl e
     | Inr text \<Rightarrow> Inr (''  '' @ decimal (unat p) @ ''%:    '' @ decimal (unat t) @ nl @ text)))"

definition percentages :: "u64 list" where
  "percentages = [50, 66, 75, 80, 90, 95, 98, 99]"

definition bench_report :: "'f bench_externs \<Rightarrow> bench_variables \<Rightarrow> int \<Rightarrow> 'f results \<Rightarrow> error + string" where
  "bench_report X v duration r =
     (let F = bx_float X; elapsed = bx_elapsed X duration; ts = sort (rs_times r); size = fl_of_size F;
          rate = (\<lambda>n. fl_show F (fl_div F (fl_div F (size n) elapsed) (size 1024)));
          summary = report_line ''Concurrency Level:'' (decimal (unat (bv_workers v))) @
            report_line ''Gets:'' (decimal (unat (bv_num_gets v))) @
            report_line ''Sets:'' (decimal (unat (bv_num_sets v))) @
            report_line ''Time taken for tests:'' (fl_show F elapsed @ '' seconds'') @
            report_line ''Bytes read:'' (decimal (unat (rs_bytes_in r)) @ '' bytes'') @
            report_line ''Read rate:'' (rate (rs_bytes_in r) @ '' Kbytes/sec'') @
            report_line ''Bytes written:'' (decimal (unat (rs_bytes_out r)) @ '' bytes'') @
            report_line ''Write rate:'' (rate (rs_bytes_out r) @ '' Kbytes/sec'')
      in if ts = [] then Inr summary
         else
           let avg = fl_div F (foldl (\<lambda>a t. fl_add F a (size (ucast t))) (size 0) ts) (size (word_of_nat (length ts)))
           in case percentile_lines ts percentages of
                Inl e \<Rightarrow> Inl e
              | Inr text \<Rightarrow> Inr (summary @
                  report_line ''Requests per second:'' (fl_show F (fl_div F (size (bv_num_gets v + bv_num_sets v)) elapsed) @ '' #/sec (mean)'') @
                  report_line ''Time per request:'' (fl_show F avg @ '' us (mean)'') @ nl @
                  ''Percentage of the requests served within a certain time (us)'' @ nl @ text @
                  '' 100%:    '' @ decimal (unat (last ts)) @ '' (longest request)'' @ nl))"

end
