(* ===== verification/Bench_Theorems.thy ===== *)
theory Bench_Theorems
  imports Bench
begin

text \<open>
  What the benchmark promises: it ends, it never sends more requests than it was told to, every request that is neither broken on purpose nor failed is timed, and its
  report stays within the vector of times.
\<close>

section \<open>Measures\<close>

text \<open>How many completions a session may still see for the request it is at, whether a request is under way, and how many are left to send.\<close>

fun op_steps :: "operation \<Rightarrow> nat" where
  "op_steps O_none = 0"
| "op_steps O_post = 1"
| "op_steps (O_get_write n) = 3"
| "op_steps O_get_header = 2"
| "op_steps (O_get_value n) = 1"
| "op_steps (O_set_write n) = 2"
| "op_steps (O_set_response n) = 1"

fun op_flying :: "operation \<Rightarrow> nat" where
  "op_flying O_none = 0"
| "op_flying O_post = 0"
| "op_flying _ = 1"

definition steps_of :: "session list \<Rightarrow> nat" where
  "steps_of ss = sum_list (map (\<lambda>s. op_steps (ss_pending s)) ss)"

definition flying :: "session list \<Rightarrow> nat" where
  "flying ss = sum_list (map (\<lambda>s. op_flying (ss_pending s)) ss)"

definition unsent :: "'f bench \<Rightarrow> nat" where
  "unsent b = unat (rs_gets_remaining (bn_results b)) + unat (rs_sets_remaining (bn_results b))"

definition timed :: "'f bench \<Rightarrow> nat" where
  "timed b = length (rs_times (bn_results b))"

lemma measure_simps [simp]:
  "steps_of [] = 0" "flying [] = 0" "steps_of (s # ss) = op_steps (ss_pending s) + steps_of ss" "flying (s # ss) = op_flying (ss_pending s) + flying ss"
  "steps_of (ss @ ss') = steps_of ss + steps_of ss'" "flying (ss @ ss') = flying ss + flying ss'"
  by (simp_all add: steps_of_def flying_def)

lemma steps_of_update: "k < length ss \<Longrightarrow> steps_of (ss[k := s]) + op_steps (ss_pending (ss ! k)) = steps_of ss + op_steps (ss_pending s)"
  by (induction ss arbitrary: k) (auto split: nat.splits)

lemma flying_update: "k < length ss \<Longrightarrow> flying (ss[k := s]) + op_flying (ss_pending (ss ! k)) = flying ss + op_flying (ss_pending s)"
  by (induction ss arbitrary: k) (auto split: nat.splits)

text \<open>A write of a client that is not a bad one is a whole request.\<close>

definition write_whole :: "'f results \<Rightarrow> session \<Rightarrow> bool" where
  "write_whole r s \<longleftrightarrow> (ss_bad_client_rate s = 0 \<longrightarrow> (case ss_pending s of
     O_get_write n \<Rightarrow> n = word_of_nat (length (rs_get_request r))
   | O_set_write n \<Rightarrow> n = word_of_nat (length (rs_set_request r))
   | _ \<Rightarrow> True))"

section \<open>One call of a session\<close>

text \<open>
  \<open>turn m n\<close>: a method that was called back for an operation that allows \<open>m\<close> more completions, with \<open>n\<close> requests under way.
\<close>

definition same_requests :: "'f bench \<Rightarrow> 'f bench \<Rightarrow> bool" where
  "same_requests b b' \<longleftrightarrow> rs_get_request (bn_results b') = rs_get_request (bn_results b) \<and> rs_set_request (bn_results b') = rs_set_request (bn_results b)"

definition turn :: "nat \<Rightarrow> nat \<Rightarrow> 'f client \<Rightarrow> 'f client \<Rightarrow> bool" where
  "turn m n x y \<longleftrightarrow> (case (x, y) of ((s, b), (s', b')) \<Rightarrow>
     \<exists>new. bn_sessions b' = bn_sessions b @ new \<and> same_requests b b' \<and> (\<forall>t \<in> set (s' # new). ss_bad_client_rate t = ss_bad_client_rate s \<and> write_whole (bn_results b') t) \<and>
       op_steps (ss_pending s') + steps_of new + 3 * unsent b' \<le> m + 3 * unsent b \<and>
       op_flying (ss_pending s') + flying new + unsent b' + timed b' \<le> n + unsent b + timed b \<and> unsent b' \<le> unsent b \<and>
       (bn_cerr b' = [] \<longrightarrow> bn_cerr b = []) \<and>
       (ss_bad_client_rate s = 0 \<and> bn_cerr b' = [] \<longrightarrow> op_flying (ss_pending s') + flying new + unsent b' + timed b' = n + unsent b + timed b \<and>
          new = [] \<and> (ss_pending s' = O_none \<longrightarrow> unsent b' = 0)))"

lemma count_simps [simp]:
  "bn_sessions (count_bytes_in n b) = bn_sessions b" "bn_cerr (count_bytes_in n b) = bn_cerr b" "unsent (count_bytes_in n b) = unsent b" "timed (count_bytes_in n b) = timed b"
  "bn_sessions (count_bytes_out n b) = bn_sessions b" "bn_cerr (count_bytes_out n b) = bn_cerr b" "unsent (count_bytes_out n b) = unsent b" "timed (count_bytes_out n b) = timed b"
  "bn_sessions (push_time now s b) = bn_sessions b" "bn_cerr (push_time now s b) = bn_cerr b" "unsent (push_time now s b) = unsent b" "timed (push_time now s b) = Suc (timed b)"
  "rs_get_request (bn_results (count_bytes_in n b)) = rs_get_request (bn_results b)" "rs_set_request (bn_results (count_bytes_in n b)) = rs_set_request (bn_results b)"
  "rs_get_request (bn_results (count_bytes_out n b)) = rs_get_request (bn_results b)" "rs_set_request (bn_results (count_bytes_out n b)) = rs_set_request (bn_results b)"
  "rs_get_request (bn_results (push_time now s b)) = rs_get_request (bn_results b)" "rs_set_request (bn_results (push_time now s b)) = rs_set_request (bn_results b)"
  by (simp_all add: count_bytes_in_def count_bytes_out_def push_time_def unsent_def timed_def)

lemma bad_client_simps [simp]:
  "ss_bad_client_rate (snd (bad_client s)) = ss_bad_client_rate s" "ss_pending (snd (bad_client s)) = ss_pending s" "ss_in (snd (bad_client s)) = ss_in s"
  "ss_begin (snd (bad_client s)) = ss_begin s" "fst (bad_client s) \<Longrightarrow> ss_bad_client_rate s \<noteq> 0"
  by (simp_all add: bad_client_def split: if_splits)

text \<open>A call may first change fields that nothing depends on, and record a time for a request that is over.\<close>

lemma turn_from:
  assumes "turn m n (s1, b1) y" "ss_bad_client_rate s1 = ss_bad_client_rate s" "bn_sessions b1 = bn_sessions b" "bn_cerr b1 = bn_cerr b" "same_requests b b1"
    and "unsent b1 = unsent b" "timed b1 + n = timed b + n'" "m \<le> m'"
  shows "turn m' n' (s, b) y"
proof -
  obtain s' b' where y: "y = (s', b')" by fastforce
  obtain new where "bn_sessions b' = bn_sessions b @ new" "same_requests b1 b'" "\<forall>t \<in> set (s' # new). ss_bad_client_rate t = ss_bad_client_rate s \<and> write_whole (bn_results b') t"
    "op_steps (ss_pending s') + steps_of new + 3 * unsent b' \<le> m + 3 * unsent b"
    "op_flying (ss_pending s') + flying new + unsent b' + timed b' \<le> n + unsent b + timed b1" "unsent b' \<le> unsent b" "bn_cerr b' = [] \<longrightarrow> bn_cerr b = []"
    "ss_bad_client_rate s = 0 \<and> bn_cerr b' = [] \<longrightarrow> op_flying (ss_pending s') + flying new + unsent b' + timed b' = n + unsent b + timed b1 \<and>
       new = [] \<and> (ss_pending s' = O_none \<longrightarrow> unsent b' = 0)"
    using assms(1-6) unfolding turn_def y by auto
  moreover from this(2) have "same_requests b b'" using assms(5) by (simp add: same_requests_def)
  ultimately show ?thesis using assms(7,8) unfolding turn_def y by (auto intro!: exI [of _ new])
qed

lemma send_request_sends:
  "\<exists>n. ss_pending (send_request now req op s) = op n \<and> (ss_bad_client_rate s = 0 \<longrightarrow> n = word_of_nat (length req)) \<and>
     ss_bad_client_rate (send_request now req op s) = ss_bad_client_rate s"
proof (cases "bad_client (s\<lparr>ss_begin := now\<rparr>)")
  case (Pair bad s1)
  note f = bad_client_simps [of "s\<lparr>ss_begin := now\<rparr>"]
  have "ss_bad_client_rate s1 = ss_bad_client_rate s" "ss_bad_client_rate s = 0 \<longrightarrow> \<not> bad" using f(1,5) Pair by auto
  then show ?thesis using Pair by (auto simp only: send_request_def Let_def split: prod.split if_split) auto
qed

lemma do_get_turn:
  assumes "rs_gets_remaining (bn_results b) \<noteq> 0"
  shows "turn 0 0 (s, b) (snd (do_get now (s, b)))"
proof -
  let ?s = "send_request now (rs_get_request (bn_results b)) O_get_write s"
  let ?b = "b\<lparr>bn_results := (bn_results b)\<lparr>rs_gets_remaining := rs_gets_remaining (bn_results b) - 1\<rparr>\<rparr>"
  obtain n where n: "ss_pending ?s = O_get_write n" "ss_bad_client_rate s = 0 \<Longrightarrow> n = word_of_nat (length (rs_get_request (bn_results b)))"
    "ss_bad_client_rate ?s = ss_bad_client_rate s" using send_request_sends [of now "rs_get_request (bn_results b)" O_get_write s] by blast
  have u: "unsent b = Suc (unsent ?b)" using assms by (simp add: unsent_def unat_minus_one unat_gt_0)
  have "write_whole (bn_results ?b) ?s" using n by (simp add: write_whole_def)
  then have "turn 0 0 (s, b) (?s, ?b)" using n u by (simp add: turn_def same_requests_def timed_def)
  then show ?thesis by (simp add: do_get_def Let_def)
qed

lemma do_set_turn:
  assumes "rs_sets_remaining (bn_results b) \<noteq> 0"
  shows "turn 0 0 (s, b) (snd (do_set now (s, b)))"
proof -
  let ?s = "send_request now (rs_set_request (bn_results b)) O_set_write s"
  let ?b = "b\<lparr>bn_results := (bn_results b)\<lparr>rs_sets_remaining := rs_sets_remaining (bn_results b) - 1\<rparr>\<rparr>"
  obtain n where n: "ss_pending ?s = O_set_write n" "ss_bad_client_rate s = 0 \<Longrightarrow> n = word_of_nat (length (rs_set_request (bn_results b)))"
    "ss_bad_client_rate ?s = ss_bad_client_rate s" using send_request_sends [of now "rs_set_request (bn_results b)" O_set_write s] by blast
  have u: "unsent b = Suc (unsent ?b)" using assms by (simp add: unsent_def unat_minus_one unat_gt_0)
  have "write_whole (bn_results ?b) ?s" using n by (simp add: write_whole_def)
  then have "turn 0 0 (s, b) (?s, ?b)" using n u by (simp add: turn_def same_requests_def timed_def)
  then show ?thesis by (simp add: do_set_def Let_def)
qed

lemma do_get_or_set_turn:
  assumes "ss_pending s = O_none"
  shows "turn 0 0 (s, b) (snd (do_get_or_set X now (s, b)))"
proof -
  have "turn 0 0 (s, b) (s, b)" if "unsent b = 0" using that assms by (simp add: turn_def same_requests_def write_whole_def)
  then show ?thesis using do_get_turn [of b s now] do_set_turn [of b s now] by (auto simp: do_get_or_set_def Let_def unsent_def)
qed

lemma session_fail_turn:
  assumes "ss_pending s = O_none"
  shows "turn m n (s, b) (snd (session_fail nm msg (s, b)))"
  using assms by (simp add: turn_def session_fail_def same_requests_def write_whole_def unsent_def timed_def)

lemma reconnect_turn:
  assumes "ss_pending s = O_none" "ss_bad_client_rate s \<noteq> 0" "reconnect X (s, b) = (Inr (), y)"
  shows "turn (Suc m) n (s, b) y"
  using assms by (auto simp: turn_def reconnect_def session_ctor_def session_start_def add_session_def same_requests_def write_whole_def unsent_def timed_def
      split: option.splits sum.splits)

text \<open>The methods that completions call back. A write that is cut short is one of a bad client.\<close>

lemma short_write_turn:
  assumes "ss_pending s = O_none" "reconnect X (s, count_bytes_out n b) = (Inr (), y)" "ss_bad_client_rate s \<noteq> 0"
  shows "turn (Suc m) i (s, b) y"
  by (rule turn_from [OF reconnect_turn [OF assms(1,3,2), of m i]]) (simp_all add: same_requests_def)

lemma get_on_write_turn:
  assumes s: "ss_pending s = O_none" and r: "get_on_write X e n (s, b) = (Inr (), y)"
    and n: "ss_bad_client_rate s = 0 \<Longrightarrow> n = word_of_nat (length (rs_get_request (bn_results b)))"
  shows "turn 2 1 (s, b) y"
proof (cases e)
  case (Some err)
  then show ?thesis using session_fail_turn [OF s, of 2 1 b "''get_on_write''" "bx_message X err"] r by (simp add: get_on_write_def)
next
  case None
  show ?thesis
  proof (cases "n < word_of_nat (length (rs_get_request (bn_results b)))")
    case True
    then have "reconnect X (s, count_bytes_out n b) = (Inr (), y)" "ss_bad_client_rate s \<noteq> 0" using None r n by (auto simp: get_on_write_def Let_def)
    from short_write_turn [OF s this, of 1 1] show ?thesis by (simp add: numeral_2_eq_2)
  next
    case False
    then have "y = (s\<lparr>ss_pending := O_get_header\<rparr>, count_bytes_out n b)" using None r by (simp add: get_on_write_def Let_def)
    then show ?thesis by (simp add: turn_def same_requests_def write_whole_def)
  qed
qed

lemma set_on_write_turn:
  assumes s: "ss_pending s = O_none" and r: "set_on_write X e n (s, b) = (Inr (), y)"
    and n: "ss_bad_client_rate s = 0 \<Longrightarrow> n = word_of_nat (length (rs_set_request (bn_results b)))"
  shows "turn 1 1 (s, b) y"
proof (cases e)
  case (Some err)
  then show ?thesis using session_fail_turn [OF s, of 1 1 b "''set_on_write''" "bx_message X err"] r by (simp add: set_on_write_def)
next
  case None
  show ?thesis
  proof (cases "n < word_of_nat (length (rs_set_request (bn_results b)))")
    case True
    then have "reconnect X (s, count_bytes_out n b) = (Inr (), y)" "ss_bad_client_rate s \<noteq> 0" using None r n by (auto simp: set_on_write_def Let_def)
    from short_write_turn [OF s this, of 0 1] show ?thesis by simp
  next
    case False
    then have "y = (s\<lparr>ss_pending := O_set_response (still_needed 8 (ss_in s))\<rparr>, count_bytes_out n b)" using None r by (simp add: set_on_write_def Let_def)
    then show ?thesis by (simp add: turn_def same_requests_def write_whole_def)
  qed
qed

lemma next_request_turn:
  assumes "ss_pending s1 = O_none" "ss_bad_client_rate s1 = ss_bad_client_rate s" "bn_sessions b1 = bn_sessions b" "bn_cerr b1 = bn_cerr b" "same_requests b b1"
    and "unsent b1 = unsent b" "timed b1 = Suc (timed b)"
  shows "turn m 1 (s, b) (snd (do_get_or_set X now (s1, b1)))"
  by (rule turn_from [OF do_get_or_set_turn [OF assms(1)]]) (use assms in simp_all)

lemma get_on_value_turn:
  assumes "ss_pending s = O_none"
  shows "turn 0 1 (s, b) (snd (get_on_value X now e (s, b)))"
proof (cases e)
  case None
  have "turn 0 1 (s, b) (snd (do_get_or_set X now (s\<lparr>ss_in := []\<rparr>, count_bytes_in (word_of_nat (length (ss_in s))) (push_time now s b))))"
    by (rule next_request_turn) (use assms in \<open>simp_all add: same_requests_def\<close>)
  then show ?thesis using None by (simp add: get_on_value_def)
qed (simp add: get_on_value_def session_fail_turn [OF assms])

lemma set_on_response_turn:
  assumes "ss_pending s = O_none"
  shows "turn 0 1 (s, b) (snd (set_on_response X now e n (s, b)))"
proof (cases e)
  case None
  have "turn 0 1 (s, b) (snd (do_get_or_set X now (s\<lparr>ss_in := drop n (ss_in s)\<rparr>, count_bytes_in (word_of_nat n) (push_time now s b))))"
    by (rule next_request_turn) (use assms in \<open>simp_all add: same_requests_def\<close>)
  then show ?thesis using None by (simp add: set_on_response_def)
qed (simp add: set_on_response_def session_fail_turn [OF assms])

lemma get_on_header_turn:
  assumes s: "ss_pending s = O_none" and r: "get_on_header X now e n (s, b) = (Inr (), y)"
  shows "turn 1 1 (s, b) y"
proof (cases e)
  case (Some err)
  then show ?thesis using session_fail_turn [OF s, of 1 1 b "''get_on_header''" "bx_message X err"] r by (simp add: get_on_header_def)
next
  case None
  obtain bad s1 where bc: "bad_client s = (bad, s1)" by fastforce
  have s1: "ss_pending s1 = O_none" "ss_bad_client_rate s1 = ss_bad_client_rate s" "bad \<Longrightarrow> ss_bad_client_rate s \<noteq> 0"
    using bad_client_simps [of s] bc s by simp_all
  let ?s = "s1\<lparr>ss_in := drop n (ss_in s1)\<rparr>" and ?b = "count_bytes_in (word_of_nat n) b"
  consider (bad) bad "reconnect X (s1, b) = (Inr (), y)" | (over) "y = snd (do_get_or_set X now (?s, push_time now ?s ?b))"
    | (fail) "y = snd (session_fail ''get_on_header'' ''bad header'' (?s, ?b))" | (more) q where "y = (?s\<lparr>ss_pending := O_get_value q\<rparr>, ?b)"
    using r None bc by (cases bad) (auto simp: get_on_header_def Let_def split: if_split_asm option.split_asm)
  then show ?thesis
  proof cases
    case bad
    have "turn 1 1 (s1, b) y" using reconnect_turn [OF s1(1) _ bad(2), of 0 1] s1(2,3) bad(1) by simp
    then show ?thesis by (rule turn_from) (simp_all add: s1 same_requests_def)
  next
    case over
    show ?thesis unfolding over by (rule next_request_turn) (simp_all add: s1 same_requests_def)
  next
    case fail
    have "turn 1 1 (?s, ?b) y" unfolding fail by (rule session_fail_turn) (simp add: s1)
    then show ?thesis by (rule turn_from) (simp_all add: s1 same_requests_def)
  next
    case (more q)
    then show ?thesis by (simp add: turn_def same_requests_def write_whole_def s1)
  qed
qed

section \<open>The whole benchmark\<close>

definition bench_inv :: "nat \<Rightarrow> u64 \<Rightarrow> 'f bench \<Rightarrow> bool" where
  "bench_inv budget rate b \<longleftrightarrow> (\<forall>s \<in> set (bn_sessions b). ss_bad_client_rate s = rate \<and> write_whole (bn_results b) s) \<and>
     flying (bn_sessions b) + unsent b + timed b \<le> budget \<and>
     (rate = 0 \<and> bn_cerr b = [] \<longrightarrow> flying (bn_sessions b) + unsent b + timed b = budget \<and>
        (\<forall>s \<in> set (bn_sessions b). ss_pending s = O_none \<longrightarrow> unsent b = 0))"

definition steps_left :: "'f bench \<Rightarrow> nat" where
  "steps_left b = steps_of (bn_sessions b) + 3 * unsent b"

lemma write_whole_same: "same_requests b b' \<Longrightarrow> write_whole (bn_results b) s \<Longrightarrow> write_whole (bn_results b') s"
  by (cases "ss_pending s") (simp_all add: write_whole_def same_requests_def)

lemma turn_inv:
  assumes inv: "bench_inv budget rate b" and k: "k < length (bn_sessions b)" and s: "s = (bn_sessions b ! k)\<lparr>ss_pending := O_none, ss_in := i\<rparr>"
    and t: "turn m n (s, b) (s1, b1)" and m: "m < op_steps (ss_pending (bn_sessions b ! k))" "n = op_flying (ss_pending (bn_sessions b ! k))"
  defines "b' \<equiv> b1\<lparr>bn_sessions := (bn_sessions b1)[k := s1]\<rparr>"
  shows "bench_inv budget rate b' \<and> steps_left b' < steps_left b \<and> length (bn_sessions b) \<le> length (bn_sessions b')"
proof -
  obtain new where new: "bn_sessions b1 = bn_sessions b @ new" "same_requests b b1"
    "\<forall>t \<in> set (s1 # new). ss_bad_client_rate t = ss_bad_client_rate s \<and> write_whole (bn_results b1) t"
    "op_steps (ss_pending s1) + steps_of new + 3 * unsent b1 \<le> m + 3 * unsent b"
    "op_flying (ss_pending s1) + flying new + unsent b1 + timed b1 \<le> n + unsent b + timed b" "unsent b1 \<le> unsent b" "bn_cerr b1 = [] \<Longrightarrow> bn_cerr b = []"
    and exact: "ss_bad_client_rate s = 0 \<Longrightarrow> bn_cerr b1 = [] \<Longrightarrow> op_flying (ss_pending s1) + flying new + unsent b1 + timed b1 = n + unsent b + timed b \<and>
       new = [] \<and> (ss_pending s1 = O_none \<longrightarrow> unsent b1 = 0)"
    using t unfolding turn_def by auto
  have rate: "ss_bad_client_rate s = rate" using inv k s by (simp add: bench_inv_def)
  have ss: "bn_sessions b' = (bn_sessions b)[k := s1] @ new" "bn_results b' = bn_results b1" "bn_cerr b' = bn_cerr b1" "unsent b' = unsent b1" "timed b' = timed b1"
    using k new(1) by (simp_all add: b'_def list_update_append unsent_def timed_def)
  have sub: "set (bn_sessions b') \<subseteq> insert s1 (set (bn_sessions b)) \<union> set new" using set_update_subset_insert [of "bn_sessions b" k s1] ss(1) by auto
  have fl: "flying (bn_sessions b') + n = flying (bn_sessions b) + op_flying (ss_pending s1) + flying new" using flying_update [OF k, of s1] m(2) ss(1) by simp
  have "ss_bad_client_rate t = rate \<and> write_whole (bn_results b') t" if "t \<in> set (bn_sessions b')" for t
    using that sub inv new(3) rate write_whole_same [OF new(2)] ss(2) by (auto simp: bench_inv_def)
  moreover have "flying (bn_sessions b') + unsent b' + timed b' \<le> budget" using inv fl new(5) ss(4,5) by (simp add: bench_inv_def)
  moreover have "flying (bn_sessions b') + unsent b' + timed b' = budget \<and> (\<forall>t \<in> set (bn_sessions b'). ss_pending t = O_none \<longrightarrow> unsent b' = 0)"
    if z: "rate = 0" "bn_cerr b' = []"
  proof -
    have c: "bn_cerr b = []" and x: "op_flying (ss_pending s1) + flying new + unsent b1 + timed b1 = n + unsent b + timed b" "new = []"
      "ss_pending s1 = O_none \<longrightarrow> unsent b1 = 0" using z new(7) exact rate ss(3) by auto
    then have old: "flying (bn_sessions b) + unsent b + timed b = budget" "\<forall>t \<in> set (bn_sessions b). ss_pending t = O_none \<longrightarrow> unsent b = 0"
      using inv z(1) by (auto simp: bench_inv_def)
    then show ?thesis using x fl ss(4,5) sub new(6) by auto
  qed
  ultimately have "bench_inv budget rate b'" by (simp add: bench_inv_def)
  moreover have "steps_left b' < steps_left b" using steps_of_update [OF k, of s1] ss(1,4) new(4) m(1) by (simp add: steps_left_def)
  ultimately show ?thesis using ss(1) by simp
qed

lemma run_session_inv:
  assumes inv: "bench_inv budget rate b" and k: "k < length (bn_sessions b)" and run: "run_session k f b = (Inr (), b')"
    and t: "\<And>y. f ((bn_sessions b ! k)\<lparr>ss_pending := O_none\<rparr>, b) = (Inr (), y) \<Longrightarrow> \<exists>i. turn m n ((bn_sessions b ! k)\<lparr>ss_pending := O_none, ss_in := i\<rparr>, b) y"
    and m: "m < op_steps (ss_pending (bn_sessions b ! k))" "n = op_flying (ss_pending (bn_sessions b ! k))"
  shows "bench_inv budget rate b' \<and> steps_left b' < steps_left b \<and> length (bn_sessions b) \<le> length (bn_sessions b')"
proof -
  obtain s1 b1 where f: "f ((bn_sessions b ! k)\<lparr>ss_pending := O_none\<rparr>, b) = (Inr (), (s1, b1))" and b': "b' = b1\<lparr>bn_sessions := (bn_sessions b1)[k := s1]\<rparr>"
    using run k by (auto simp: run_session_def split: prod.splits)
  from t [OF f] obtain i where "turn m n ((bn_sessions b ! k)\<lparr>ss_pending := O_none, ss_in := i\<rparr>, b) (s1, b1)" ..
  from turn_inv [OF inv k refl this m] show ?thesis unfolding b' .
qed

lemma turn_of: "turn m n x (snd r) \<Longrightarrow> r = (q, y) \<Longrightarrow> turn m n x y"
  by simp

lemma bench_step_inv:
  assumes inv: "bench_inv budget rate b" and c: "bench_completes ev b" and st: "bench_step X now ev b = (Inr (), b')"
  shows "bench_inv budget rate b' \<and> steps_left b' < steps_left b \<and> length (bn_sessions b) \<le> length (bn_sessions b')"
proof (cases ev)
  case (Posted k)
  show ?thesis
  proof (rule run_session_inv [OF inv])
    show "k < length (bn_sessions b)" "run_session k (do_get_or_set X now) b = (Inr (), b')" using c st Posted by simp_all
    show "0 < op_steps (ss_pending (bn_sessions b ! k))" "0 = op_flying (ss_pending (bn_sessions b ! k))" using c Posted by simp_all
  next
    fix y assume "do_get_or_set X now ((bn_sessions b ! k)\<lparr>ss_pending := O_none\<rparr>, b) = (Inr (), y)"
    from turn_of [OF do_get_or_set_turn this] show "\<exists>i. turn 0 0 ((bn_sessions b ! k)\<lparr>ss_pending := O_none, ss_in := i\<rparr>, b) y"
      by (intro exI [of _ "ss_in (bn_sessions b ! k)"]) simp
  qed
next
  case (Wrote k e)
  let ?p = "ss_pending (bn_sessions b ! k)" and ?s = "(bn_sessions b ! k)\<lparr>ss_pending := O_none\<rparr>"
  have k: "k < length (bn_sessions b)" and run: "run_session k (session_wrote X ?p e) b = (Inr (), b')" using c st Wrote by simp_all
  have w: "write_whole (bn_results b) (bn_sessions b ! k)" using inv k by (simp add: bench_inv_def)
  consider (get) q where "?p = O_get_write q" | (set) q where "?p = O_set_write q" using c Wrote by (auto split: operation.splits)
  then show ?thesis
  proof cases
    case (get q)
    have "turn 2 1 (?s, b) y" if "session_wrote X ?p e (?s, b) = (Inr (), y)" for y
      by (rule get_on_write_turn [of _ X e q]) (use that get w in \<open>simp_all add: session_wrote_def write_whole_def\<close>)
    then show ?thesis using get by (intro run_session_inv [OF inv k run, of 2 1]) (auto intro!: exI [of _ "ss_in (bn_sessions b ! k)"])
  next
    case (set q)
    have "turn 1 1 (?s, b) y" if "session_wrote X ?p e (?s, b) = (Inr (), y)" for y
      by (rule set_on_write_turn [of _ X e q]) (use that set w in \<open>simp_all add: session_wrote_def write_whole_def\<close>)
    then show ?thesis using set by (intro run_session_inv [OF inv k run, of 1 1]) (auto intro!: exI [of _ "ss_in (bn_sessions b ! k)"])
  qed
next
  case (Got k bytes e)
  let ?p = "ss_pending (bn_sessions b ! k)" and ?i = "ss_in (bn_sessions b ! k) @ bytes"
  let ?s = "(bn_sessions b ! k)\<lparr>ss_pending := O_none\<rparr>" and ?s1 = "(bn_sessions b ! k)\<lparr>ss_pending := O_none, ss_in := ?i\<rparr>"
  have k: "k < length (bn_sessions b)" and run: "run_session k (session_got X now ?p bytes e) b = (Inr (), b')" using c st Got by simp_all
  consider (header) "?p = O_get_header" | (rest) q where "?p = O_get_value q" | (response) q where "?p = O_set_response q" using c Got by (auto split: operation.splits)
  then show ?thesis
  proof cases
    case header
    have "turn 1 1 (?s1, b) y" if "session_got X now ?p bytes e (?s, b) = (Inr (), y)" for y
      by (rule get_on_header_turn [of _ X now e "line_end ?i"]) (use that header in \<open>simp_all add: session_got_def Let_def\<close>)
    then show ?thesis using header by (intro run_session_inv [OF inv k run, of 1 1]) (auto intro!: exI [of _ ?i])
  next
    case (rest q)
    have "turn 0 1 (?s1, b) y" if "session_got X now ?p bytes e (?s, b) = (Inr (), y)" for y
      by (rule turn_of [OF get_on_value_turn [of _ _ X now e]]) (use that rest in \<open>simp_all add: session_got_def Let_def\<close>)
    then show ?thesis using rest by (intro run_session_inv [OF inv k run, of 0 1]) (auto intro!: exI [of _ ?i])
  next
    case (response q)
    have "turn 0 1 (?s1, b) y" if "session_got X now ?p bytes e (?s, b) = (Inr (), y)" for y
      by (rule turn_of [OF set_on_response_turn [of _ _ X now e "length bytes"]]) (use that response in \<open>simp_all add: session_got_def Let_def\<close>)
    then show ?thesis using response by (intro run_session_inv [OF inv k run, of 0 1]) (auto intro!: exI [of _ ?i])
  qed
qed

lemma bench_runs_inv:
  assumes "bench_runs X b0 evs b" "bench_inv budget rate b0"
  shows "bench_inv budget rate b \<and> length evs + steps_left b \<le> steps_left b0 \<and> length (bn_sessions b0) \<le> length (bn_sessions b)"
  using assms
proof (induction rule: bench_runs.induct)
  case (step evs b ev now b')
  then show ?case using bench_step_inv [OF _ step.hyps(2,3)] by fastforce
qed simp

lemma start_workers_ready:
  assumes "start_workers X v n b = (Inr (), b')" "\<forall>s \<in> set (bn_sessions b). ss_pending s = O_post \<and> ss_bad_client_rate s = bv_bad_client_rate v"
  shows "bn_results b' = bn_results b \<and> bn_cerr b' = bn_cerr b \<and> length (bn_sessions b') = length (bn_sessions b) + n \<and>
    (\<forall>s \<in> set (bn_sessions b'). ss_pending s = O_post \<and> ss_bad_client_rate s = bv_bad_client_rate v)"
  using assms
proof (induction n arbitrary: b)
  case (Suc n)
  obtain s where s: "session_ctor X (bv_host v) (bv_port v) (bv_bad_client_rate v) 0 = Inr s" and w: "start_workers X v n (add_session (session_start s) b) = (Inr (), b')"
    using Suc.prems(1) by (cases "session_ctor X (bv_host v) (bv_port v) (bv_bad_client_rate v) 0") simp_all
  have "ss_bad_client_rate s = bv_bad_client_rate v" using s by (auto simp: session_ctor_def split: option.splits)
  then have "\<forall>t \<in> set (bn_sessions (add_session (session_start s) b)). ss_pending t = O_post \<and> ss_bad_client_rate t = bv_bad_client_rate v"
    using Suc.prems(2) by (auto simp: add_session_def session_start_def)
  from Suc.IH [OF w this] show ?case unfolding add_session_def by simp
qed simp

lemma all_posted: "\<forall>s \<in> set ss. ss_pending s = O_post \<Longrightarrow> steps_of ss = length ss \<and> flying ss = 0"
  by (induction ss) auto

lemma bench_start_inv:
  assumes "bench_start X P version argv = Inr (v, b)"
  shows "bench_inv (unat (bv_num_gets v) + unat (bv_num_sets v)) (bv_bad_client_rate v) b"
    "steps_left b = unat (bv_workers v) + 3 * (unat (bv_num_gets v) + unat (bv_num_sets v))" "length (bn_sessions b) = unat (bv_workers v)"
proof -
  let ?b = "\<lparr>bn_results = results_ctor X (bv_item_size v) (bv_num_gets v) (bv_num_sets v), bn_sessions = [], bn_cerr = []\<rparr>"
  obtain vm v1 where p: "bo_parse P argv = Inr (vm, v1)" using assms by (cases "bo_parse P argv") (auto simp: bench_start_def)
  have c: "bo_count P vm ''help'' = 0" "bo_count P vm ''version'' = 0" "bo_count P vm ''port'' \<noteq> 0"
    using assms by (simp_all only: bench_start_def p sum.case prod.case split: if_split_asm) simp_all
  obtain q b1 where w1: "start_workers X v1 (unat (bv_workers v1)) \<lparr>bn_results = results_ctor X (bv_item_size v1) (bv_num_gets v1) (bv_num_sets v1), bn_sessions = [], bn_cerr = []\<rparr> = (q, b1)"
    by (rule prod.exhaust)
  have "v1 = v" "b1 = b" "q = Inr ()" using assms by (cases q; simp add: bench_start_def p c w1)+
  then have w: "start_workers X v (unat (bv_workers v)) ?b = (Inr (), b)" using w1 by simp
  note r = start_workers_ready [OF w, simplified]
  have u: "unsent b = unat (bv_num_gets v) + unat (bv_num_sets v)" "timed b = 0" using r by (simp_all add: unsent_def timed_def results_ctor_def)
  have st: "steps_of (bn_sessions b) = unat (bv_workers v)" "flying (bn_sessions b) = 0" using all_posted [of "bn_sessions b"] r by simp_all
  have "write_whole (bn_results b) s" if "s \<in> set (bn_sessions b)" for s using r that by (simp add: write_whole_def)
  then show "bench_inv (unat (bv_num_gets v) + unat (bv_num_sets v)) (bv_bad_client_rate v) b" using r u st by (simp add: bench_inv_def)
  show "steps_left b = unat (bv_workers v) + 3 * (unat (bv_num_gets v) + unat (bv_num_sets v))" using u st by (simp add: steps_left_def)
  show "length (bn_sessions b) = unat (bv_workers v)" using r by simp
qed

lemma idle_flying: "bench_idle b \<Longrightarrow> flying (bn_sessions b) = 0"
  by (simp add: bench_idle_def flying_def list_all_iff)

section \<open>The report\<close>

lemma percentile_defined:
  assumes "ts \<noteq> []" "length ts < 2 ^ 57" "p < 100"
  shows "\<exists>t \<in> set ts. percentile ts p = Inr t"
proof -
  have l: "unat (word_of_nat (length ts) :: u64) = length ts" using assms(2) by (simp add: unsigned_of_nat take_bit_nat_eq_self)
  have p: "unat p < 100" using assms(3) by (simp add: word_less_nat_alt)
  have "length ts * unat p \<le> 2 ^ 57 * 99" using assms(2) p by (intro mult_mono) simp_all
  then have lt: "length ts * unat p < 2 ^ 64" by simp
  have "unat (word_of_nat (length ts) * p) = length ts * unat p" using lt l by (simp add: unat_word_ariths)
  then have "unat (word_of_nat (length ts) * p div 100) = length ts * unat p div 100" by (simp add: unat_div)
  moreover have "length ts * unat p div 100 < length ts" using assms(1) p by (intro less_mult_imp_div_less) simp
  ultimately show ?thesis by (simp add: percentile_def Let_def)
qed

lemma percentile_lines_defined:
  assumes "ts \<noteq> []" "length ts < 2 ^ 57" "\<forall>p \<in> set ps. p < 100"
  shows "\<exists>text. percentile_lines ts ps = Inr text"
  using assms(3)
proof (induction ps)
  case (Cons p ps)
  then show ?case using percentile_defined [OF assms(1,2), of p] by auto
qed simp

lemma bench_report_defined:
  assumes "length (rs_times r) < 2 ^ 57"
  shows "\<exists>text. bench_report X v d r = Inr text"
proof (cases "rs_times r = []")
  case False
  have "sort (rs_times r) \<noteq> []" using False by (metis length_0_conv length_sort)
  moreover have "\<forall>p \<in> set percentages. p < 100" by (simp add: percentages_def)
  ultimately obtain t where "percentile_lines (sort (rs_times r)) percentages = Inr t"
    using percentile_lines_defined [of "sort (rs_times r)" percentages] assms by auto
  then show ?thesis by (simp add: bench_report_def Let_def)
qed (simp add: bench_report_def Let_def)

text \<open>
  C29: the benchmark ends and its numbers add up. A run sees at most one completion per worker and three per request, so that the event loop
  returns; the requests sent and not sent are never more than were asked for (the counters do not wrap); the report reads the vector of times within
  its bounds, if fewer than $2^{57}$ requests were asked for; and with no bad clients, at least one worker and no
  error on the way, every request has been sent and timed when the loop returns.
\<close>

theorem bench_ends_and_counts:
  assumes "bench_start X P version argv = Inr (v, b0)" "bench_runs X b0 evs b"
  shows "length evs \<le> unat (bv_workers v) + 3 * (unat (bv_num_gets v) + unat (bv_num_sets v)) \<and>
    flying (bn_sessions b) + unsent b + length (rs_times (bn_results b)) \<le> unat (bv_num_gets v) + unat (bv_num_sets v) \<and>
    (unat (bv_num_gets v) + unat (bv_num_sets v) < 2 ^ 57 \<longrightarrow> (\<forall>d. \<exists>text. bench_report X v d (bn_results b) = Inr text)) \<and>
    (bv_bad_client_rate v = 0 \<and> bv_workers v \<noteq> 0 \<and> bn_cerr b = [] \<and> bench_idle b \<longrightarrow>
       unsent b = 0 \<and> length (rs_times (bn_results b)) = unat (bv_num_gets v) + unat (bv_num_sets v))"
proof -
  let ?N = "unat (bv_num_gets v) + unat (bv_num_sets v)"
  note i = bench_start_inv [OF assms(1)]
  have inv: "bench_inv ?N (bv_bad_client_rate v) b" and len: "length evs + steps_left b \<le> unat (bv_workers v) + 3 * ?N" "unat (bv_workers v) \<le> length (bn_sessions b)"
    using bench_runs_inv [OF assms(2) i(1)] i(2,3) by simp_all
  have count: "flying (bn_sessions b) + unsent b + length (rs_times (bn_results b)) \<le> ?N" using inv by (simp add: bench_inv_def timed_def)
  have "\<exists>text. bench_report X v d (bn_results b) = Inr text" if "?N < 2 ^ 57" for d
    by (rule bench_report_defined) (use count that in linarith)
  moreover have "unsent b = 0 \<and> length (rs_times (bn_results b)) = ?N" if z: "bv_bad_client_rate v = 0" "bv_workers v \<noteq> 0" "bn_cerr b = []" "bench_idle b"
  proof -
    have e: "flying (bn_sessions b) + unsent b + timed b = ?N" "\<forall>s \<in> set (bn_sessions b). ss_pending s = O_none \<longrightarrow> unsent b = 0"
      using inv z(1,3) by (auto simp: bench_inv_def)
    have "bn_sessions b \<noteq> []" using len(2) z(2) by (auto simp: unat_eq_0)
    then obtain s where "s \<in> set (bn_sessions b)" by (cases "bn_sessions b") auto
    then have "unsent b = 0" using e(2) z(4) by (auto simp: bench_idle_def list_all_iff)
    then show ?thesis using e(1) idle_flying [OF z(4)] by (simp add: timed_def)
  qed
  ultimately show ?thesis using count len(1) by auto
qed

text \<open>Running a list of completions, at one time; and a benchmark of one set and one get by one worker.\<close>

fun bench_serve :: "'f bench_externs \<Rightarrow> bench_event list \<Rightarrow> 'f bench \<Rightarrow> 'f bench option" where
  "bench_serve X [] b = Some b"
| "bench_serve X (ev # evs) b = (if bench_completes ev b then
     (case bench_step X 0 ev b of (Inr _, b1) \<Rightarrow> bench_serve X evs b1 | (Inl _, b1) \<Rightarrow> None)
   else None)"

lemma bench_serve_runs: "bench_runs X b0 evs0 b \<Longrightarrow> bench_serve X evs b = Some b' \<Longrightarrow> bench_runs X b0 (evs0 @ evs) b'"
proof (induction evs arbitrary: evs0 b)
  case (Cons ev evs)
  obtain r b1 where st: "bench_step X 0 ev b = (r, b1)" by (rule prod.exhaust)
  have c: "bench_completes ev b" "r = Inr ()" "bench_serve X evs b1 = Some b'" using Cons.prems(2) st by (auto split: if_splits sum.splits)
  have "bench_runs X b0 (evs0 @ [ev]) b1" by (rule bench_runs.step [OF Cons.prems(1) c(1), of 0]) (use st c(2) in simp)
  from Cons.IH [OF this c(3)] show ?case by simp
qed simp

definition demo_bench_externs :: "int bench_externs" where
  "demo_bench_externs = \<lparr>bx_float = \<lparr>fl_of_size = (\<lambda>n. int (unat n)), fl_add = (\<lambda>a b. a + b), fl_div = (\<lambda>a b. a div b), fl_greater = (\<lambda>a b. a > b),
     fl_show = (\<lambda>n. decimal (nat n))\<rparr>, bx_rand = (\<lambda>i. i), bx_connect = (\<lambda>host p. None), bx_message = (\<lambda>e. []), bx_elapsed = (\<lambda>d. d)\<rparr>"

definition demo_bench_options :: "unit bench_options" where
  "demo_bench_options = \<lparr>bo_parse = (\<lambda>argv. Inr ((), \<lparr>bv_host = ''127.0.0.1'', bv_port = 22133, bv_num_gets = 1, bv_num_sets = 1, bv_item_size = 1, bv_workers = 1,
     bv_bad_client_rate = 0\<rparr>)), bo_count = (\<lambda>vm name. if name = ''port'' then 1 else 0), bo_help = []\<rparr>"

definition demo_bench_events :: "bench_event list" where
  "demo_bench_events = [Posted 0, Wrote 0 None, Got 0 (''STORED'' @ crlf) None, Wrote 0 None, Got 0 (''VALUE db_bench 0 1'' @ crlf @ ''a'') None,
     Got 0 (crlf @ ''END'' @ crlf) None]"

theorem bench_ends_and_counts_witness:
  "\<exists>v b0 b. bench_start demo_bench_externs demo_bench_options ''0.2.5'' [] = Inr (v, b0) \<and> bench_runs demo_bench_externs b0 demo_bench_events b \<and>
     bench_idle b \<and> length demo_bench_events \<le> 7 \<and> length (rs_times (bn_results b)) = 2"
proof -
  let ?c = "bench_start demo_bench_externs demo_bench_options ''0.2.5'' []"
  have "(case ?c of Inl f \<Rightarrow> None | Inr (v, b0) \<Rightarrow> map_option (\<lambda>b. (v, bench_idle b, bn_cerr b)) (bench_serve demo_bench_externs demo_bench_events b0)) =
      Some (snd (projr (bo_parse demo_bench_options [])), True, [])"
    by code_simp
  then obtain v b0 b where c: "?c = Inr (v, b0)" and b: "bench_serve demo_bench_externs demo_bench_events b0 = Some b" "bench_idle b" "bn_cerr b = []"
    and v: "v = snd (projr (bo_parse demo_bench_options []))" by (auto split: sum.splits)
  have vs: "bv_num_gets v = 1" "bv_num_sets v = 1" "bv_workers v = 1" "bv_bad_client_rate v = 0" by (simp_all add: v demo_bench_options_def)
  have r: "bench_runs demo_bench_externs b0 demo_bench_events b" using bench_serve_runs [OF bench_runs.start b(1)] by simp
  have "length demo_bench_events \<le> 7" "length (rs_times (bn_results b)) = 2" using bench_ends_and_counts [OF c r] b(2,3) vs by simp_all
  then show ?thesis using c r b(2) by blast
qed

end
