(* ===== verification/Spec2Isabelle.thy ===== *)
theory Spec2Isabelle
  imports Recovery Wakeups Bench_Theorems
begin

text \<open>
  Darner is a queue server. Clients speak a subset of the memcache protocol with the extensions of Kestrel: \<^verbatim>\<open>set\<close> puts an item at the
  end of a named queue, \<^verbatim>\<open>get\<close> takes the oldest one, and a client that opens an item keeps it until it closes (the item is gone) or
  aborts it or disconnects (the item is back in its place). Each queue is a LevelDB journal on disk; large items are cut into chunks. One thread
  runs everything: a server object accepts connections, each connection is a handler object, and the handlers are chains of
  asynchronous operations. This library models all of it and proves what the parts promise each other and
  the clients.

  \<^bold>\<open>The model.\<close> Definitions are pure functions on records. A method that may throw has type \<open>('s, 'a) outcome\<close>: the result, \<open>Inl\<close> an
  error or \<open>Inr\<close> a value, and the state it leaves, because the state after an exception matters. Undefined behaviour
  of C++ (reading before a string, past a buffer, an invalid iterator) is the error \<open>Undefined\<close>. Numbers of items, chunks and bytes are 64-bit words that wrap.
  Objects that are shared in the code are entries of a heap, a function from addresses; who owns them is computed from the state, so that destructors run
  when the last owner lets go. Asynchronous operations are values: a handler's state says which one it waits for, and a completion is an event.

  \<^item> \<open>Prelude\<close>: errors and outcomes, ranges of identifiers, decimal numbers, words. \<open>Leveldb\<close>: the database as a record of functions, its
    documented behaviour as named predicates (\<open>journal_contract\<close>, \<open>failed_write_invisible\<close>), and a store in memory that satisfies them and on which the witnesses run.
  \<^item> \<open>Keys\<close>, \<open>Queue\<close> (\<^verbatim>\<open>queue.h\<close>, \<^verbatim>\<open>queue.cpp\<close>): keys, comparator, headers, all methods of the queue and its constructor. \<open>Items\<close>, \<open>Queue_Refine\<close>, \<open>Queue_Pop\<close>: the
    invariant \<open>queue_inv L Op W q\<close>, where \<open>Op\<close> are the items being read and \<open>W\<close> the chunks being written, and one refinement lemma per method.
  \<^item> \<open>Two_Phase\<close>: the abstract two-phase FIFO queue and a locale with its laws; the queue's methods interpret it.
  \<^item> \<open>Streams\<close>, \<open>Stream_Props\<close>, \<open>Stream_Write\<close> (\<^verbatim>\<open>iqstream\<close>, \<^verbatim>\<open>oqstream\<close>): reading and writing an item chunk by chunk.
  \<^item> \<open>Clients\<close>, \<open>Clients_Inv\<close>, \<open>Clients_Step\<close>, \<open>Clients_Trace\<close>, \<open>Delivery\<close>: any number of streams on one queue, interleaved, with failing writes;
    every run is a run of the abstract queue, nothing is lost, nothing is delivered twice, and a reader gets a beginning of the bytes that one writer wrote (an item that is one zero byte
    comes back as two). \<open>Waiters\<close>: the list of waiting clients, and how each method keeps the ready items within the notified waiters. \<open>Recovery\<close>: the constructor on the
    journal another process left. \<open>Queue_Theorems\<close>: further properties of single methods.
  \<^item> \<open>Request\<close>, \<open>Request_Safe\<close> (\<^verbatim>\<open>request.h\<close>, \<^verbatim>\<open>request.cpp\<close>): every rule of the grammar over a record of the combinators of Boost.Spirit.Qi.
    \<open>Stats\<close> (\<^verbatim>\<open>stats.hpp\<close>, \<^verbatim>\<open>log.h\<close>, \<^verbatim>\<open>log.cpp\<close>): counters and log.
  \<^item> \<open>Queue_Map\<close>, \<open>Destroy\<close> (\<^verbatim>\<open>queue_map.hpp\<close>, \<^verbatim>\<open>queue::destroy\<close>, \<^verbatim>\<open>~queue\<close>): queues by name, shared ownership, the file system as a record of functions with the
    contract \<open>fs_contract\<close>; \<^verbatim>\<open>std::map\<close> is a sorted list that interprets the locale of ordered maps.
  \<^item> \<open>Handler\<close>, \<open>Handler_Set\<close>, \<open>Handler_Get\<close>, \<open>Handler_Theorems\<close> (\<^verbatim>\<open>handler.h\<close>, \<^verbatim>\<open>handler.cpp\<close>): one definition per method, then the set loop and
    the get loop as a whole: what is stored is what was sent (but for the single zero byte), what is sent is what was stored, however the network cuts it.
  \<^item> \<open>Server\<close> (\<^verbatim>\<open>server.hpp\<close>): constructor, accept loop, stop and the event loop as a step function on completions with a run relation.
    \<open>Server_Sim\<close>, \<open>Server_Methods\<close>, \<open>Server_Theorems\<close>: a simulation, one lemma per method, which shows that the server as a whole is, on each of its queues,
    a system of clients of that queue; with \<open>Delivery\<close> this gives the FIFO guarantee for the program.
    \<open>Method_Relation\<close>: a locale for what the methods of a handler have in common, a relation that the calls on a queue and on the map respect; it is interpreted
    twice. \<open>Server_Conns\<close>: connections and waiters belong together, and nothing is called back that is gone. \<open>Wakeups\<close>: no wakeup is lost in a run of the server, for a queue that is not
    deleted or flushed.
  \<^item> \<open>Program\<close> (\<^verbatim>\<open>main.cpp\<close>): options, start and stop.
  \<^item> \<open>Bench\<close>, \<open>Bench_Theorems\<close> (\<^verbatim>\<open>bench/db.cpp\<close>): the benchmark client, its sessions, its event loop and its report, and that it ends and counts correctly.

  \<^bold>\<open>What is shown.\<close> Refinement: the server on each queue, and all streams on one queue, implement the abstract FIFO queue. Invariants: of the queue, of the map of queues, of
  the server with its connections. Functional behaviour: set, get, peek, open,
  close, abort, flush, delete, waiting, disconnecting, starting. Round trips: requests printed and parsed, items pushed and read, a journal closed and
  opened. Bounds: input buffer, eviction before compaction, header buffer. Errors: what is rejected and that it leaves nothing behind; and where the code does what it
  should not (a single zero byte doubled, an empty item, a value of a billion bytes, a journal with chunks only, an accept that fails).

  \<^bold>\<open>Limits.\<close> The loop that looks for a free name in \<^verbatim>\<open>destroy\<close> is a \<open>partial_function\<close> in the option type; it ends if one of the names is free, which is proved. The other loops
  are structural recursion, or run once per completion; the event loop of the server does not end by itself, that of the benchmark does, after a number of completions that is proved. The refinement of the server is for queues whose counters are below $2^{63}$ and for runs
  that no exception ends. That no wakeup is lost is for queues whose head has not wrapped around and for such runs. The theorems on the set loop are for items of less than $2^{32}$ bytes, all that the grammar accepts, and those on the get loop for items of less than
  a billion bytes, beyond which the code overflows a buffer.

  \<^bold>\<open>Not modelled.\<close> LevelDB, Boost and the file system are parameters with contracts; the benchmark's \<^verbatim>\<open>float\<close> and \<^verbatim>\<open>rand\<close> are parameters about which nothing is assumed. The mutexes of the log: each call is one step. The destructor of
  the server, which runs after the event loop has stopped, and the signal masks of the main thread. Sockets: what a client sends and when is part of the completions, what it
  receives is \<open>hn_out\<close>; setting the options of an accepted socket does not fail. The log lines of \<^verbatim>\<open>compact\<close> and of a cancel that fails in \<^verbatim>\<open>~oqstream\<close>. Running out of memory,
  as in the benchmark's \<^verbatim>\<open>times.reserve\<close>. The tests, the shell scripts and the documents.
\<close>

end
